(* ===== verification/Prelude.thy ===== *)
theory Prelude
  imports Main "HOL-Library.Word" "HOL-Library.Monad_Syntax" "HOL-Library.Code_Target_Nat"
begin

text \<open>
  The shared vocabulary of the development.  Rust's fixed-width integers are words:
  \<open>u64\<close> is read with \<open>unat\<close>, \<open>i64\<close> is the same word read with \<open>sint\<close>.  The release
  profile compiles plain \<open>+\<close>, \<open>-\<close> and \<open>sum\<close> without overflow checks, so they are the
  wrapping word operations; the saturating operations of the standard library are
  written out below.  \<open>u128\<close> and \<open>i128\<close> intermediates are natural numbers and integers,
  with lemmas that they fit.  A panic is the \<open>None\<close> of an option result, an \<open>Err\<close> the
  \<open>Inl\<close> of a sum.
\<close>

named_theorems ledger_simps "defining equations of the ledger's operations"
named_theorems quota_simps "defining equations of the quota's operations"
named_theorems wf_intros "preservation of well-formedness"

type_synonym u64 = "64 word"
type_synonym i64 = "64 word"
type_synonym octets = "8 word list"

definition u64_max :: u64 where
  "u64_max = - 1"

definition i64_max :: i64 where
  "i64_max = 2 ^ 63 - 1"

definition i64_min :: i64 where
  "i64_min = 2 ^ 63"

definition saturating_add :: "u64 \<Rightarrow> u64 \<Rightarrow> u64" where
  "saturating_add a b = (if unat a + unat b < 2 ^ 64 then a + b else u64_max)"

definition saturating_sub :: "u64 \<Rightarrow> u64 \<Rightarrow> u64" where
  "saturating_sub a b = (if a < b then 0 else a - b)"

definition i64_saturating_sub :: "i64 \<Rightarrow> i64 \<Rightarrow> i64" where
  "i64_saturating_sub a b =
     (let d = sint a - sint b
      in if d > sint i64_max then i64_max
         else if d < sint i64_min then i64_min else a - b)"

section \<open>Words\<close>

lemma unat_lt_u64 [simp]: "unat (x :: u64) < 18446744073709551616"
  using unsigned_less [of x, where ?'a = nat] by simp

lemma unat_u64_max [simp]: "unat u64_max = 18446744073709551615"
  by (simp add: u64_max_def unsigned_minus_1_eq_mask mask_eq_exp_minus_1)

lemma sint_i64_max [simp]: "sint i64_max = 9223372036854775807"
  by (simp add: i64_max_def)

lemma sint_i64_min [simp]: "sint i64_min = - 9223372036854775808"
  by (simp add: i64_min_def)

lemma sint_i64_range: "- 9223372036854775808 \<le> sint (x :: i64)" "sint (x :: i64) < 9223372036854775808"
  using sint_ge [of x] sint_lt [of x] by simp_all

lemma le_u64_max [simp]: "x \<le> u64_max"
  by (simp add: u64_max_def)

lemma unat_saturating_sub: "unat (saturating_sub a b) = unat a - unat b"
  by (simp add: saturating_sub_def unat_sub_if' word_less_nat_alt word_le_nat_alt not_less)

lemma unat_saturating_add: "unat (saturating_add a b) = min (unat a + unat b) 18446744073709551615"
  by (auto simp: saturating_add_def unat_word_ariths)

lemma saturating_sub_self [simp]: "saturating_sub a a = 0"
  by (simp add: saturating_sub_def)

lemma saturating_sub_0 [simp]: "saturating_sub a 0 = a"
  by (simp add: saturating_sub_def)

text \<open>A sum of words without wrap-around is the sum of the numbers.\<close>

lemma unat_add_no_wrap:
  "unat a + unat b < 18446744073709551616 \<Longrightarrow> unat (a + b :: u64) = unat a + unat b"
  by (simp add: unat_word_ariths)

lemma sum_list_word_of_nat:
  "sum_list (map word_of_nat xs) = (word_of_nat (sum_list xs) :: u64)"
  by (induction xs) simp_all

lemma sum_list_eq_word_of_nat:
  "sum_list (ws :: u64 list) = word_of_nat (sum_list (map unat ws))"
  by (induction ws) simp_all

lemma unat_sum_list_no_wrap:
  "sum_list (map unat (ws :: u64 list)) < 18446744073709551616
     \<Longrightarrow> unat (sum_list ws) = sum_list (map unat ws)"
  by (simp add: sum_list_eq_word_of_nat unat_of_nat)

lemma unat_of_nat_u64: "n < 18446744073709551616 \<Longrightarrow> unat (word_of_nat n :: u64) = n"
  by (simp add: unat_of_nat)

lemma unat_of_nat_add_1: "n + 1 < 18446744073709551616 \<Longrightarrow> unat (word_of_nat n + 1 :: u64) = n + 1"
  using unat_of_nat_u64 [of "n + 1"] by (simp add: add.commute)

lemma int_unat_word_of_int:
  assumes "0 \<le> x" "x < (18446744073709551616 :: int)"
  shows "int (unat (word_of_int x :: u64)) = x"
proof -
  have "int (unat (word_of_int x :: u64)) = x mod 18446744073709551616"
    by (simp add: unsigned_of_int take_bit_eq_mod)
  with assms show ?thesis by simp
qed

lemma word_eq_iff_unat_u64: "(a :: u64) = b \<longleftrightarrow> unat a = unat b"
  by (simp add: word_unat_eq_iff)

section \<open>Signed readings\<close>

lemma signed_shift_mod:
  assumes "0 \<le> u" "u < (18446744073709551616 :: int)"
  shows "(u + 9223372036854775808) mod 18446744073709551616 - 9223372036854775808
     = (if u < 9223372036854775808 then u else u - 18446744073709551616)"
proof (cases "u < 9223372036854775808")
  case True
  with assms show ?thesis by simp
next
  case False
  have "(u + 9223372036854775808) mod 18446744073709551616
      = ((u - 9223372036854775808) + 18446744073709551616) mod 18446744073709551616"
    by (simp add: algebra_simps)
  also have "\<dots> = u - 9223372036854775808"
    using assms False by (simp only: mod_add_self2) simp
  finally show ?thesis using False by simp
qed

lemma sint_eq_unat: "sint (x :: i64) = (if unat x < 9223372036854775808 then int (unat x)
     else int (unat x) - 18446744073709551616)"
proof -
  define u where "u = uint x"
  have range: "0 \<le> u" "u < 18446744073709551616"
    using unsigned_less [of x, where ?'a = int] by (simp_all add: u_def)
  have "sint x = (u + 9223372036854775808) mod 18446744073709551616 - 9223372036854775808"
    using int_word_sint [of u, where ?'a = 64] by (simp add: u_def)
  also have "\<dots> = (if u < 9223372036854775808 then u else u - 18446744073709551616)"
    using range by (rule signed_shift_mod)
  moreover have "int (unat x) = u"
    by (simp add: u_def)
  then have "unat x < 9223372036854775808 \<longleftrightarrow> u < 9223372036854775808" "int (unat x) = u"
    by linarith+
  ultimately show ?thesis by simp
qed

lemma sint_eq_iff_i64: "sint (a :: i64) = sint b \<longleftrightarrow> a = b"
  by (rule signed_word_eqI [THEN iffI]) auto

lemma sint_add_no_overflow:
  assumes "- 9223372036854775808 \<le> sint a + sint b" "sint a + sint b < 9223372036854775808"
  shows "sint (a + b :: i64) = sint a + sint b"
proof -
  have "sint (a + b) = (sint a + sint b + 9223372036854775808) mod 18446744073709551616
      - 9223372036854775808"
    using int_word_sint [of "sint a + sint b", where ?'a = 64] by simp
  with assms show ?thesis by simp
qed

lemma sint_diff_no_overflow:
  assumes "- 9223372036854775808 \<le> sint a - sint b" "sint a - sint b < 9223372036854775808"
  shows "sint (a - b :: i64) = sint a - sint b"
proof -
  have "sint (a - b) = (sint a - sint b + 9223372036854775808) mod 18446744073709551616
      - 9223372036854775808"
    using int_word_sint [of "sint a - sint b", where ?'a = 64] by simp
  with assms show ?thesis by simp
qed

lemma sint_i64_saturating_sub:
  "sint (i64_saturating_sub a b)
     = max (- 9223372036854775808) (min 9223372036854775807 (sint a - sint b))"
  by (auto simp: i64_saturating_sub_def Let_def sint_diff_no_overflow)

lemma int_unat_eq_sint:
  assumes "0 \<le> sint (x :: i64)"
  shows "int (unat x) = sint x"
proof -
  have "unat x < 9223372036854775808"
  proof (rule ccontr)
    assume "\<not> unat x < 9223372036854775808"
    then have "sint x = int (unat x) - 18446744073709551616" unfolding sint_eq_unat by argo
    moreover have "int (unat x) < 18446744073709551616" using unat_lt_u64 [of x] by linarith
    ultimately show False using assms by linarith
  qed
  then show ?thesis unfolding sint_eq_unat by argo
qed

section \<open>Updating a list in one place\<close>

lemma sum_list_nth_update:
  fixes f :: "'a \<Rightarrow> nat"
  assumes "k < length xs"
  shows "sum_list (map f (xs[k := x])) + f (xs ! k) = sum_list (map f xs) + f x"
proof -
  have "xs = take k xs @ xs ! k # drop (Suc k) xs" using assms by (rule id_take_nth_drop)
  then have "sum_list (map f xs) = sum_list (map f (take k xs @ xs ! k # drop (Suc k) xs))" by simp
  then show ?thesis using assms by (simp add: upd_conv_take_nth_drop)
qed

lemma list_all_update: "list_all P xs \<Longrightarrow> (i < length xs \<Longrightarrow> P x) \<Longrightarrow> list_all P (xs[i := x])"
proof (cases "i < length xs")
  case True
  moreover assume "list_all P xs" "i < length xs \<Longrightarrow> P x"
  ultimately show ?thesis using set_update_subset_insert [of xs i x] by (auto simp: list_all_iff)
qed (simp add: list_update_beyond not_less)

lemma those_map: "\<forall>x\<in>set xs. f x = Some (g x) \<Longrightarrow> those (map f xs) = Some (map g xs)"
  by (induction xs) auto

lemma map_nth_appended: "map ((!) (xs @ ys)) [length xs..<length xs + length ys] = ys"
  by (rule nth_equalityI) simp_all

end
