(* ===== verification/Sockets.thy ===== *)
theory Sockets
  imports Prelude "HOL-Library.Sublist"
begin

text \<open>
  Socket addresses and \<open>host:port\<close> targets.  The first half is the part of the standard
  library that \<open>target.parse::<SocketAddr>()\<close> runs: a recursive-descent parser in which every
  reader returns the value and the rest of the text, or \<open>None\<close> with nothing consumed.  The
  second half is \<open>dns.rs\<close>: \<open>split_target\<close> and \<open>resolve\<close>, whose DNS lookup is a parameter.
\<close>

datatype ip_addr = V4 "nat list" | V6 "nat list"

datatype socket_addr = SocketAddr (sa_ip: ip_addr) (sa_scope: nat) (sa_port: nat)

type_synonym 'a reader = "string \<Rightarrow> ('a \<times> string) option"

section \<open>The standard library's parser\<close>

definition char_code :: "char \<Rightarrow> nat" where
  "char_code c = of_char c"

definition to_digit :: "nat \<Rightarrow> char \<Rightarrow> nat option" where
  "to_digit radix c = (let n = char_code c;
     d = (if 48 \<le> n \<and> n \<le> 57 then Some (n - 48)
          else if 97 \<le> n \<and> n \<le> 122 then Some (n - 87)
          else if 65 \<le> n \<and> n \<le> 90 then Some (n - 55) else None)
   in case d of None \<Rightarrow> None | Some v \<Rightarrow> if v < radix then Some v else None)"

text \<open>The longest prefix of digits, as digits, and the rest.\<close>

fun read_digits :: "nat \<Rightarrow> string \<Rightarrow> nat list \<times> string" where
  "read_digits radix [] = ([], [])"
| "read_digits radix (c # cs) = (case to_digit radix c of
      None \<Rightarrow> ([], c # cs)
    | Some d \<Rightarrow> (let (ds, rest) = read_digits radix cs in (d # ds, rest)))"

definition digits_value :: "nat \<Rightarrow> nat list \<Rightarrow> nat" where
  "digits_value radix ds = foldl (\<lambda>acc d. acc * radix + d) 0 ds"

text \<open>
  \<open>read_number\<close>: at most \<open>max_digits\<close> digits when that is given, a leading zero only when it is
  allowed or alone, and a value below \<open>bound\<close>, the size of the type that is read.
\<close>

definition read_number :: "nat \<Rightarrow> nat option \<Rightarrow> bool \<Rightarrow> nat \<Rightarrow> nat reader" where
  "read_number radix max_digits allow_zero_prefix bound s =
     (let (ds, rest) = read_digits radix s in
      if ds = [] then None
      else if (case max_digits of None \<Rightarrow> False | Some m \<Rightarrow> length ds > m) then None
      else if \<not> allow_zero_prefix \<and> hd ds = 0 \<and> length ds > 1 then None
      else if digits_value radix ds < bound then Some (digits_value radix ds, rest) else None)"

fun read_given_char :: "char \<Rightarrow> unit reader" where
  "read_given_char c [] = None"
| "read_given_char c (d # ds) = (if d = c then Some ((), ds) else None)"

definition read_separator :: "char \<Rightarrow> nat \<Rightarrow> 'a reader \<Rightarrow> 'a reader" where
  "read_separator sep index inner s =
     (if index > 0 then do { (_, r) \<leftarrow> read_given_char sep s; inner r } else inner s)"

definition read_ipv4_addr :: "(nat list) reader" where
  "read_ipv4_addr s = do {
     (a, s) \<leftarrow> read_separator CHR ''.'' 0 (read_number 10 (Some 3) False 256) s;
     (b, s) \<leftarrow> read_separator CHR ''.'' 1 (read_number 10 (Some 3) False 256) s;
     (c, s) \<leftarrow> read_separator CHR ''.'' 2 (read_number 10 (Some 3) False 256) s;
     (d, s) \<leftarrow> read_separator CHR ''.'' 3 (read_number 10 (Some 3) False 256) s;
     Some ([a, b, c, d], s) }"

text \<open>
  \<open>read_groups\<close>: up to \<open>limit\<close> groups from the group number \<open>i\<close> on, the last two possibly as an
  embedded IPv4 address; the flag says that it was one.
\<close>

function read_groups :: "nat \<Rightarrow> nat \<Rightarrow> string \<Rightarrow> nat list \<times> bool \<times> string" where
  "read_groups i limit s =
     (if limit \<le> i then ([], False, s)
      else case (if i < limit - 1 then read_separator CHR '':'' i read_ipv4_addr s else None) of
        Some (v4, r) \<Rightarrow> ([v4 ! 0 * 256 + v4 ! 1, v4 ! 2 * 256 + v4 ! 3], True, r)
      | None \<Rightarrow>
          (case read_separator CHR '':'' i (read_number 16 (Some 4) True 65536) s of
             None \<Rightarrow> ([], False, s)
           | Some (g, r) \<Rightarrow> (let (gs, v4, r') = read_groups (i + 1) limit r in (g # gs, v4, r'))))"
  by pat_completeness auto
termination
  by (relation "measure (\<lambda>(i, limit, _). limit - i)") auto

declare read_groups.simps [simp del]

definition read_ipv6_addr :: "(nat list) reader" where
  "read_ipv6_addr s =
     (let (head, head_ipv4, r) = read_groups 0 8 s in
      if length head = 8 then Some (head, r)
      else if head_ipv4 then None
      else do {
        (_, r1) \<leftarrow> read_given_char CHR '':'' r;
        (_, r2) \<leftarrow> read_given_char CHR '':'' r1;
        let (tail, _, r3) = read_groups 0 (8 - (length head + 1)) r2;
        Some (head @ replicate (8 - length head - length tail) 0 @ tail, r3) })"

definition read_port :: "nat reader" where
  "read_port s = do { (_, r) \<leftarrow> read_given_char CHR '':'' s; read_number 10 None True 65536 r }"

definition read_scope_id :: "nat reader" where
  "read_scope_id s = do { (_, r) \<leftarrow> read_given_char CHR ''%'' s; read_number 10 None True 4294967296 r }"

definition read_socket_addr_v4 :: "socket_addr reader" where
  "read_socket_addr_v4 s = do {
     (ip, r) \<leftarrow> read_ipv4_addr s; (port, r') \<leftarrow> read_port r;
     Some (SocketAddr (V4 ip) 0 port, r') }"

definition read_socket_addr_v6 :: "socket_addr reader" where
  "read_socket_addr_v6 s = do {
     (_, r1) \<leftarrow> read_given_char CHR ''['' s;
     (ip, r2) \<leftarrow> read_ipv6_addr r1;
     let (scope, r3) = (case read_scope_id r2 of None \<Rightarrow> (0, r2) | Some (n, r) \<Rightarrow> (n, r));
     (_, r4) \<leftarrow> read_given_char CHR '']'' r3;
     (port, r5) \<leftarrow> read_port r4;
     Some (SocketAddr (V6 ip) scope port, r5) }"

text \<open>\<open>parse_with\<close>: the whole text must be consumed.\<close>

definition parse_whole :: "'a reader \<Rightarrow> string \<Rightarrow> 'a option" where
  "parse_whole p s = (case p s of Some (v, []) \<Rightarrow> Some v | _ \<Rightarrow> None)"

definition parse_socket_addr :: "string \<Rightarrow> socket_addr option" where
  "parse_socket_addr = parse_whole (\<lambda>s. case read_socket_addr_v4 s of
     Some r \<Rightarrow> Some r | None \<Rightarrow> read_socket_addr_v6 s)"

definition parse_ip_addr :: "string \<Rightarrow> ip_addr option" where
  "parse_ip_addr = parse_whole (\<lambda>s. case read_ipv4_addr s of
     Some (ip, r) \<Rightarrow> Some (V4 ip, r)
   | None \<Rightarrow> map_option (\<lambda>(ip, r). (V6 ip, r)) (read_ipv6_addr s))"

text \<open>\<open>str::parse::<u16>()\<close>: an optional plus sign, then only digits.\<close>

definition parse_u16 :: "string \<Rightarrow> nat option" where
  "parse_u16 s = (let ds = (case s of [] \<Rightarrow> [] | c # cs \<Rightarrow> if c = CHR ''+'' then cs else s) in
     case read_number 10 None True 65536 ds of Some (n, []) \<Rightarrow> Some n | _ \<Rightarrow> None)"

text \<open>\<open>str::rsplit_once\<close>: around the last occurrence.\<close>

definition rsplit_once :: "char \<Rightarrow> string \<Rightarrow> (string \<times> string) option" where
  "rsplit_once c s = (if c \<in> set s
     then Some (rev (tl (dropWhile (\<lambda>x. x \<noteq> c) (rev s))), rev (takeWhile (\<lambda>x. x \<noteq> c) (rev s)))
     else None)"

section \<open>Targets\<close>

datatype dns_error =
    MissingPort string
  | InvalidPort string
  | EmptyHost string
  | CannotResolve string string
  | NoAddresses string

definition split_target :: "string \<Rightarrow> dns_error + (string \<times> nat)" where
  "split_target target = (case rsplit_once CHR '':'' target of
      None \<Rightarrow> Inl (MissingPort target)
    | Some (host, port) \<Rightarrow>
        (case parse_u16 port of
           None \<Rightarrow> Inl (InvalidPort target)
         | Some p \<Rightarrow> if host = '''' then Inl (EmptyHost target) else Inr (host, p)))"

text \<open>\<open>resolve\<close>, with \<open>lookup_ip\<close> the resolver's answer: an error text or addresses.\<close>

definition resolve :: "(string \<Rightarrow> string + ip_addr list) \<Rightarrow> string \<Rightarrow> dns_error + socket_addr list" where
  "resolve lookup_ip target = (case parse_socket_addr target of
      Some addr \<Rightarrow> Inr [addr]
    | None \<Rightarrow>
        (case split_target target of
           Inl e \<Rightarrow> Inl e
         | Inr (host, port) \<Rightarrow>
             (case parse_ip_addr host of
                Some ip \<Rightarrow> Inr [SocketAddr ip 0 port]
              | None \<Rightarrow>
                  (case lookup_ip host of
                     Inl e \<Rightarrow> Inl (CannotResolve host e)
                   | Inr ips \<Rightarrow>
                       if ips = [] then Inl (NoAddresses host)
                       else Inr (map (\<lambda>ip. SocketAddr ip 0 port) ips)))))"

text \<open>\<open>connect_tcp\<close>: the first address that \<open>dial\<close> connects to, in the resolved order.\<close>

definition connect_tcp :: "(string \<Rightarrow> string + ip_addr list) \<Rightarrow> (socket_addr \<Rightarrow> bool) \<Rightarrow> string
    \<Rightarrow> dns_error + socket_addr option" where
  "connect_tcp lookup_ip dial target = (case resolve lookup_ip target of
      Inl e \<Rightarrow> Inl e
    | Inr addrs \<Rightarrow> Inr (List.find dial addrs))"

section \<open>Readers consume a prefix\<close>

lemma read_digits_prefix:
  "read_digits radix s = (ds, rest) \<Longrightarrow>
     \<exists>p. s = p @ rest \<and> length p = length ds \<and> (\<forall>c\<in>set p. to_digit radix c \<noteq> None)
       \<and> read_digits radix p = (ds, [])"
proof (induction radix s arbitrary: ds rest rule: read_digits.induct)
  case (2 radix c cs)
  show ?case
  proof (cases "to_digit radix c")
    case (Some d)
    obtain ds' rest' where rec: "read_digits radix cs = (ds', rest')" by fastforce
    with "2.prems" Some have out: "ds = d # ds'" "rest = rest'" by auto
    from "2.IH" [OF Some rec] obtain p where "cs = p @ rest'" "length p = length ds'"
      "\<forall>c\<in>set p. to_digit radix c \<noteq> None" "read_digits radix p = (ds', [])" by blast
    with Some out show ?thesis by (intro exI [of _ "c # p"]) simp
  qed (use "2.prems" in auto)
qed simp

lemma read_number_prefix:
  assumes "read_number radix m z bound s = Some (n, rest)"
  obtains p where "s = p @ rest" "p \<noteq> []" "\<forall>c\<in>set p. to_digit radix c \<noteq> None"
    "read_number radix m z bound p = Some (n, [])"
proof -
  obtain ds rest' where ds: "read_digits radix s = (ds, rest')" by fastforce
  then obtain p where p: "s = p @ rest'" "length p = length ds" "\<forall>c\<in>set p. to_digit radix c \<noteq> None"
    "read_digits radix p = (ds, [])"
    using read_digits_prefix by blast
  from assms ds have "rest' = rest" "ds \<noteq> []"
    by (auto simp: read_number_def Let_def split: if_splits)
  with p assms ds show thesis
    by (intro that [of p]) (auto simp: read_number_def Let_def split: if_splits)
qed

lemma read_number_suffix: "read_number radix m z bound s = Some (n, rest) \<Longrightarrow> suffix rest s"
  by (erule read_number_prefix) (simp add: suffix_def)

lemma read_given_char_Some: "read_given_char c s = Some (u, r) \<longleftrightarrow> s = c # r"
  by (cases s) auto

lemma read_separator_suffix:
  assumes "read_separator sep i inner s = Some (v, r)" "\<And>s v r. inner s = Some (v, r) \<Longrightarrow> suffix r s"
  shows "suffix r s"
proof (cases "i = 0")
  case True
  with assms show ?thesis by (simp add: read_separator_def)
next
  case False
  with assms(1) obtain b where "s = sep # b" "inner b = Some (v, r)"
    by (auto simp: read_separator_def read_given_char_Some split: bind_splits)
  with assms(2) show ?thesis by (simp add: suffix_ConsI)
qed

lemma read_separated_number_suffix:
  "read_separator sep i (read_number radix m z bound) s = Some (v, r) \<Longrightarrow> suffix r s"
  by (erule read_separator_suffix) (rule read_number_suffix)

lemma read_ipv4_addr_suffix:
  assumes "read_ipv4_addr s = Some (ip, r)"
  shows "suffix r s"
proof -
  obtain a b c d s1 s2 s3 where
    "read_separator CHR ''.'' 0 (read_number 10 (Some 3) False 256) s = Some (a, s1)"
    "read_separator CHR ''.'' 1 (read_number 10 (Some 3) False 256) s1 = Some (b, s2)"
    "read_separator CHR ''.'' 2 (read_number 10 (Some 3) False 256) s2 = Some (c, s3)"
    "read_separator CHR ''.'' 3 (read_number 10 (Some 3) False 256) s3 = Some (d, r)"
    using assms unfolding read_ipv4_addr_def by (auto split: bind_splits)
  then have "suffix s1 s" "suffix s2 s1" "suffix s3 s2" "suffix r s3"
    by (auto intro: read_separated_number_suffix)
  then show ?thesis by (meson suffix_order.trans)
qed

lemma read_groups_suffix: "read_groups i limit s = (gs, v4, r) \<Longrightarrow> suffix r s"
proof (induction i limit s arbitrary: gs v4 r rule: read_groups.induct)
  case (1 i limit s)
  let ?v4 = "if i < limit - 1 then read_separator CHR '':'' i read_ipv4_addr s else None"
  let ?g = "read_separator CHR '':'' i (read_number 16 (Some 4) True 65536) s"
  show ?case
  proof (cases "limit \<le> i")
    case False
    show ?thesis
    proof (cases ?v4)
      case (Some x)
      with "1.prems" False show ?thesis
        by (subst (asm) read_groups.simps)
          (auto split: if_splits prod.splits dest: read_separator_suffix [OF _ read_ipv4_addr_suffix])
    next
      case v4: None
      show ?thesis
      proof (cases ?g)
        case None
        with v4 False "1.prems" show ?thesis by (subst (asm) read_groups.simps) auto
      next
        case (Some x)
        obtain g r1 where x: "x = (g, r1)" by fastforce
        obtain gs' w r2 where rec: "read_groups (i + 1) limit r1 = (gs', w, r2)" using prod_cases3 by blast
        from "1.prems" False v4 Some x rec have "r = r2" by (subst (asm) read_groups.simps) auto
        moreover have "suffix r2 r1" using "1.IH" [OF False v4 Some x [symmetric] rec] by simp
        moreover have "suffix r1 s" using Some x by (auto dest: read_separated_number_suffix)
        ultimately show ?thesis by (auto intro: suffix_order.trans)
      qed
    qed
  qed (use "1.prems" in \<open>subst (asm) read_groups.simps, simp\<close>)
qed

lemma read_ipv6_addr_suffix: "read_ipv6_addr s = Some (ip, r) \<Longrightarrow> suffix r s"
proof -
  assume read: "read_ipv6_addr s = Some (ip, r)"
  obtain head v4 r0 where head: "read_groups 0 8 s = (head, v4, r0)" using prod_cases3 by blast
  have suf: "suffix r0 s" using read_groups_suffix [OF head] .
  have "r = r0 \<or> (\<exists>r2 tail w. r0 = CHR '':'' # CHR '':'' # r2 \<and> read_groups 0 (8 - (length head + 1)) r2 = (tail, w, r))"
    using read head by (auto simp: read_ipv6_addr_def Let_def read_given_char_Some split: if_splits bind_splits prod.splits)
  then show ?thesis
  proof (elim disjE exE conjE)
    fix r2 tail w
    assume r0: "r0 = CHR '':'' # CHR '':'' # r2"
      and "read_groups 0 (8 - (length head + 1)) r2 = (tail, w, r)"
    then have "suffix r r2" by (auto dest: read_groups_suffix)
    then have "suffix r r0" by (simp add: r0 suffix_ConsI)
    with suf show ?thesis by (rule suffix_order.trans [rotated])
  qed (use suf in simp)
qed

lemma read_port_Some:
  assumes "read_port s = Some (port, r)"
  obtains p where "s = CHR '':'' # p @ r" "\<forall>c\<in>set p. to_digit 10 c \<noteq> None" "p \<noteq> []"
    "read_number 10 None True 65536 p = Some (port, [])"
proof -
  from assms obtain r0 where "s = CHR '':'' # r0" "read_number 10 None True 65536 r0 = Some (port, r)"
    by (auto simp: read_port_def read_given_char_Some split: bind_splits)
  moreover from this(2) obtain p where "r0 = p @ r" "p \<noteq> []" "\<forall>c\<in>set p. to_digit 10 c \<noteq> None"
    "read_number 10 None True 65536 p = Some (port, [])" by (rule read_number_prefix)
  ultimately show thesis using that [of p] by simp
qed

section \<open>Targets that are addresses\<close>

text \<open>Whatever parses as a socket address ends in a colon and the digits of its port.\<close>

lemma parse_socket_addr_shape:
  assumes "parse_socket_addr t = Some a"
  obtains h p where "t = h @ CHR '':'' # p" "h \<noteq> []" "\<forall>c\<in>set p. to_digit 10 c \<noteq> None" "p \<noteq> []"
    "read_number 10 None True 65536 p = Some (sa_port a, [])"
proof -
  have "\<exists>r. suffix r t \<and> r \<noteq> t \<and> read_port r = Some (sa_port a, [])"
  proof (cases "read_socket_addr_v4 t")
    case (Some x)
    with assms have "read_socket_addr_v4 t = Some (a, [])"
      by (auto simp: parse_socket_addr_def parse_whole_def split: list.splits prod.splits)
    then obtain ip r where r: "read_ipv4_addr t = Some (ip, r)" "read_port r = Some (sa_port a, [])"
      by (auto simp: read_socket_addr_v4_def split: bind_splits)
    have "r \<noteq> t"
    proof
      assume "r = t"
      with r(2) have "hd t = CHR '':''" by (auto elim: read_port_Some)
      with r(1) show False
        by (cases t) (auto simp: read_ipv4_addr_def read_separator_def read_number_def
            to_digit_def char_code_def split: bind_splits)
    qed
    with r show ?thesis by (auto dest: read_ipv4_addr_suffix)
  next
    case None
    with assms have "read_socket_addr_v6 t = Some (a, [])"
      by (auto simp: parse_socket_addr_def parse_whole_def split: list.splits prod.splits option.splits)
    then obtain r1 ip r2 scope r3 r4 where r: "t = CHR ''['' # r1" "read_ipv6_addr r1 = Some (ip, r2)"
      "(case read_scope_id r2 of None \<Rightarrow> (0, r2) | Some (n, r) \<Rightarrow> (n, r)) = (scope, r3)"
      "r3 = CHR '']'' # r4" "read_port r4 = Some (sa_port a, [])"
      by (auto simp: read_socket_addr_v6_def read_given_char_Some split: bind_splits prod.splits)
    have "suffix r3 r2"
      using r(3) by (auto simp: read_scope_id_def read_given_char_Some split: option.splits bind_splits
          dest!: read_number_suffix intro: suffix_ConsI)
    then have "suffix r4 r1"
      using read_ipv6_addr_suffix [OF r(2)] by (metis r(4) suffix_ConsI suffix_order.trans suffix_order.refl)
    with r(1,5) show ?thesis
      by (intro exI [of _ r4]) (auto intro: suffix_ConsI simp: suffix_def)
  qed
  then obtain r where r: "suffix r t" "r \<noteq> t" "read_port r = Some (sa_port a, [])" by blast
  obtain p where p: "r = CHR '':'' # p @ []" "\<forall>c\<in>set p. to_digit 10 c \<noteq> None" "p \<noteq> []"
    "read_number 10 None True 65536 p = Some (sa_port a, [])"
    by (rule read_port_Some [OF r(3)])
  from r(1,2) obtain h where "t = h @ r" "h \<noteq> []" by (auto simp: suffix_def)
  with p show thesis by (intro that [of h p]) simp_all
qed

lemma rsplit_once_last: "c \<notin> set p \<Longrightarrow> rsplit_once c (h @ c # p) = Some (h, p)"
proof -
  assume "c \<notin> set p"
  then have all: "\<And>x. x \<in> set (rev p) \<Longrightarrow> x \<noteq> c" by auto
  show ?thesis
    using takeWhile_append2 [of "rev p" "\<lambda>x. x \<noteq> c" "c # rev h"] all
      dropWhile_append2 [of "rev p" "\<lambda>x. x \<noteq> c" "c # rev h"]
    by (simp add: rsplit_once_def)
qed

lemma digits_no_sign:
  assumes "\<forall>c\<in>set p. to_digit 10 c \<noteq> None" "p \<noteq> []"
  shows "CHR '':'' \<notin> set p" "hd p \<noteq> CHR ''+''"
proof -
  have "to_digit 10 CHR '':'' = None" "to_digit 10 CHR ''+'' = None"
    by (simp_all add: to_digit_def char_code_def)
  with assms hd_in_set [OF assms(2)] show "CHR '':'' \<notin> set p" "hd p \<noteq> CHR ''+''" by metis+
qed

lemma split_target_of_addr:
  assumes "parse_socket_addr t = Some a"
  shows "\<exists>host. host \<noteq> '''' \<and> split_target t = Inr (host, sa_port a)"
proof -
  obtain h p where p: "t = h @ CHR '':'' # p" "h \<noteq> []" "\<forall>c\<in>set p. to_digit 10 c \<noteq> None" "p \<noteq> []"
    "read_number 10 None True 65536 p = Some (sa_port a, [])"
    by (rule parse_socket_addr_shape [OF assms])
  note no_sign = digits_no_sign [OF p(3,4)]
  then have "parse_u16 p = Some (sa_port a)"
    using p(4,5) by (cases p) (simp_all add: parse_u16_def)
  with p no_sign show ?thesis by (simp add: split_target_def rsplit_once_last)
qed

lemma read_number_bound: "read_number radix m z bound s = Some (n, r) \<Longrightarrow> n < bound"
  by (auto simp: read_number_def Let_def split: if_splits prod.splits)

lemma split_target_bounds:
  assumes "split_target t = Inr (host, port)"
  shows "host \<noteq> '''' \<and> port < 65536"
  using assms
  by (auto simp: split_target_def parse_u16_def Let_def
      split: option.splits prod.splits list.splits if_splits dest!: read_number_bound)

text \<open>Resolving a target gives at least one address, and every address has the port the
  target names, a 16-bit number; a target that is written as an IP address, with or without
  brackets, never asks the resolver.\<close>

lemma resolve_keeps_the_port:
  assumes "resolve lookup_ip t = Inr addrs"
  shows "addrs \<noteq> [] \<and> (\<exists>host port. split_target t = Inr (host, port) \<and> host \<noteq> '''' \<and> port < 65536
    \<and> (\<forall>a\<in>set addrs. sa_port a = port)
    \<and> (parse_socket_addr t \<noteq> None \<or> parse_ip_addr host \<noteq> None
         \<longrightarrow> length addrs = 1 \<and> (\<forall>other. resolve other t = Inr addrs)))"
proof (cases "parse_socket_addr t")
  case (Some a)
  with assms split_target_of_addr [OF Some] show ?thesis
    by (auto simp: resolve_def dest: split_target_bounds)
next
  case None
  with assms obtain host port where host: "split_target t = Inr (host, port)"
    by (auto simp: resolve_def split: sum.splits)
  from split_target_bounds [OF this] assms None host show ?thesis
    by (auto simp: resolve_def split: option.splits sum.splits if_splits)
qed

lemma resolve_keeps_the_port_witness:
  "resolve (\<lambda>_. Inl ''offline'') ''[::1]:8080'' = Inr [SocketAddr (V6 [0, 0, 0, 0, 0, 0, 0, 1]) 0 8080]
     \<and> (\<exists>host port. split_target ''[::1]:8080'' = Inr (host, port) \<and> port < 65536)"
proof -
  have r: "resolve (\<lambda>_. Inl ''offline'') ''[::1]:8080'' = Inr [SocketAddr (V6 [0, 0, 0, 0, 0, 0, 0, 1]) 0 8080]"
    by code_simp
  from resolve_keeps_the_port [OF r] r show ?thesis by blast
qed

end
