(* ===== verification/Sizes.thy ===== *)
theory Sizes
  imports Sockets
begin

text \<open>
  Byte sizes of \<open>config.rs\<close>: \<open>parse_size\<close>, and the serialisation of \<open>ByteSize\<close>.  The source
  computes in \<open>f64\<close>; here a non-negative finite \<open>f64\<close> is a pair \<open>(m, e)\<close> for \<open>m * 2 ^ e\<close>, and
  reading a decimal rounds it to 53 bits, half to even, as IEEE 754 does.  Values too small to be
  normal numbers are rounded differently by the hardware, but they are below one byte after any
  unit, so the result is zero either way; values too large to be finite are out of range either
  way.  Multiplying by a unit, a power of two, is exact.  Texts are ASCII: white space is the six
  ASCII characters that \<open>str::trim\<close> removes.
\<close>

section \<open>Texts\<close>

definition is_whitespace :: "char \<Rightarrow> bool" where
  "is_whitespace c \<longleftrightarrow> (let n = char_code c in 9 \<le> n \<and> n \<le> 13 \<or> n = 32)"

definition trim :: "string \<Rightarrow> string" where
  "trim s = rev (dropWhile is_whitespace (rev (dropWhile is_whitespace s)))"

definition ascii_upper :: "char \<Rightarrow> char" where
  "ascii_upper c = (let n = char_code c in if 97 \<le> n \<and> n \<le> 122 then char_of (n - 32) else c)"

definition is_digit :: "char \<Rightarrow> bool" where
  "is_digit c \<longleftrightarrow> 48 \<le> char_code c \<and> char_code c \<le> 57"

text \<open>Decimal printing of an unsigned integer.\<close>

fun show_nat :: "nat \<Rightarrow> string" where
  "show_nat n = (if n < 10 then [char_of (48 + n)] else show_nat (n div 10) @ [char_of (48 + n mod 10)])"

declare show_nat.simps [simp del]

section \<open>Reading an \<open>f64\<close>\<close>

fun bit_length :: "nat \<Rightarrow> nat" where
  "bit_length n = (if n = 0 then 0 else Suc (bit_length (n div 2)))"

declare bit_length.simps [simp del]

text \<open>The quotient \<open>a / b\<close> rounded to the nearest integer, half to even.\<close>

definition round_half_even :: "nat \<Rightarrow> nat \<Rightarrow> nat" where
  "round_half_even a b = (let q = a div b; r = a mod b in
     if 2 * r < b \<or> 2 * r = b \<and> even q then q else q + 1)"

text \<open>
  The nearest double to \<open>a / b\<close>: with \<open>l\<close> the difference of the bit lengths, the quotient is
  between \<open>2 ^ (l - 1)\<close> and \<open>2 ^ (l + 1)\<close>, and the exponent is chosen so that the integral part
  of the scaled quotient has 53 bits.
\<close>

definition scaled :: "nat \<Rightarrow> nat \<Rightarrow> int \<Rightarrow> nat" where
  "scaled a b e = (if 0 \<le> e then round_half_even a (b * 2 ^ nat e)
     else round_half_even (a * 2 ^ nat (- e)) b)"

definition nearest_f64 :: "nat \<Rightarrow> nat \<Rightarrow> nat \<times> int" where
  "nearest_f64 a b = (if a = 0 then (0, 0)
     else
       let l = int (bit_length a) - int (bit_length b);
           full = (if 0 \<le> l then b * 2 ^ nat l \<le> a else b \<le> a * 2 ^ nat (- l));
           e = (if full then l - 52 else l - 53)
       in (scaled a b e, e))"

text \<open>
  \<open>num.parse::<f64>()\<close> on a text of digits and dots: at least one digit and at most one dot.
  The result is the numerator and the number of digits after the dot.
\<close>

definition parse_decimal :: "string \<Rightarrow> (nat \<times> nat) option" where
  "parse_decimal s =
     (let whole = takeWhile (\<lambda>c. c \<noteq> CHR ''.'') s; rest = dropWhile (\<lambda>c. c \<noteq> CHR ''.'') s;
          frac = tl rest
      in if whole @ frac = [] \<or> \<not> list_all is_digit (whole @ frac) then None
         else Some (digits_value 10 (map (\<lambda>c. char_code c - 48) (whole @ frac)), length frac))"

section \<open>Sizes\<close>

datatype size_error = InvalidSize string | UnknownUnit string string | SizeOutOfRange string | NegativeSize

definition unit_shift :: "string \<Rightarrow> nat option" where
  "unit_shift u =
     (if u = '''' \<or> u = ''B'' then Some 0
      else if u = ''K'' \<or> u = ''KB'' \<or> u = ''KIB'' then Some 10
      else if u = ''M'' \<or> u = ''MB'' \<or> u = ''MIB'' then Some 20
      else if u = ''G'' \<or> u = ''GB'' \<or> u = ''GIB'' then Some 30
      else if u = ''T'' \<or> u = ''TB'' \<or> u = ''TIB'' then Some 40 else None)"

text \<open>\<open>bytes > u64::MAX as f64\<close> compares with \<open>2 ^ 64\<close>, and \<open>as u64\<close> truncates and saturates.\<close>

definition f64_exceeds_u64 :: "nat \<times> int \<Rightarrow> bool" where
  "f64_exceeds_u64 x = (case x of (m, e) \<Rightarrow>
     if 0 \<le> e then m * 2 ^ nat e > 2 ^ 64 else m > 2 ^ (64 + nat (- e)))"

definition f64_as_u64 :: "nat \<times> int \<Rightarrow> u64" where
  "f64_as_u64 x = (case x of (m, e) \<Rightarrow>
     word_of_nat (min 18446744073709551615 (if 0 \<le> e then m * 2 ^ nat e else m div 2 ^ nat (- e))))"

definition parse_size :: "string \<Rightarrow> size_error + u64" where
  "parse_size text =
     (let s = trim text;
          num = takeWhile (\<lambda>c. is_digit c \<or> c = CHR ''.'') s;
          rest = dropWhile (\<lambda>c. is_digit c \<or> c = CHR ''.'') s
      in case parse_decimal num of
        None \<Rightarrow> Inl (InvalidSize s)
      | Some (d, k) \<Rightarrow>
          (let u = map ascii_upper (trim rest) in
           case unit_shift u of
             None \<Rightarrow> Inl (UnknownUnit u s)
           | Some j \<Rightarrow>
               (let (m, e) = nearest_f64 d (10 ^ k);
                    bytes = (m, e + int j)
                in if f64_exceeds_u64 bytes then Inl (SizeOutOfRange s)
                   else Inr (f64_as_u64 bytes))))"

section \<open>\<open>ByteSize\<close>\<close>

text \<open>What a deserializer hands over, and what the serializer emits.\<close>

datatype size_value = SizeU64 u64 | SizeI64 i64 | SizeStr string

definition bytesize_deserialize :: "size_value \<Rightarrow> size_error + u64" where
  "bytesize_deserialize v = (case v of
      SizeU64 n \<Rightarrow> Inr n
    | SizeI64 n \<Rightarrow> if sint n < 0 then Inl NegativeSize else Inr n
    | SizeStr s \<Rightarrow> parse_size s)"

definition size_units :: "(u64 \<times> string) list" where
  "size_units = [(2 ^ 40, ''TB''), (2 ^ 30, ''GB''), (2 ^ 20, ''MB''), (2 ^ 10, ''KB'')]"

definition bytesize_serialize :: "u64 \<Rightarrow> size_value" where
  "bytesize_serialize v =
     (case List.find (\<lambda>(sz, _). v \<noteq> 0 \<and> v mod sz = 0) size_units of
        Some (sz, u) \<Rightarrow> SizeStr (show_nat (unat (v div sz)) @ u)
      | None \<Rightarrow> SizeU64 v)"

section \<open>Printing\<close>

text \<open>
  \<open>format_size\<close>: the value as an \<open>f64\<close>, divided by 1024 (exact, the exponent goes down by ten)
  while it is at least 1024 and a unit is left; two decimals, rounded half to even from the exact
  binary value, as the formatting of the standard library does.
\<close>

definition f64_ge_1024 :: "nat \<times> int \<Rightarrow> bool" where
  "f64_ge_1024 x = (case x of (m, e) \<Rightarrow> if 10 \<le> e then 0 < m else m \<ge> 2 ^ nat (10 - e))"

fun scale_unit :: "nat \<times> int \<Rightarrow> string list \<Rightarrow> (nat \<times> int) \<times> string" where
  "scale_unit x [] = (x, '''')"
| "scale_unit x [u] = (x, u)"
| "scale_unit x (u # v # us) = (if f64_ge_1024 x then scale_unit (fst x, snd x - 10) (v # us) else (x, u))"

definition hundredths :: "nat \<times> int \<Rightarrow> nat" where
  "hundredths x = (case x of (m, e) \<Rightarrow>
     if 0 \<le> e then 100 * m * 2 ^ nat e else round_half_even (100 * m) (2 ^ nat (- e)))"

definition two_decimals :: "nat \<times> int \<Rightarrow> string" where
  "two_decimals x = (let h = hundredths x in
     show_nat (h div 100) @ ''.'' @ [char_of (48 + h div 10 mod 10), char_of (48 + h mod 10)])"

definition format_size :: "u64 \<Rightarrow> string" where
  "format_size bytes =
     (let (value, u) = scale_unit (nearest_f64 (unat bytes) 1) [''B'', ''KB'', ''MB'', ''GB'', ''TB''] in
      if u = ''B'' then show_nat (unat bytes) @ ''B'' else two_decimals value @ u)"

section \<open>Integers survive the trip through \<open>f64\<close>\<close>

lemma bit_length_pos: "0 < n \<Longrightarrow> bit_length n = Suc (bit_length (n div 2))"
  by (subst bit_length.simps) simp

lemma bit_length_bounds: "0 < n \<Longrightarrow> 2 ^ bit_length n \<le> 2 * n \<and> n < 2 ^ bit_length n"
proof (induction n rule: bit_length.induct)
  case (1 n)
  note bl = bit_length_pos [OF "1.prems"]
  show ?case
  proof (cases "n = 1")
    case True
    then show ?thesis by (simp add: bit_length.simps)
  next
    case False
    define b where "b = bit_length (n div 2)"
    from False 1 have IH: "2 ^ b \<le> 2 * (n div 2)" "n div 2 < 2 ^ b" by (auto simp: b_def)
    have "2 ^ b \<le> n" using IH(1) by linarith
    moreover have "n < 2 * 2 ^ b" using IH(2) by linarith
    ultimately show ?thesis by (simp add: bl flip: b_def)
  qed
qed

lemma bit_length_1: "bit_length (Suc 0) = 1"
  by (simp add: bit_length.simps)

lemma bit_length_le:
  assumes "0 < n" "n < 2 ^ k"
  shows "bit_length n \<le> k"
proof (rule ccontr)
  assume "\<not> bit_length n \<le> k"
  then have "(2 :: nat) ^ Suc k \<le> 2 ^ bit_length n" by (intro power_increasing) simp_all
  with assms(2) bit_length_bounds [OF assms(1)] show False by simp
qed

lemma round_half_even_1 [simp]: "round_half_even a (Suc 0) = a"
  by (simp add: round_half_even_def)

lemma nearest_integer:
  assumes "0 < n" "n < 2 ^ 53"
  shows "nearest_f64 n (Suc 0) = (n * 2 ^ (53 - bit_length n), int (bit_length n) - 53)"
proof -
  define b where "b = bit_length n - 1"
  have b: "bit_length n = Suc b" using bit_length_pos [OF assms(1)] by (simp add: b_def)
  have full: "2 ^ b \<le> n" using bit_length_bounds [OF assms(1)] by (simp add: b)
  have le: "b \<le> 52" using bit_length_le [OF assms] by (simp add: b)
  have "scaled n (Suc 0) (int b - 52) = n * 2 ^ (52 - b)"
    using le by (cases "b = 52") (simp_all add: scaled_def nat_diff_distrib)
  then show ?thesis
    using assms(1) full by (simp add: nearest_f64_def b bit_length_1)
qed

text \<open>The size of an integer below \<open>2 ^ 53\<close> with a unit is exact.\<close>

lemma integer_size:
  assumes "n < 2 ^ 53" "n * 2 ^ j < 2 ^ 64"
  shows "(let (m, e) = nearest_f64 n (Suc 0); bytes = (m, e + int j) in
     \<not> f64_exceeds_u64 bytes \<and> f64_as_u64 bytes = word_of_nat (n * 2 ^ j))"
proof (cases "n = 0")
  case False
  define b where "b = bit_length n"
  have le: "b \<le> 53" using bit_length_le [of n 53] assms(1) False by (simp add: b_def)
  have near: "nearest_f64 n (Suc 0) = (n * 2 ^ (53 - b), int b - 53)"
    using nearest_integer [of n] assms(1) False by (simp add: b_def)
  have small: "min 18446744073709551615 (n * 2 ^ j) = n * 2 ^ j" using assms(2) by simp
  show ?thesis
  proof (cases "53 \<le> b + j")
    case True
    then have e: "nat (int b - 53 + int j) = j - (53 - b)" "0 \<le> int b - 53 + int j" using le by auto
    have "(2 :: nat) ^ (53 - b) * 2 ^ (j - (53 - b)) = 2 ^ j"
      using True le by (simp flip: power_add)
    then have "n * 2 ^ (53 - b) * 2 ^ (j - (53 - b)) = n * 2 ^ j" by (simp only: mult.assoc)
    then show ?thesis
      using assms(2) unfolding near Let_def prod.case f64_exceeds_u64_def f64_as_u64_def
      by (simp only: e if_True small) simp
  next
    case False
    define k where "k = 53 - b - j"
    have k: "nat (- (int b - 53 + int j)) = k" "\<not> 0 \<le> int b - 53 + int j" "53 - b = j + k"
      using False by (auto simp: k_def)
    have split: "n * 2 ^ (53 - b) = n * 2 ^ j * 2 ^ k" by (simp add: k(3) power_add)
    have "n * 2 ^ j * 2 ^ k < 2 ^ 64 * 2 ^ k" using assms(2) by (rule mult_strict_right_mono) simp
    then have "\<not> n * 2 ^ j * 2 ^ k > 2 ^ (64 + k)" unfolding power_add by linarith
    then show ?thesis
      using small unfolding near Let_def prod.case f64_exceeds_u64_def f64_as_u64_def split k(1)
      by (simp only: k(2) if_False) simp
  qed
qed (simp add: nearest_f64_def f64_exceeds_u64_def f64_as_u64_def)

section \<open>Printed numbers\<close>

lemma show_nat_small: "n < 10 \<Longrightarrow> show_nat n = [char_of (48 + n)]"
  by (simp add: show_nat.simps)

lemma show_nat_large: "\<not> n < 10 \<Longrightarrow> show_nat n = show_nat (n div 10) @ [char_of (48 + n mod 10)]"
  by (subst show_nat.simps) simp

lemma char_code_digit: "d < 10 \<Longrightarrow> char_code (char_of (48 + d)) = 48 + d"
  by (simp add: char_code_def of_char_of)

lemma digits_value_append: "digits_value r (ds @ [d]) = digits_value r ds * r + d"
  by (simp add: digits_value_def)

lemma show_nat_digits: "\<forall>c\<in>set (show_nat n). is_digit c"
proof (induction n rule: show_nat.induct)
  case (1 n)
  then show ?case
    by (cases "n < 10") (auto simp: show_nat_small show_nat_large is_digit_def char_code_digit)
qed

lemma show_nat_value: "digits_value 10 (map (\<lambda>c. char_code c - 48) (show_nat n)) = n"
proof (induction n rule: show_nat.induct)
  case (1 n)
  then show ?case
    by (cases "n < 10")
      (simp_all add: show_nat_small show_nat_large char_code_digit digits_value_append,
       simp add: digits_value_def)
qed

lemma show_nat_nonempty [simp]: "show_nat n \<noteq> []"
  by (cases "n < 10") (simp_all add: show_nat_small show_nat_large)

lemma digit_not_special: "is_digit c \<Longrightarrow> \<not> is_whitespace c \<and> c \<noteq> CHR ''.''"
  by (auto simp: is_digit_def is_whitespace_def char_code_def)

lemma parse_decimal_digits:
  assumes "\<forall>c\<in>set s. is_digit c" "s \<noteq> []"
  shows "parse_decimal s = Some (digits_value 10 (map (\<lambda>c. char_code c - 48) s), 0)"
proof -
  have "\<forall>c\<in>set s. c \<noteq> CHR ''.''" using assms(1) digit_not_special by blast
  then have whole: "takeWhile (\<lambda>c. c \<noteq> CHR ''.'') s = s" "dropWhile (\<lambda>c. c \<noteq> CHR ''.'') s = []" by simp_all
  show ?thesis unfolding parse_decimal_def Let_def whole using assms by (simp add: list_all_iff)
qed

lemma trim_id:
  assumes "s \<noteq> []" "\<not> is_whitespace (hd s)" "\<not> is_whitespace (last s)"
  shows "trim s = s"
proof -
  have "dropWhile is_whitespace s = s" using assms by (cases s) auto
  moreover have "dropWhile is_whitespace (rev s) = rev s"
    using assms by (cases s rule: rev_cases) auto
  ultimately show ?thesis by (simp add: trim_def)
qed

text \<open>The units the serializer writes, and no unit at all.\<close>

definition written_units :: "(string \<times> nat) list" where
  "written_units = [('''', 0), (''B'', 0), (''KB'', 10), (''MB'', 20), (''GB'', 30), (''TB'', 40)]"

lemma written_unit_cases:
  assumes "(u, j) \<in> set written_units"
  shows "trim u = u" "map ascii_upper u = u" "unit_shift u = Some j"
    "u \<noteq> [] \<Longrightarrow> \<not> is_digit (hd u) \<and> hd u \<noteq> CHR ''.'' \<and> \<not> is_whitespace (last u)"
proof -
  have "list_all (\<lambda>(u, j). trim u = u \<and> map ascii_upper u = u \<and> unit_shift u = Some j
      \<and> (u = [] \<or> (\<not> is_digit (hd u) \<and> hd u \<noteq> CHR ''.'' \<and> \<not> is_whitespace (last u)))) written_units"
    by code_simp
  with assms have "trim u = u \<and> map ascii_upper u = u \<and> unit_shift u = Some j
      \<and> (u = [] \<or> (\<not> is_digit (hd u) \<and> hd u \<noteq> CHR ''.'' \<and> \<not> is_whitespace (last u)))"
    unfolding list_all_iff by blast
  then show "trim u = u" "map ascii_upper u = u" "unit_shift u = Some j"
    "u \<noteq> [] \<Longrightarrow> \<not> is_digit (hd u) \<and> hd u \<noteq> CHR ''.'' \<and> \<not> is_whitespace (last u)"
    by blast+
qed

lemma parse_size_integer:
  assumes "(u, j) \<in> set written_units" "n < 2 ^ 53" "n * 2 ^ j < 2 ^ 64"
  shows "parse_size (show_nat n @ u) = Inr (word_of_nat (n * 2 ^ j))"
proof -
  note unit = written_unit_cases [OF assms(1)]
  let ?p = "\<lambda>c. is_digit c \<or> c = CHR ''.''"
  have digit: "is_digit (hd (show_nat n))" "is_digit (last (show_nat n))"
    using show_nat_digits [of n] by simp_all
  have "trim (show_nat n @ u) = show_nat n @ u"
    using digit unit(4) by (intro trim_id) (auto simp: digit_not_special hd_append last_append)
  moreover have "takeWhile ?p (show_nat n @ u) = show_nat n" "dropWhile ?p (show_nat n @ u) = u"
    using show_nat_digits [of n] unit(4)
    by (cases u; simp add: takeWhile_append dropWhile_append)+
  moreover have "parse_decimal (show_nat n) = Some (n, 0)"
    using parse_decimal_digits [OF show_nat_digits show_nat_nonempty] by (simp add: show_nat_value)
  ultimately show ?thesis
    using integer_size [OF assms(2,3)] unit(1-3)
    by (auto simp: parse_size_def Let_def split: prod.splits)
qed

section \<open>Sizes round-trip\<close>

lemma size_units_written:
  "list_all (\<lambda>(sz, u). list_ex (\<lambda>(u', j). u' = u \<and> unat sz = 2 ^ j \<and> 10 \<le> j) written_units) size_units"
  by (simp add: size_units_def written_units_def)

lemma bytesize_reads_back:
  assumes "unat v < 2 ^ 63"
  shows "bytesize_deserialize (bytesize_serialize v) = Inr v"
proof (cases "List.find (\<lambda>(sz, _). v \<noteq> 0 \<and> v mod sz = 0) size_units")
  case None
  then show ?thesis by (simp add: bytesize_serialize_def bytesize_deserialize_def)
next
  case (Some x)
  obtain sz u where x: "x = (sz, u)" by fastforce
  from Some have found: "(sz, u) \<in> set size_units" "v mod sz = 0"
    unfolding x find_Some_iff by (metis (mono_tags, lifting) case_prod_conv nth_mem)+
  obtain j where j: "(u, j) \<in> set written_units" "unat sz = 2 ^ j" "10 \<le> j"
    using size_units_written found(1) unfolding list_all_iff list_ex_iff by blast
  have "unat v mod unat sz = 0" using found(2) by (metis unat_mod unat_0)
  then have exact: "unat (v div sz) * 2 ^ j = unat v"
    by (simp add: unat_div j(2)) (metis dvd_div_mult_self dvd_eq_mod_eq_0 j(2))
  have "unat (v div sz) * 2 ^ 10 \<le> unat (v div sz) * 2 ^ j"
    using j(3) by (intro mult_left_mono power_increasing) simp_all
  with exact assms have "unat (v div sz) < 2 ^ 53" by simp
  moreover have "unat (v div sz) * 2 ^ j < 2 ^ 64" using exact assms by simp
  ultimately have "parse_size (show_nat (unat (v div sz)) @ u) = Inr (word_of_nat (unat v))"
    using parse_size_integer [OF j(1)] exact by metis
  then show ?thesis
    using Some by (simp add: x bytesize_serialize_def bytesize_deserialize_def)
qed

text \<open>C40: every size below \<open>2 ^ 63\<close> that is serialized, with the largest unit that divides it
  or as a plain number, is read back as the same size.\<close>

theorem bytesize_roundtrip:
  assumes "unat v < 2 ^ 63"
  shows "bytesize_deserialize (bytesize_serialize v) = Inr v"
  by (rule bytesize_reads_back [OF assms])

theorem bytesize_roundtrip_witness:
  "unat (1610612736 :: u64) < 2 ^ 63 \<and> bytesize_deserialize (bytesize_serialize 1610612736) = Inr 1610612736"
  using bytesize_roundtrip [of 1610612736] by simp

text \<open>Above that bound a size can change when it is written and read again: the number of
  kilobytes has more bits than the \<open>f64\<close> it is read through, so the last kilobyte is lost.\<close>

lemma bytesize_loses_a_kilobyte:
  "bytesize_deserialize (bytesize_serialize ((2 ^ 53 + 1) * 2 ^ 10)) = Inr (2 ^ 53 * 2 ^ 10)
     \<and> (2 ^ 53 * 2 ^ 10 :: u64) \<noteq> (2 ^ 53 + 1) * 2 ^ 10"
proof -
  have "bytesize_serialize ((2 ^ 53 + 1) * 2 ^ 10) = SizeStr ''9007199254740993KB''"
    by (simp add: bytesize_serialize_def size_units_def show_nat.simps) code_simp
  moreover have "parse_decimal ''9007199254740993'' = Some (9007199254740993, 0)" by code_simp
  moreover have "nearest_f64 9007199254740993 1 = (4503599627370496, 1)" by code_simp
  moreover have "trim ''9007199254740993KB'' = ''9007199254740993KB''"
    "takeWhile (\<lambda>c. is_digit c \<or> c = CHR ''.'') ''9007199254740993KB'' = ''9007199254740993''"
    "unit_shift (map ascii_upper (trim (dropWhile (\<lambda>c. is_digit c \<or> c = CHR ''.'') ''9007199254740993KB''))) = Some 10"
    by code_simp+
  moreover have "\<not> f64_exceeds_u64 (4503599627370496, 1 + int 10)" "f64_as_u64 (4503599627370496, 1 + int 10) = 2 ^ 53 * 2 ^ 10"
    by (simp_all add: f64_exceeds_u64_def f64_as_u64_def)
  ultimately show ?thesis by (simp add: bytesize_deserialize_def parse_size_def)
qed

end
