(* ===== verification/Config.thy ===== *)
theory Config
  imports Sizes
begin

text \<open>
  The configuration (\<open>config.rs\<close>): its data, the folding of the single-user shorthand,
  validation and the resolution of quotas.  Reading YAML and JSON5 is the work of library
  deserializers, which are parameters of \<open>parse_config\<close>.  A validation error is a constructor
  with what the message mentions.
\<close>

section \<open>Data\<close>

record state_file_config =
  sf_enabled :: bool
  sf_path :: string
  sf_flush_secs :: u64

record api_config =
  ap_listen :: socket_addr
  ap_token :: "string option"

record panel_config =
  pn_enabled :: bool
  pn_listen :: socket_addr
  pn_token :: string
  pn_username :: string
  pn_password :: string
  pn_path :: string

definition has_token :: "panel_config \<Rightarrow> bool" where
  "has_token p \<longleftrightarrow> pn_token p \<noteq> ''''"

definition has_login :: "panel_config \<Rightarrow> bool" where
  "has_login p \<longleftrightarrow> pn_username p \<noteq> '''' \<and> pn_password p \<noteq> ''''"

datatype mode = Offline | Remote

datatype metering = MeterMax | MeterSum | MeterDownload

definition bill :: "metering \<Rightarrow> u64 \<Rightarrow> u64 \<Rightarrow> u64" where
  "bill m upload download = (case m of
      MeterMax \<Rightarrow> max upload download
    | MeterSum \<Rightarrow> saturating_add upload download
    | MeterDownload \<Rightarrow> download)"

datatype provider = Volcengine

record remote_config =
  rc_provider :: provider
  rc_access_key :: string
  rc_secret_key :: string
  rc_regions :: "string list"
  rc_interval_secs :: u64
  rc_packages :: "string list"

record accounting =
  acc_mode :: mode
  acc_metering :: metering
  acc_remote :: "remote_config option"

definition accounting_default :: accounting where
  "accounting_default = \<lparr> acc_mode = Offline, acc_metering = MeterMax, acc_remote = None \<rparr>"

definition active_remote :: "accounting \<Rightarrow> remote_config option" where
  "active_remote a = (case acc_remote a of None \<Rightarrow> None
     | Some r \<Rightarrow> if acc_mode a = Remote then Some r else None)"

datatype protocol = Both | Tcp | Udp

definition proto_tcp :: "protocol \<Rightarrow> bool" where
  "proto_tcp p \<longleftrightarrow> p = Both \<or> p = Tcp"

definition proto_udp :: "protocol \<Rightarrow> bool" where
  "proto_udp p \<longleftrightarrow> p = Both \<or> p = Udp"

definition proto_name :: "protocol \<Rightarrow> string" where
  "proto_name p = (case p of Both \<Rightarrow> ''tcp+udp'' | Tcp \<Rightarrow> ''tcp'' | Udp \<Rightarrow> ''udp'')"

record rule =
  rl_listen :: socket_addr
  rl_target :: string
  rl_fallback :: "string list"
  rl_check_secs :: u64
  rl_protocol :: protocol
  rl_enabled :: bool
  rl_tag :: "string option"

record user_config =
  uc_name :: string
  uc_quota :: "u64 option"
  uc_packages :: "string list"
  uc_rules :: "rule list"

record config =
  cf_state_file :: "state_file_config option"
  cf_api :: "api_config option"
  cf_panel :: "panel_config option"
  cf_total_quota :: "u64 option"
  cf_accounting :: accounting
  cf_rules :: "rule list"
  cf_users :: "user_config list"
  cf_single_user :: bool

definition config_panel :: "config \<Rightarrow> panel_config option" where
  "config_panel c = (case cf_panel c of None \<Rightarrow> None
     | Some p \<Rightarrow> if pn_enabled p then Some p else None)"

text \<open>What a deserializer may find where a fallback is expected.\<close>

datatype targets_value = TargetStr string | TargetSeq "string list"

definition string_or_strings :: "targets_value \<Rightarrow> string list" where
  "string_or_strings v = (case v of TargetStr t \<Rightarrow> [t] | TargetSeq ts \<Rightarrow> ts)"

definition default_panel_listen :: socket_addr where
  "default_panel_listen = SocketAddr (V4 [127, 0, 0, 1]) 0 8888"

definition default_flush_secs :: u64 where
  "default_flush_secs = 10"

definition default_check_secs :: u64 where
  "default_check_secs = 10"

definition default_sync_secs :: u64 where
  "default_sync_secs = 600"

definition MIN_SYNC_SECS :: u64 where
  "MIN_SYNC_SECS = 60"

section \<open>Validation\<close>

datatype config_error =
    RulesAndUsers
  | NoUsers
  | TooManyUsers
  | ZeroFlush
  | HalfLogin
  | DuplicateTcp socket_addr
  | DuplicateUdp socket_addr
  | EmptyUserName
  | DuplicateUser string
  | EmptyTarget string
  | EmptyFallback string
  | BadTarget string dns_error
  | ZeroCheck string
  | EmptyTag string
  | EmptyPackage
  | DuplicatePackage string
  | ShortInterval
  | EmptyRegion
  | NoRemote
  | NoKeys
  | NoRegions
  | Unreadable string

definition check_target :: "string \<Rightarrow> dns_error + unit" where
  "check_target target =
     (if parse_socket_addr target \<noteq> None then Inr ()
      else case split_target target of Inl e \<Rightarrow> Inl e | Inr _ \<Rightarrow> Inr ())"

fun check_targets :: "string \<Rightarrow> string list \<Rightarrow> config_error + unit" where
  "check_targets user [] = Inr ()"
| "check_targets user (t # ts) = (case check_target t of
      Inl e \<Rightarrow> Inl (BadTarget user e)
    | Inr _ \<Rightarrow> check_targets user ts)"

type_synonym listens = "socket_addr set \<times> socket_addr set"

definition validate_rule :: "string \<Rightarrow> rule \<Rightarrow> listens \<Rightarrow> config_error + listens" where
  "validate_rule user r l =
     (if \<not> rl_enabled r then Inr l
      else if rl_target r = '''' then Inl (EmptyTarget user)
      else if list_ex (\<lambda>t. t = '''') (rl_fallback r) then Inl (EmptyFallback user)
      else case check_targets user (rl_target r # rl_fallback r) of
        Inl e \<Rightarrow> Inl e
      | Inr _ \<Rightarrow>
          if rl_check_secs r = 0 then Inl (ZeroCheck user)
          else if rl_tag r = Some '''' then Inl (EmptyTag user)
          else
            let (tcp, udp) = l in
            if proto_tcp (rl_protocol r) \<and> rl_listen r \<in> tcp then Inl (DuplicateTcp (rl_listen r))
            else
              let tcp' = (if proto_tcp (rl_protocol r) then insert (rl_listen r) tcp else tcp) in
              if proto_udp (rl_protocol r) \<and> rl_listen r \<in> udp then Inl (DuplicateUdp (rl_listen r))
              else Inr (tcp', if proto_udp (rl_protocol r) then insert (rl_listen r) udp else udp))"

fun validate_rules :: "string \<Rightarrow> rule list \<Rightarrow> listens \<Rightarrow> config_error + listens" where
  "validate_rules user [] l = Inr l"
| "validate_rules user (r # rs) l = (case validate_rule user r l of
      Inl e \<Rightarrow> Inl e | Inr l' \<Rightarrow> validate_rules user rs l')"

fun validate_users :: "user_config list \<Rightarrow> string set \<Rightarrow> listens \<Rightarrow> config_error + unit" where
  "validate_users [] names l = Inr ()"
| "validate_users (u # us) names l =
     (if uc_name u = '''' then Inl EmptyUserName
      else if uc_name u \<in> names then Inl (DuplicateUser (uc_name u))
      else case validate_rules (uc_name u) (uc_rules u) l of
        Inl e \<Rightarrow> Inl e
      | Inr l' \<Rightarrow> validate_users us (insert (uc_name u) names) l')"

fun validate_packages :: "string list \<Rightarrow> string set \<Rightarrow> config_error + unit" where
  "validate_packages [] seen = Inr ()"
| "validate_packages (p # ps) seen =
     (if trim p = '''' then Inl EmptyPackage
      else if p \<in> seen then Inl (DuplicatePackage p)
      else validate_packages ps (insert p seen))"

definition listed_packages :: "config \<Rightarrow> string list" where
  "listed_packages c =
     (case acc_remote (cf_accounting c) of None \<Rightarrow> [] | Some r \<Rightarrow> rc_packages r)
     @ concat (map uc_packages (cf_users c))"

definition validate_accounting :: "config \<Rightarrow> config_error + unit" where
  "validate_accounting c =
     (case validate_packages (listed_packages c) {} of
        Inl e \<Rightarrow> Inl e
      | Inr _ \<Rightarrow>
          (case (case acc_remote (cf_accounting c) of
                None \<Rightarrow> Inr ()
              | Some r \<Rightarrow>
                  if rc_interval_secs r < MIN_SYNC_SECS then Inl ShortInterval
                  else if list_ex (\<lambda>g. trim g = '''') (rc_regions r) then Inl EmptyRegion
                  else Inr ()) of
             Inl e \<Rightarrow> Inl e
           | Inr _ \<Rightarrow>
               if acc_mode (cf_accounting c) = Remote then
                 (case acc_remote (cf_accounting c) of
                    None \<Rightarrow> Inl NoRemote
                  | Some r \<Rightarrow>
                      if rc_access_key r = '''' \<or> rc_secret_key r = '''' then Inl NoKeys
                      else if rc_regions r = [] then Inl NoRegions
                      else Inr ())
               else Inr ()))"

definition validate :: "config \<Rightarrow> config_error + unit" where
  "validate c =
     (if cf_users c = [] \<and> config_panel c = None then Inl NoUsers
      else if cf_single_user c \<and> length (cf_users c) > 1 then Inl TooManyUsers
      else if (case cf_state_file c of None \<Rightarrow> False | Some s \<Rightarrow> sf_flush_secs s = 0) then Inl ZeroFlush
      else
        let tcp = (case cf_api c of None \<Rightarrow> {} | Some a \<Rightarrow> {ap_listen a}) in
        case (case config_panel c of
            None \<Rightarrow> Inr tcp
          | Some p \<Rightarrow>
              if (pn_username p = '''') \<noteq> (pn_password p = '''') then Inl HalfLogin
              else if pn_listen p \<in> tcp then Inl (DuplicateTcp (pn_listen p))
              else Inr (insert (pn_listen p) tcp)) of
          Inl e \<Rightarrow> Inl e
        | Inr tcp' \<Rightarrow>
            (case validate_users (cf_users c) {} (tcp', {}) of
               Inl e \<Rightarrow> Inl e
             | Inr _ \<Rightarrow> validate_accounting c))"

definition finalize :: "config \<Rightarrow> config_error + config" where
  "finalize c =
     (if cf_rules c \<noteq> [] \<and> cf_users c \<noteq> [] then Inl RulesAndUsers
      else
        let c' = (if cf_rules c = [] then c
                  else c\<lparr> cf_users := [\<lparr> uc_name = ''default'', uc_quota = None, uc_packages = [],
                            uc_rules = cf_rules c \<rparr>],
                          cf_rules := [], cf_single_user := True \<rparr>)
        in case validate c' of Inl e \<Rightarrow> Inl e | Inr _ \<Rightarrow> Inr c')"

definition check_config :: "config \<Rightarrow> config_error + config" where
  "check_config c = finalize c"

section \<open>Reading a file\<close>

text \<open>\<open>Path::extension\<close>: what follows the last dot of the last component, unless the dot leads it.\<close>

definition file_extension :: "string \<Rightarrow> string option" where
  "file_extension path =
     (let p = rev (dropWhile (\<lambda>c. c = CHR ''/'') (rev path));
          name = (case rsplit_once CHR ''/'' p of None \<Rightarrow> p | Some (_, n) \<Rightarrow> n) in
      if name = ''..'' then None
      else case rsplit_once CHR ''.'' name of
        None \<Rightarrow> None
      | Some (stem, ext) \<Rightarrow> if stem = '''' then None else Some ext)"

text \<open>The readers answer an error text or the deserialized configuration.\<close>

definition parse_config :: "(string \<Rightarrow> string + config) \<Rightarrow> (string \<Rightarrow> string + config) \<Rightarrow> string \<Rightarrow> string
    \<Rightarrow> config_error + config" where
  "parse_config yaml json5 raw path =
     (let ext = map ascii_upper (case file_extension path of None \<Rightarrow> '''' | Some e \<Rightarrow> e);
          read = (if ext = ''YAML'' \<or> ext = ''YML'' then yaml raw else json5 raw)
      in case read of Inl e \<Rightarrow> Inl (Unreadable e) | Inr c \<Rightarrow> finalize c)"

section \<open>Quotas\<close>

definition unset_users :: "config \<Rightarrow> nat" where
  "unset_users c = length (filter (\<lambda>u. uc_quota u = None) (cf_users c))"

definition quota_share :: "config \<Rightarrow> u64 option" where
  "quota_share c = (case cf_total_quota c of
      None \<Rightarrow> None
    | Some t \<Rightarrow> if unset_users c > 0 then Some (t div word_of_nat (unset_users c)) else None)"

definition user_quota_of :: "config \<Rightarrow> user_config \<Rightarrow> u64 option" where
  "user_quota_of c u = (case uc_quota u of Some q \<Rightarrow> Some q | None \<Rightarrow> quota_share c)"

definition resolve_quotas :: "config \<Rightarrow> string \<rightharpoonup> u64 option" where
  "resolve_quotas c = map_of (rev (map (\<lambda>u. (uc_name u, user_quota_of c u)) (cf_users c)))"

section \<open>What a valid configuration is\<close>

text \<open>The declarative reading: no pass over a growing set, only distinctness.\<close>

definition good_target :: "string \<Rightarrow> bool" where
  "good_target t \<longleftrightarrow> (\<exists>host port. split_target t = Inr (host, port))"

definition good_rule :: "rule \<Rightarrow> bool" where
  "good_rule r \<longleftrightarrow> list_all (\<lambda>t. t \<noteq> '''' \<and> good_target t) (rl_target r # rl_fallback r)
     \<and> rl_check_secs r \<noteq> 0 \<and> rl_tag r \<noteq> Some ''''"

definition enabled_rules :: "user_config list \<Rightarrow> rule list" where
  "enabled_rules us = filter rl_enabled (concat (map uc_rules us))"

definition tcp_listens :: "rule list \<Rightarrow> socket_addr list" where
  "tcp_listens rs = map rl_listen (filter (\<lambda>r. proto_tcp (rl_protocol r)) rs)"

definition udp_listens :: "rule list \<Rightarrow> socket_addr list" where
  "udp_listens rs = map rl_listen (filter (\<lambda>r. proto_udp (rl_protocol r)) rs)"

definition service_listens :: "config \<Rightarrow> socket_addr list" where
  "service_listens c = (case cf_api c of None \<Rightarrow> [] | Some a \<Rightarrow> [ap_listen a])
     @ (case config_panel c of None \<Rightarrow> [] | Some p \<Rightarrow> [pn_listen p])"

definition good_accounting :: "config \<Rightarrow> bool" where
  "good_accounting c \<longleftrightarrow> distinct (listed_packages c) \<and> list_all (\<lambda>p. trim p \<noteq> '''') (listed_packages c)
     \<and> (case acc_remote (cf_accounting c) of
          None \<Rightarrow> acc_mode (cf_accounting c) = Offline
        | Some r \<Rightarrow> 60 \<le> rc_interval_secs r \<and> list_all (\<lambda>g. trim g \<noteq> '''') (rc_regions r)
            \<and> (acc_mode (cf_accounting c) = Offline
               \<or> rc_access_key r \<noteq> '''' \<and> rc_secret_key r \<noteq> '''' \<and> rc_regions r \<noteq> []))"

definition good_config :: "config \<Rightarrow> bool" where
  "good_config c \<longleftrightarrow> (cf_users c \<noteq> [] \<or> config_panel c \<noteq> None)
     \<and> (cf_single_user c \<longrightarrow> length (cf_users c) \<le> 1)
     \<and> (case cf_state_file c of None \<Rightarrow> True | Some s \<Rightarrow> sf_flush_secs s \<noteq> 0)
     \<and> (case config_panel c of None \<Rightarrow> True | Some p \<Rightarrow> (pn_username p = '''') = (pn_password p = ''''))
     \<and> distinct (map uc_name (cf_users c)) \<and> '''' \<notin> uc_name ` set (cf_users c)
     \<and> list_all good_rule (enabled_rules (cf_users c))
     \<and> distinct (service_listens c @ tcp_listens (enabled_rules (cf_users c)))
     \<and> distinct (udp_listens (enabled_rules (cf_users c)))
     \<and> good_accounting c"

lemma check_target_iff: "check_target t = Inr () \<longleftrightarrow> good_target t"
proof (cases "parse_socket_addr t")
  case (Some a)
  with split_target_of_addr [OF Some] show ?thesis by (auto simp: check_target_def good_target_def)
qed (auto simp: check_target_def good_target_def split: sum.splits)

lemma check_targets_iff: "check_targets u ts = Inr () \<longleftrightarrow> list_all good_target ts"
proof (induction ts)
  case (Cons t ts)
  then show ?case using check_target_iff [of t] by (cases "check_target t") auto
qed simp

text \<open>One rule adds its listen address to the sets it was not in.\<close>

lemma validate_rule_iff:
  "validate_rule u r (tcp, udp) = Inr l \<longleftrightarrow>
     (if rl_enabled r then good_rule r
        \<and> (proto_tcp (rl_protocol r) \<longrightarrow> rl_listen r \<notin> tcp) \<and> (proto_udp (rl_protocol r) \<longrightarrow> rl_listen r \<notin> udp)
        \<and> l = ((if proto_tcp (rl_protocol r) then {rl_listen r} else {}) \<union> tcp,
               (if proto_udp (rl_protocol r) then {rl_listen r} else {}) \<union> udp)
      else l = (tcp, udp))"
proof (cases "check_targets u (rl_target r # rl_fallback r)")
  case (Inl e)
  then have "\<not> list_all good_target (rl_target r # rl_fallback r)"
    using check_targets_iff [of u "rl_target r # rl_fallback r"] by auto
  with Inl show ?thesis
    by (auto simp: validate_rule_def good_rule_def list_all_iff list_ex_iff split del: list.split)
next
  case (Inr x)
  then have "list_all good_target (rl_target r # rl_fallback r)"
    using check_targets_iff [of u "rl_target r # rl_fallback r"] by auto
  with Inr show ?thesis
    by (auto simp: validate_rule_def good_rule_def list_all_iff list_ex_iff Let_def simp del: check_targets.simps)
qed

text \<open>A list of rules, with fresh and distinct listen addresses.\<close>

definition fresh_rules :: "rule list \<Rightarrow> listens \<Rightarrow> bool" where
  "fresh_rules rs l \<longleftrightarrow> list_all good_rule rs
     \<and> distinct (tcp_listens rs) \<and> set (tcp_listens rs) \<inter> fst l = {}
     \<and> distinct (udp_listens rs) \<and> set (udp_listens rs) \<inter> snd l = {}"

definition add_listens :: "rule list \<Rightarrow> listens \<Rightarrow> listens" where
  "add_listens rs l = (set (tcp_listens rs) \<union> fst l, set (udp_listens rs) \<union> snd l)"

lemma listens_simps [simp]:
  "tcp_listens [] = []" "udp_listens [] = []"
  "tcp_listens (r # rs) = (if proto_tcp (rl_protocol r) then [rl_listen r] else []) @ tcp_listens rs"
  "udp_listens (r # rs) = (if proto_udp (rl_protocol r) then [rl_listen r] else []) @ udp_listens rs"
  "tcp_listens (rs @ rs') = tcp_listens rs @ tcp_listens rs'"
  "udp_listens (rs @ rs') = udp_listens rs @ udp_listens rs'"
  by (simp_all add: tcp_listens_def udp_listens_def)

lemma fresh_rules_append:
  "fresh_rules (rs @ rs') l \<longleftrightarrow> fresh_rules rs l \<and> fresh_rules rs' (add_listens rs l)"
  by (auto simp: fresh_rules_def add_listens_def)

lemma add_listens_append: "add_listens (rs @ rs') l = add_listens rs' (add_listens rs l)"
  by (auto simp: add_listens_def)

lemma add_listens_Nil [simp]: "add_listens [] l = l"
  by (simp add: add_listens_def)

lemma fresh_rules_Nil [simp]: "fresh_rules [] l"
  by (simp add: fresh_rules_def)

lemma validate_rule_fresh:
  "validate_rule u r l = Inr l' \<longleftrightarrow>
     fresh_rules (filter rl_enabled [r]) l \<and> l' = add_listens (filter rl_enabled [r]) l"
  using validate_rule_iff [of u r "fst l" "snd l" l']
  by (auto simp: fresh_rules_def add_listens_def)

lemma validate_rules_fresh:
  "validate_rules u rs l = Inr l' \<longleftrightarrow>
     fresh_rules (filter rl_enabled rs) l \<and> l' = add_listens (filter rl_enabled rs) l"
proof (induction rs arbitrary: l)
  case (Cons r rs)
  have split: "filter rl_enabled (r # rs) = filter rl_enabled [r] @ filter rl_enabled rs" by simp
  show ?case
  proof (cases "validate_rule u r l")
    case (Inl e)
    with validate_rule_fresh [of u r l "add_listens (filter rl_enabled [r]) l"]
    have "\<not> fresh_rules (filter rl_enabled [r]) l" by simp
    with Inl show ?thesis unfolding split fresh_rules_append by simp
  next
    case (Inr l1)
    with validate_rule_fresh [of u r l l1] have "fresh_rules (filter rl_enabled [r]) l"
      "l1 = add_listens (filter rl_enabled [r]) l" by simp_all
    with Inr Cons show ?thesis unfolding split fresh_rules_append add_listens_append by simp
  qed
qed auto

lemma validate_users_iff:
  "validate_users us names l = Inr () \<longleftrightarrow> distinct (map uc_name us) \<and> '''' \<notin> uc_name ` set us
     \<and> uc_name ` set us \<inter> names = {} \<and> fresh_rules (enabled_rules us) l"
proof (induction us arbitrary: names l)
  case (Cons u us)
  have split: "enabled_rules (u # us) = filter rl_enabled (uc_rules u) @ enabled_rules us"
    by (simp add: enabled_rules_def)
  show ?case
  proof (cases "validate_rules (uc_name u) (uc_rules u) l")
    case (Inl e)
    with validate_rules_fresh [of "uc_name u" "uc_rules u" l "add_listens (filter rl_enabled (uc_rules u)) l"]
    have "\<not> fresh_rules (filter rl_enabled (uc_rules u)) l" by simp
    with Inl show ?thesis unfolding split fresh_rules_append by auto
  next
    case (Inr l1)
    with validate_rules_fresh [of "uc_name u" "uc_rules u" l l1]
    have "fresh_rules (filter rl_enabled (uc_rules u)) l" "l1 = add_listens (filter rl_enabled (uc_rules u)) l"
      by simp_all
    with Inr Cons show ?thesis unfolding split fresh_rules_append by auto
  qed
qed (simp add: enabled_rules_def)

lemma validate_packages_iff:
  "validate_packages ps seen = Inr () \<longleftrightarrow>
     distinct ps \<and> list_all (\<lambda>p. trim p \<noteq> '''') ps \<and> set ps \<inter> seen = {}"
  by (induction ps arbitrary: seen) auto

lemma validate_accounting_iff: "validate_accounting c = Inr () \<longleftrightarrow> good_accounting c"
proof (cases "validate_packages (listed_packages c) {}")
  case (Inl e)
  with validate_packages_iff [of "listed_packages c" "{}"] show ?thesis
    by (auto simp: validate_accounting_def good_accounting_def)
next
  case (Inr x)
  with validate_packages_iff [of "listed_packages c" "{}"] show ?thesis
    by (cases "acc_mode (cf_accounting c)"; cases "acc_remote (cf_accounting c)")
      (auto simp: validate_accounting_def good_accounting_def MIN_SYNC_SECS_def list_all_iff list_ex_iff)
qed

lemma validate_services:
  fixes c :: config
  defines "tcp \<equiv> (case cf_api c of None \<Rightarrow> {} | Some a \<Rightarrow> {ap_listen a})"
  defines "step \<equiv> (case config_panel c of
            None \<Rightarrow> Inr tcp
          | Some p \<Rightarrow>
              if (pn_username p = '''') \<noteq> (pn_password p = '''') then Inl HalfLogin
              else if pn_listen p \<in> tcp then Inl (DuplicateTcp (pn_listen p))
              else Inr (insert (pn_listen p) tcp))"
  shows "step = (if (case config_panel c of None \<Rightarrow> True | Some p \<Rightarrow> (pn_username p = '''') = (pn_password p = ''''))
        \<and> distinct (service_listens c)
      then Inr (set (service_listens c)) else Inl (projl step))"
  by (auto simp: step_def tcp_def service_listens_def split: option.splits)

lemma validate_users_services:
  "validate_users us {} (set ls, {}) = Inr () \<longleftrightarrow>
     distinct (map uc_name us) \<and> '''' \<notin> uc_name ` set us \<and> list_all good_rule (enabled_rules us)
     \<and> distinct (tcp_listens (enabled_rules us)) \<and> set ls \<inter> set (tcp_listens (enabled_rules us)) = {}
     \<and> distinct (udp_listens (enabled_rules us))"
  by (auto simp: validate_users_iff fresh_rules_def)

lemma sum_unit_cases: "(case r of Inl e \<Rightarrow> Inl e | Inr _ \<Rightarrow> x) = Inr () \<longleftrightarrow> r = Inr () \<and> x = Inr ()"
  for r :: "'e + unit"
  by (cases r) auto

lemma validate_iff: "validate c = Inr () \<longleftrightarrow> good_config c"
proof -
  let ?login = "case config_panel c of None \<Rightarrow> True | Some p \<Rightarrow> (pn_username p = '''') = (pn_password p = '''')"
  let ?flush = "case cf_state_file c of None \<Rightarrow> False | Some s \<Rightarrow> sf_flush_secs s = 0"
  have flush: "(case cf_state_file c of None \<Rightarrow> True | Some s \<Rightarrow> sf_flush_secs s \<noteq> 0) \<longleftrightarrow> \<not> ?flush"
    by (simp split: option.splits)
  show ?thesis
    unfolding validate_def Let_def good_config_def distinct_append flush
    by (subst validate_services) (auto simp: sum_unit_cases validate_users_services validate_accounting_iff)
qed

section \<open>Properties\<close>

text \<open>C38: validation accepts exactly the good configurations.  The one pass with its growing sets
  of names and addresses is the declarative check: user names and package ids are distinct and not
  empty, every enabled rule has well-formed targets, a positive check interval and no empty tag,
  no two services or enabled rules share a TCP or a UDP listen address, the panel login is whole,
  and remote accounting has its keys, regions and interval.\<close>

theorem validate_accepts_exactly_good:
  "validate c = Inr () \<longleftrightarrow> good_config c"
  by (rule validate_iff)

text \<open>A configuration that was accepted stays accepted: finalizing keeps every rule, folds the
  shorthand into one user, leaves no top-level rule, and changes nothing when it is run again.\<close>

lemma finalize_is_stable:
  assumes "finalize c = Inr c'"
  shows "finalize c' = Inr c' \<and> good_config c' \<and> cf_rules c' = []
    \<and> concat (map uc_rules (cf_users c')) = cf_rules c @ concat (map uc_rules (cf_users c))
    \<and> (cf_rules c \<noteq> [] \<longrightarrow> cf_single_user c' \<and> map uc_name (cf_users c') = [''default''])"
proof -
  from assms have valid: "validate c' = Inr ()" and c': "c' = (if cf_rules c = [] then c
      else c\<lparr> cf_users := [\<lparr> uc_name = ''default'', uc_quota = None, uc_packages = [],
               uc_rules = cf_rules c \<rparr>], cf_rules := [], cf_single_user := True \<rparr>)"
    and only: "cf_rules c = [] \<or> cf_users c = []"
    by (auto simp: finalize_def Let_def split: if_splits sum.splits)
  from c' have none: "cf_rules c' = []" by simp
  with valid have "finalize c' = Inr c'" by (simp add: finalize_def)
  moreover have "concat (map uc_rules (cf_users c')) = cf_rules c @ concat (map uc_rules (cf_users c))"
    using only by (auto simp: c')
  moreover have "cf_rules c \<noteq> [] \<longrightarrow> cf_single_user c' \<and> map uc_name (cf_users c') = [''default'']"
    by (simp add: c')
  ultimately show ?thesis using valid none validate_iff by blast
qed

lemma map_of_rev_distinct:
  "distinct (map fst xs) \<Longrightarrow> (k, v) \<in> set xs \<Longrightarrow> map_of (rev xs) k = Some v"
  by (rule map_of_is_SomeI) (simp_all flip: rev_map)

text \<open>C39: an explicit quota is the user's quota; the users without one share the total quota
  equally, rounded down, so that together they never get more than the total and lose less than
  one byte each; without a total quota they are unlimited.\<close>

theorem quotas_split_the_total:
  assumes "distinct (map uc_name (cf_users c))" "u \<in> set (cf_users c)" "length (cf_users c) < 2 ^ 64"
  shows "(\<forall>q. uc_quota u = Some q \<longrightarrow> resolve_quotas c (uc_name u) = Some (Some q))
    \<and> (uc_quota u = None \<and> cf_total_quota c = None \<longrightarrow> resolve_quotas c (uc_name u) = Some None)
    \<and> (\<forall>t. uc_quota u = None \<and> cf_total_quota c = Some t \<longrightarrow>
         (\<exists>s. resolve_quotas c (uc_name u) = Some (Some s)
            \<and> unset_users c * unat s \<le> unat t \<and> unat t < unset_users c * unat s + unset_users c))"
proof -
  have get: "resolve_quotas c (uc_name u) = Some (user_quota_of c u)"
    unfolding resolve_quotas_def
    by (rule map_of_rev_distinct) (use assms(1,2) in \<open>auto simp: comp_def\<close>)
  have pos: "0 < unset_users c" if "uc_quota u = None"
    using that assms(2) by (auto simp: unset_users_def filter_empty_conv)
  have "unset_users c \<le> length (cf_users c)" by (simp add: unset_users_def)
  with assms(3) have n: "unat (word_of_nat (unset_users c) :: u64) = unset_users c"
    by (intro unat_of_nat_u64) simp
  have share: "unset_users c * (unat t div unset_users c) \<le> unat t
      \<and> unat t < unset_users c * (unat t div unset_users c) + unset_users c" if "0 < unset_users c" for t :: u64
    using mod_less_divisor [OF that, of "unat t"] mult_div_mod_eq [of "unset_users c" "unat t"] by linarith
  show ?thesis
    using pos share n by (auto simp: get user_quota_of_def quota_share_def unat_div)
qed

section \<open>A sample configuration\<close>

definition sample_listen :: "nat \<Rightarrow> socket_addr" where
  "sample_listen port = SocketAddr (V4 [0, 0, 0, 0]) 0 port"

definition sample_rule :: "nat \<Rightarrow> string \<Rightarrow> string list \<Rightarrow> rule" where
  "sample_rule port target fallback = \<lparr> rl_listen = sample_listen port, rl_target = target,
     rl_fallback = fallback, rl_check_secs = 10, rl_protocol = Both, rl_enabled = True, rl_tag = None \<rparr>"

definition sample_config :: config where
  "sample_config = \<lparr> cf_state_file = None, cf_api = None, cf_panel = None, cf_total_quota = Some 1000,
     cf_accounting = accounting_default,
     cf_rules = [sample_rule 8080 ''10.0.0.1:80'' [''example.com:81''], sample_rule 8081 ''[::1]:53'' []],
     cf_users = [], cf_single_user = False \<rparr>"

definition sample_users_config :: config where
  "sample_users_config = sample_config\<lparr> cf_rules := [], cf_users :=
     [\<lparr> uc_name = ''ann'', uc_quota = Some 5, uc_packages = [], uc_rules = [] \<rparr>,
      \<lparr> uc_name = ''bob'', uc_quota = None, uc_packages = [], uc_rules = [] \<rparr>,
      \<lparr> uc_name = ''eve'', uc_quota = None, uc_packages = [], uc_rules = [] \<rparr>,
      \<lparr> uc_name = ''joe'', uc_quota = None, uc_packages = [], uc_rules = [] \<rparr>] \<rparr>"

theorem quotas_split_the_total_witness:
  "\<exists>s. resolve_quotas sample_users_config ''bob'' = Some (Some s)
     \<and> unset_users sample_users_config * unat s \<le> 1000
     \<and> 1000 < unset_users sample_users_config * unat s + unset_users sample_users_config"
proof -
  let ?u = "\<lparr> uc_name = ''bob'', uc_quota = None, uc_packages = [], uc_rules = [] \<rparr>"
  have "distinct (map uc_name (cf_users sample_users_config))" "?u \<in> set (cf_users sample_users_config)"
    "length (cf_users sample_users_config) < 2 ^ 64" "cf_total_quota sample_users_config = Some 1000"
    by (simp_all add: sample_users_config_def sample_config_def)
  with quotas_split_the_total [of sample_users_config ?u] show ?thesis by simp
qed

end
