(* ===== verification/Quota.thy ===== *)
theory Quota
  imports Config "HOL-Library.Multiset"
begin

text \<open>
  The per-user traffic quota (\<open>quota.rs\<close>).  The atomics of \<open>UserQuota\<close> are the fields of a
  record and every operation is one state transformer; the hour is an argument, as in the
  \<open>_at\<close> functions of the source, and the clock that computes it is modelled on its own.  The
  watch channel is its current value.  Plain additions of counters wrap around, as in the
  release build.
\<close>

datatype direction = Upload | Download

section \<open>The clock\<close>

definition local_now :: "i64 \<Rightarrow> i64 \<Rightarrow> i64" where
  "local_now unix tz_offset = unix + tz_offset"

definition current_hour_id :: "i64 \<Rightarrow> i64" where
  "current_hour_id now = word_of_int (sint now div 3600)"

definition secs_until_next_hour :: "i64 \<Rightarrow> u64" where
  "secs_until_next_hour now = word_of_int (max 1 (3600 - sint now mod 3600))"

section \<open>State\<close>

record saved_usage =
  sv_upload :: u64
  sv_download :: u64
  sv_settled :: u64
  sv_hour_upload :: u64
  sv_hour_download :: u64
  sv_hour_id :: i64

definition saved_default :: saved_usage where
  "saved_default = \<lparr> sv_upload = 0, sv_download = 0, sv_settled = 0, sv_hour_upload = 0,
     sv_hour_download = 0, sv_hour_id = 0 \<rparr>"

definition NO_LIMIT :: u64 where
  "NO_LIMIT = u64_max"

record user_quota =
  q_name :: string
  q_limit :: u64
  q_total_upload :: u64
  q_total_download :: u64
  q_settled :: u64
  q_hour_upload :: u64
  q_hour_download :: u64
  q_bucket_hour :: i64
  q_metering :: "8 word"
  q_exhausted_flag :: bool
  q_exhausted :: bool

definition metering_code :: "metering \<Rightarrow> 8 word" where
  "metering_code m = (case m of MeterMax \<Rightarrow> 0 | MeterSum \<Rightarrow> 1 | MeterDownload \<Rightarrow> 2)"

definition metering_from :: "8 word \<Rightarrow> metering" where
  "metering_from code = (if code = 1 then MeterSum else if code = 2 then MeterDownload else MeterMax)"

section \<open>Operations\<close>

definition new_metered_at :: "string \<Rightarrow> u64 option \<Rightarrow> saved_usage \<Rightarrow> metering \<Rightarrow> i64 \<Rightarrow> user_quota" where
  "new_metered_at nm limit saved m now_hour =
     (let (settled, hour_up, hour_down) =
            (if sv_hour_id saved = now_hour
             then (sv_settled saved, sv_hour_upload saved, sv_hour_download saved)
             else (sv_settled saved + bill m (sv_hour_upload saved) (sv_hour_download saved), 0, 0));
          used = settled + bill m hour_up hour_down;
          exhausted_now = (case limit of None \<Rightarrow> False | Some l \<Rightarrow> used \<ge> l)
      in \<lparr> q_name = nm, q_limit = (case limit of None \<Rightarrow> NO_LIMIT | Some l \<Rightarrow> l),
           q_total_upload = sv_upload saved, q_total_download = sv_download saved,
           q_settled = settled, q_hour_upload = hour_up, q_hour_download = hour_down,
           q_bucket_hour = now_hour, q_metering = metering_code m,
           q_exhausted_flag = exhausted_now, q_exhausted = exhausted_now \<rparr>)"

definition limit_of :: "user_quota \<Rightarrow> u64 option" where
  "limit_of q = (if q_limit q = NO_LIMIT then None else Some (q_limit q))"

definition metering_of :: "user_quota \<Rightarrow> metering" where
  "metering_of q = metering_from (q_metering q)"

definition hour_used :: "user_quota \<Rightarrow> u64" where
  "hour_used q = bill (metering_of q) (q_hour_upload q) (q_hour_download q)"

definition used :: "user_quota \<Rightarrow> u64" where
  "used q = q_settled q + hour_used q"

definition remaining :: "user_quota \<Rightarrow> u64 option" where
  "remaining q = map_option (\<lambda>l. saturating_sub l (used q)) (limit_of q)"

definition is_exhausted :: "user_quota \<Rightarrow> bool" where
  "is_exhausted q = q_exhausted_flag q"

definition settle_to :: "i64 \<Rightarrow> user_quota \<Rightarrow> user_quota" where
  "settle_to now_hour q =
     (if q_bucket_hour q = now_hour then q
      else q\<lparr> q_hour_upload := 0, q_hour_download := 0,
              q_settled := q_settled q + bill (metering_of q) (q_hour_upload q) (q_hour_download q),
              q_bucket_hour := now_hour \<rparr>)"

definition roll_over_at :: "i64 \<Rightarrow> user_quota \<Rightarrow> user_quota" where
  "roll_over_at now_hour q = (if q_bucket_hour q \<noteq> now_hour then settle_to now_hour q else q)"

definition record_bytes :: "u64 \<Rightarrow> direction \<Rightarrow> user_quota \<Rightarrow> user_quota" where
  "record_bytes n d q = (case d of
      Upload \<Rightarrow> q\<lparr> q_total_upload := q_total_upload q + n, q_hour_upload := q_hour_upload q + n \<rparr>
    | Download \<Rightarrow> q\<lparr> q_total_download := q_total_download q + n, q_hour_download := q_hour_download q + n \<rparr>)"

definition try_consume_at :: "u64 \<Rightarrow> direction \<Rightarrow> i64 \<Rightarrow> user_quota \<Rightarrow> user_quota \<times> bool" where
  "try_consume_at n d now_hour q =
     (if is_exhausted q then (q, False)
      else
        let q1 = record_bytes n d (roll_over_at now_hour q) in
        if (case limit_of q1 of None \<Rightarrow> False | Some l \<Rightarrow> used q1 \<ge> l)
        then (q1\<lparr> q_exhausted_flag := True, q_exhausted := True \<rparr>, False)
        else (q1, True))"

text \<open>\<open>set_limit\<close> sends only a change, so the channel has the new value either way.\<close>

definition set_limit :: "u64 option \<Rightarrow> user_quota \<Rightarrow> user_quota" where
  "set_limit limit q =
     (let q1 = q\<lparr> q_limit := (case limit of None \<Rightarrow> NO_LIMIT | Some l \<Rightarrow> l) \<rparr>;
          exhausted = (case limit of None \<Rightarrow> False | Some l \<Rightarrow> used q1 \<ge> l)
      in q1\<lparr> q_exhausted_flag := exhausted, q_exhausted := exhausted \<rparr>)"

definition set_metering :: "metering \<Rightarrow> user_quota \<Rightarrow> user_quota" where
  "set_metering m q =
     (let q1 = q\<lparr> q_metering := metering_code m \<rparr> in
      case limit_of q1 of None \<Rightarrow> q1 | Some l \<Rightarrow> set_limit (Some l) q1)"

definition snapshot :: "user_quota \<Rightarrow> saved_usage" where
  "snapshot q = \<lparr> sv_upload = q_total_upload q, sv_download = q_total_download q,
     sv_settled = q_settled q, sv_hour_upload = q_hour_upload q,
     sv_hour_download = q_hour_download q, sv_hour_id = q_bucket_hour q \<rparr>"

section \<open>Basic laws\<close>

lemma metering_roundtrip [simp]: "metering_from (metering_code m) = m"
  by (cases m) (simp_all add: metering_from_def metering_code_def)

lemma bill_0 [simp]: "bill m 0 0 = 0"
  by (simp add: bill_def saturating_add_def split: metering.splits)

lemma limit_of_None: "limit_of q = None \<longleftrightarrow> q_limit q = NO_LIMIT"
  by (simp add: limit_of_def)

lemma new_fields [simp]:
  "q_limit (new_metered_at nm l saved m h) = (case l of None \<Rightarrow> NO_LIMIT | Some x \<Rightarrow> x)"
  "q_total_upload (new_metered_at nm l saved m h) = sv_upload saved"
  "q_total_download (new_metered_at nm l saved m h) = sv_download saved"
  "q_settled (new_metered_at nm l saved m h) = (if sv_hour_id saved = h then sv_settled saved
     else sv_settled saved + bill m (sv_hour_upload saved) (sv_hour_download saved))"
  "q_hour_upload (new_metered_at nm l saved m h) = (if sv_hour_id saved = h then sv_hour_upload saved else 0)"
  "q_hour_download (new_metered_at nm l saved m h) = (if sv_hour_id saved = h then sv_hour_download saved else 0)"
  "q_bucket_hour (new_metered_at nm l saved m h) = h"
  "q_metering (new_metered_at nm l saved m h) = metering_code m" "q_name (new_metered_at nm l saved m h) = nm"
  by (simp_all add: new_metered_at_def Let_def)

lemma new_used [simp]:
  "used (new_metered_at nm l saved m h) = sv_settled saved + bill m (sv_hour_upload saved) (sv_hour_download saved)"
  by (simp add: used_def hour_used_def metering_of_def)

lemma roll_over_used [simp]: "used (roll_over_at h q) = used q"
  by (simp add: used_def hour_used_def roll_over_at_def settle_to_def metering_of_def)

lemma roll_over_frame [simp]:
  "q_limit (roll_over_at h q) = q_limit q" "q_metering (roll_over_at h q) = q_metering q"
  "q_total_upload (roll_over_at h q) = q_total_upload q"
  "q_total_download (roll_over_at h q) = q_total_download q"
  "q_exhausted_flag (roll_over_at h q) = q_exhausted_flag q" "q_exhausted (roll_over_at h q) = q_exhausted q"
  "q_name (roll_over_at h q) = q_name q" "q_bucket_hour (roll_over_at h q) = h"
  by (simp_all add: roll_over_at_def settle_to_def)

lemma record_frame [simp]:
  "q_limit (record_bytes n d q) = q_limit q" "q_metering (record_bytes n d q) = q_metering q"
  "q_settled (record_bytes n d q) = q_settled q" "q_bucket_hour (record_bytes n d q) = q_bucket_hour q"
  "q_exhausted_flag (record_bytes n d q) = q_exhausted_flag q"
  "q_exhausted (record_bytes n d q) = q_exhausted q" "q_name (record_bytes n d q) = q_name q"
  by (simp_all add: record_bytes_def split: direction.splits)

lemma unat_add_le: "unat (a + b :: u64) \<le> unat a + unat b"
  by (simp add: unat_word_ariths)

lemma unat_max: "unat (max a b) = max (unat a) (unat (b :: u64))"
  by (simp add: max_def word_le_nat_alt)

text \<open>Recording \<open>n\<close> bytes raises the bill of the hour by at most \<open>n\<close>.\<close>

lemma hour_used_record: "unat (hour_used (record_bytes n d q)) \<le> unat (hour_used q) + unat n"
  using unat_add_le [of "q_hour_upload q" n] unat_add_le [of "q_hour_download q" n]
  by (cases d; cases "metering_of q")
    (auto simp: hour_used_def record_bytes_def metering_of_def bill_def unat_max unat_saturating_add)

section \<open>The life of a quota\<close>

text \<open>Everything that is done to a quota after it is made; limits come from users and books.\<close>

inductive quota_step :: "user_quota \<Rightarrow> user_quota \<Rightarrow> bool" where
  consume: "quota_step q (fst (try_consume_at n d h q))"
| roll: "quota_step q (roll_over_at h q)"
| limit: "l \<noteq> Some NO_LIMIT \<Longrightarrow> quota_step q (set_limit l q)"
| meter: "quota_step q (set_metering m q)"

inductive quota_run :: "user_quota \<Rightarrow> user_quota \<Rightarrow> bool" where
  still: "quota_run q q"
| step: "quota_run q q1 \<Longrightarrow> quota_step q1 q2 \<Longrightarrow> quota_run q q2"

inductive_cases quota_stepE: "quota_step q q'"

definition over_limit :: "user_quota \<Rightarrow> bool" where
  "over_limit q \<longleftrightarrow> (case limit_of q of None \<Rightarrow> False | Some l \<Rightarrow> used q \<ge> l)"

definition quota_inv :: "user_quota \<Rightarrow> bool" where
  "quota_inv q \<longleftrightarrow> q_exhausted_flag q = over_limit q \<and> q_exhausted q = over_limit q"

lemma used_flags [simp]:
  "used (q\<lparr> q_exhausted_flag := f \<rparr>) = used q" "used (q\<lparr> q_exhausted := f \<rparr>) = used q"
  "used (q\<lparr> q_limit := l \<rparr>) = used q"
  "limit_of (q\<lparr> q_exhausted_flag := f \<rparr>) = limit_of q" "limit_of (q\<lparr> q_exhausted := f \<rparr>) = limit_of q"
  by (simp_all add: used_def hour_used_def metering_of_def limit_of_def)

lemma over_limit_flags [simp]:
  "over_limit (q\<lparr> q_exhausted_flag := f \<rparr>) = over_limit q" "over_limit (q\<lparr> q_exhausted := f \<rparr>) = over_limit q"
  by (simp_all add: over_limit_def split: option.splits)

lemma over_limit_roll [simp]: "over_limit (roll_over_at h q) = over_limit q"
  by (simp add: over_limit_def limit_of_def)

lemma try_consume_cases:
  obtains (spent) "is_exhausted q" "try_consume_at n d h q = (q, False)"
  | (refused) "\<not> is_exhausted q" "over_limit (record_bytes n d (roll_over_at h q))"
      "try_consume_at n d h q = ((record_bytes n d (roll_over_at h q))
         \<lparr> q_exhausted_flag := True, q_exhausted := True \<rparr>, False)"
  | (granted) "\<not> is_exhausted q" "\<not> over_limit (record_bytes n d (roll_over_at h q))"
      "try_consume_at n d h q = (record_bytes n d (roll_over_at h q), True)"
  unfolding try_consume_at_def over_limit_def Let_def by (metis (no_types, lifting))

definition total_of :: "direction \<Rightarrow> user_quota \<Rightarrow> u64" where
  "total_of d q = (case d of Upload \<Rightarrow> q_total_upload q | Download \<Rightarrow> q_total_download q)"

lemma try_consume_total:
  assumes "try_consume_at n d h q = (q', ok)"
  shows "is_exhausted q \<longrightarrow> q' = q \<and> \<not> ok"
    "\<not> is_exhausted q \<longrightarrow> total_of d q' = total_of d q + n"
  using assms
  by (cases rule: try_consume_cases [of q n d h], auto simp: total_of_def record_bytes_def split: direction.splits)+

lemma try_consume_other:
  assumes "try_consume_at n d h q = (q', ok)" "d' \<noteq> d"
  shows "total_of d' q' = total_of d' q"
  using assms
  by (cases rule: try_consume_cases [of q n d h])
    (auto simp: total_of_def record_bytes_def split: direction.splits)

text \<open>What a task did to the account it shares: it counted, in one direction, at least \<open>k\<close> and at most \<open>b\<close> bytes.\<close>

definition consumed :: "nat \<Rightarrow> nat \<Rightarrow> user_quota \<Rightarrow> user_quota \<Rightarrow> bool" where
  "consumed b k q q' \<longleftrightarrow> quota_run q q' \<and> (\<exists>dir n. k \<le> n \<and> n \<le> b \<and> total_of dir q' = total_of dir q + word_of_nat n
     \<and> (\<forall>d. d \<noteq> dir \<longrightarrow> total_of d q' = total_of d q))"

lemma consumed_refl [simp]: "consumed b 0 q q"
  unfolding consumed_def by (intro conjI exI [of _ Upload] exI [of _ 0]) (simp_all add: quota_run.still)

lemma consumed_mono: "consumed b k q q' \<Longrightarrow> b \<le> b' \<Longrightarrow> k' \<le> k \<Longrightarrow> consumed b' k' q q'"
  unfolding consumed_def by (meson order_trans)

lemma try_consume_consumed:
  assumes "try_consume_at (word_of_nat n) dir h q = (q', ok)"
  shows "consumed n (if ok then n else 0) q q'"
proof (cases "is_exhausted q")
  case True
  then have "q' = q \<and> \<not> ok" using try_consume_total [OF assms] by simp
  then show ?thesis by simp
next
  case False
  then have "total_of dir q' = total_of dir q + word_of_nat n" using try_consume_total [OF assms] by simp
  moreover have "quota_run q q'"
    using quota_run.step [OF quota_run.still quota_step.consume, of q "word_of_nat n" dir h] assms by simp
  ultimately show ?thesis unfolding consumed_def
    by (intro conjI exI [of _ dir] exI [of _ n]) (simp_all add: try_consume_other [OF assms])
qed

text \<open>Without wrap-around it is a sum of numbers.\<close>

definition counted :: "user_quota \<Rightarrow> nat" where
  "counted q = unat (q_total_upload q) + unat (q_total_download q)"

definition room_for :: "nat \<Rightarrow> user_quota \<Rightarrow> bool" where
  "room_for b q \<longleftrightarrow> (\<forall>d. unat (total_of d q) + b < 2 ^ 64)"

lemma room_for_mono: "room_for b q \<Longrightarrow> b' \<le> b \<Longrightarrow> room_for b' q"
  unfolding room_for_def by (meson add_le_mono le_less_trans order_refl)

lemma consumed_counted:
  assumes "consumed b k q q'" "room_for (b + b') q"
  shows "counted q + k \<le> counted q'" "counted q' \<le> counted q + b" "room_for b' q'"
proof -
  obtain dir n where n: "k \<le> n" "n \<le> b" "total_of dir q' = total_of dir q + word_of_nat n"
    "\<forall>d. d \<noteq> dir \<longrightarrow> total_of d q' = total_of d q"
    using assms(1) by (auto simp: consumed_def)
  have small: "unat (total_of dir q) + n < 18446744073709551616"
    using assms(2) n(2) by (auto simp: room_for_def dest!: spec [of _ dir])
  then have "unat (total_of dir q + word_of_nat n) = unat (total_of dir q) + n"
    by (simp add: unat_add_no_wrap unat_of_nat_u64)
  with n(3) have now: "unat (total_of dir q') = unat (total_of dir q) + n" by simp
  have split: "counted x = unat (total_of dir x) + unat (total_of (if dir = Upload then Download else Upload) x)" for x
    by (cases dir) (simp_all add: counted_def total_of_def)
  have other: "total_of (if dir = Upload then Download else Upload) q' = total_of (if dir = Upload then Download else Upload) q"
    using n(4) by (cases dir) simp_all
  show "counted q + k \<le> counted q'" "counted q' \<le> counted q + b"
    using n(1,2) now other by (simp_all add: split)
  show "room_for b' q'"
    unfolding room_for_def
  proof
    fix d
    have "unat (total_of d q') \<le> unat (total_of d q) + b"
      using now n(2,4) by (cases "d = dir") simp_all
    moreover have "unat (total_of d q) + (b + b') < 2 ^ 64" using assms(2) by (simp add: room_for_def)
    ultimately show "unat (total_of d q') + b' < 2 ^ 64" by linarith
  qed
qed

lemma quota_inv_new:
  "l \<noteq> Some NO_LIMIT \<Longrightarrow> quota_inv (new_metered_at nm l saved m h)"
  by (auto simp: quota_inv_def new_metered_at_def over_limit_def limit_of_def used_def hour_used_def
      metering_of_def Let_def split: option.splits)

lemma quota_inv_consume: "quota_inv q \<Longrightarrow> quota_inv (fst (try_consume_at n d h q))"
  by (cases rule: try_consume_cases [of q n d h]) (auto simp: quota_inv_def is_exhausted_def)

lemma quota_inv_set_limit: "l \<noteq> Some NO_LIMIT \<Longrightarrow> quota_inv (set_limit l q)"
  by (auto simp: quota_inv_def set_limit_def over_limit_def limit_of_def Let_def split: option.splits)

lemma quota_inv_set_metering: "quota_inv q \<Longrightarrow> quota_inv (set_metering m q)"
  using quota_inv_set_limit [of "limit_of (q\<lparr> q_metering := metering_code m \<rparr>)" "q\<lparr> q_metering := metering_code m \<rparr>"]
  by (auto simp: set_metering_def quota_inv_def over_limit_def limit_of_def Let_def split: option.splits if_splits)

lemma quota_inv_step:
  assumes "quota_step q q'" "quota_inv q"
  shows "quota_inv q'"
  using assms
proof (cases rule: quota_step.cases)
  case roll
  with assms(2) show ?thesis by (simp add: quota_inv_def)
qed (use assms(2) in \<open>simp_all add: quota_inv_consume quota_inv_set_limit quota_inv_set_metering\<close>)

lemma quota_inv_run: "quota_run q q' \<Longrightarrow> quota_inv q \<Longrightarrow> quota_inv q'"
  by (induction rule: quota_run.induct) (auto intro: quota_inv_step)

text \<open>C32: through any history of traffic, rollovers, new limits and new metering, the exhausted
  flag and the channel the connections watch say exactly whether the billed usage has reached
  the limit, and a quota that is exhausted refuses traffic and counts none of it.\<close>

theorem exhausted_means_limit_reached:
  assumes "quota_run (new_metered_at nm l saved m h) q" "l \<noteq> Some NO_LIMIT"
  shows "(is_exhausted q \<longleftrightarrow> (\<exists>lim. limit_of q = Some lim \<and> lim \<le> used q))
    \<and> q_exhausted q = is_exhausted q
    \<and> (is_exhausted q \<longrightarrow> try_consume_at n d h' q = (q, False))"
  using quota_inv_run [OF assms(1) quota_inv_new [OF assms(2)]]
  by (auto simp: quota_inv_def over_limit_def is_exhausted_def try_consume_at_def split: option.splits)

lemma roll_over_no_wrap:
  assumes "unat (q_settled q) + unat (hour_used q) < 2 ^ 64"
  shows "unat (q_settled (roll_over_at h q)) + unat (hour_used (roll_over_at h q))
     = unat (q_settled q) + unat (hour_used q)"
  using assms
  by (auto simp: roll_over_at_def settle_to_def hour_used_def metering_of_def unat_add_no_wrap)

lemma record_used_bound:
  assumes "unat (q_settled q) + unat (hour_used q) + unat n < 2 ^ 64"
  shows "unat (used (record_bytes n d (roll_over_at h q))) \<le> unat (used q) + unat n"
proof -
  let ?r = "roll_over_at h q"
  have no_wrap: "unat (q_settled ?r) + unat (hour_used ?r) = unat (q_settled q) + unat (hour_used q)"
    using assms by (intro roll_over_no_wrap) linarith
  have "unat (used (record_bytes n d ?r)) \<le> unat (q_settled ?r) + unat (hour_used (record_bytes n d ?r))"
    by (simp add: used_def unat_add_le)
  also have "\<dots> \<le> unat (q_settled ?r) + unat (hour_used ?r) + unat n"
    using hour_used_record [of n d ?r] by simp
  also have "\<dots> = unat (used q) + unat n"
    using no_wrap assms by (simp add: used_def unat_add_no_wrap)
  finally show ?thesis .
qed

text \<open>C33: traffic is counted and cut off at the right moment.  On a quota that is not exhausted the
  totals grow by exactly the bytes, the answer is whether the bill is still below the limit, and the bill
  passes the limit by less than the size of the last buffer.\<close>

theorem consume_overshoots_by_less_than_a_buffer:
  assumes "quota_inv q" "\<not> is_exhausted q" "try_consume_at n d h q = (q', ok)"
    "unat (q_settled q) + unat (hour_used q) + unat n < 2 ^ 64"
  shows "q_total_upload q' + q_total_download q' = q_total_upload q + q_total_download q + n
    \<and> unat (used q') \<le> unat (used q) + unat n
    \<and> (ok \<longleftrightarrow> \<not> is_exhausted q')
    \<and> (limit_of q = None \<longrightarrow> ok)
    \<and> (\<forall>lim. limit_of q = Some lim \<longrightarrow> (ok \<longleftrightarrow> used q' < lim) \<and> unat (used q') < unat lim + unat n)"
proof -
  let ?q1 = "record_bytes n d (roll_over_at h q)"
  have used': "unat (used ?q1) \<le> unat (used q) + unat n"
    using record_used_bound [OF assms(4)] .
  have below: "limit_of q = Some lim \<Longrightarrow> unat (used q) < unat lim" for lim
    using assms(1,2) by (auto simp: quota_inv_def is_exhausted_def over_limit_def word_less_nat_alt word_le_nat_alt)
  have out: "used q' = used ?q1" "q_total_upload q' = q_total_upload ?q1" "q_total_download q' = q_total_download ?q1"
    "ok \<longleftrightarrow> \<not> over_limit ?q1" "is_exhausted q' \<longleftrightarrow> over_limit ?q1"
    using assms(2,3) by (cases rule: try_consume_cases [of q n d h], auto simp: is_exhausted_def)+
  have "q_total_upload ?q1 + q_total_download ?q1 = q_total_upload q + q_total_download q + n"
    by (cases d) (simp_all add: record_bytes_def)
  moreover have "limit_of ?q1 = limit_of q" by (simp add: limit_of_def)
  ultimately show ?thesis
    using used' below by (fastforce simp: out over_limit_def not_le)
qed

section \<open>Persistence\<close>

text \<open>C34: saving a quota and restoring it, in the same hour or in any later one, loses nothing: the
  billed usage, the totals, the limit and whether it is exhausted are the same, and within the
  same hour the saved counters are the same too.\<close>

theorem restore_snapshot:
  assumes "quota_inv q"
    "q' = new_metered_at (q_name q) (limit_of q) (snapshot q) (metering_of q) h"
  shows "used q' = used q \<and> q_total_upload q' = q_total_upload q \<and> q_total_download q' = q_total_download q
    \<and> limit_of q' = limit_of q \<and> remaining q' = remaining q \<and> is_exhausted q' = is_exhausted q
    \<and> (h = q_bucket_hour q \<longrightarrow> snapshot q' = snapshot q)"
proof -
  have used: "used q' = used q"
    by (simp add: assms(2) snapshot_def used_def [of q] hour_used_def [of q])
  have limit: "limit_of q' = limit_of q"
    by (simp add: assms(2) limit_of_def split: option.splits)
  have "quota_inv q'"
    unfolding assms(2) by (rule quota_inv_new) (simp add: limit_of_def)
  then have "is_exhausted q' = is_exhausted q"
    using assms(1) by (simp add: quota_inv_def is_exhausted_def over_limit_def used limit split: option.splits)
  then show ?thesis
    by (simp add: used limit remaining_def)
      (simp add: assms(2) snapshot_def)
qed

section \<open>Billing by the hour\<close>

text \<open>
  The specification the carrier bills by: traffic events are grouped by their hour, and every
  hour is charged by the metering mode, without any state.
\<close>

type_synonym traffic = "(u64 \<times> direction \<times> i64) list"

definition bill_nat :: "metering \<Rightarrow> nat \<Rightarrow> nat \<Rightarrow> nat" where
  "bill_nat m u d = (case m of MeterMax \<Rightarrow> max u d | MeterSum \<Rightarrow> u + d | MeterDownload \<Rightarrow> d)"

definition hour_bytes :: "direction \<Rightarrow> i64 \<Rightarrow> traffic \<Rightarrow> nat" where
  "hour_bytes d h evs = sum_list (map (\<lambda>(n, d', h'). if d' = d \<and> h' = h then unat n else 0) evs)"

definition hours :: "traffic \<Rightarrow> i64 set" where
  "hours evs = (\<lambda>(n, d, h). h) ` set evs"

definition hour_bill :: "metering \<Rightarrow> traffic \<Rightarrow> i64 \<Rightarrow> nat" where
  "hour_bill m evs h = bill_nat m (hour_bytes Upload h evs) (hour_bytes Download h evs)"

definition billed :: "metering \<Rightarrow> traffic \<Rightarrow> nat" where
  "billed m evs = (\<Sum>h\<in>hours evs. hour_bill m evs h)"

definition traffic_bytes :: "traffic \<Rightarrow> nat" where
  "traffic_bytes evs = sum_list (map (\<lambda>(n, d, h). unat n) evs)"

definition run_traffic :: "user_quota \<Rightarrow> traffic \<Rightarrow> user_quota" where
  "run_traffic q evs = foldl (\<lambda>q (n, d, h). fst (try_consume_at n d h q)) q evs"

lemma run_traffic_snoc: "run_traffic q (evs @ [(n, d, h)]) = fst (try_consume_at n d h (run_traffic q evs))"
  by (simp add: run_traffic_def)

lemma hour_bytes_snoc:
  "hour_bytes d h (evs @ [(n, d', h')]) = hour_bytes d h evs + (if d' = d \<and> h' = h then unat n else 0)"
  by (simp add: hour_bytes_def)

lemma hours_snoc [simp]: "hours (evs @ [(n, d, h)]) = insert h (hours evs)"
  by (simp add: hours_def)

lemma finite_hours [simp]: "finite (hours evs)"
  by (simp add: hours_def)

lemma hour_bytes_none: "h \<notin> hours evs \<Longrightarrow> hour_bytes d h evs = 0"
  by (force simp: hour_bytes_def hours_def)

lemma hour_bill_none: "h \<notin> hours evs \<Longrightarrow> hour_bill m evs h = 0"
  by (simp add: hour_bill_def hour_bytes_none bill_nat_def split: metering.splits)

lemma hour_bill_other: "h' \<noteq> h \<Longrightarrow> hour_bill m (evs @ [(n, d, h')]) h = hour_bill m evs h"
  by (simp add: hour_bill_def hour_bytes_snoc)

lemma bill_nat_le: "bill_nat m u d \<le> u + d"
  by (simp add: bill_nat_def split: metering.splits)

lemma unat_bill: "unat u + unat d < 2 ^ 64 \<Longrightarrow> unat (bill m u d) = bill_nat m (unat u) (unat d)"
  by (simp add: bill_def bill_nat_def unat_max unat_saturating_add split: metering.splits)

lemma sum_hour_bytes:
  "(\<Sum>h\<in>hours evs. hour_bytes Upload h evs + hour_bytes Download h evs) = traffic_bytes evs"
proof (induction evs rule: rev_induct)
  case (snoc e evs)
  obtain n d h where e: "e = (n, d, h)" using prod_cases3 by blast
  let ?f = "\<lambda>evs k. hour_bytes Upload k evs + hour_bytes Download k evs"
  have same: "(\<Sum>k\<in>hours evs - {h}. ?f (evs @ [e]) k) = (\<Sum>k\<in>hours evs - {h}. ?f evs k)"
    by (intro sum.cong) (auto simp: e hour_bytes_snoc)
  have "(\<Sum>k\<in>hours (evs @ [e]). ?f (evs @ [e]) k) = ?f (evs @ [e]) h + (\<Sum>k\<in>hours evs - {h}. ?f (evs @ [e]) k)"
    by (simp add: e sum.insert_remove)
  also have "?f (evs @ [e]) h = ?f evs h + unat n"
    by (cases d) (simp_all add: e hour_bytes_snoc)
  also have "?f evs h + unat n + (\<Sum>k\<in>hours evs - {h}. ?f (evs @ [e]) k) = unat n + (\<Sum>k\<in>hours evs. ?f evs k)"
    unfolding same
    by (cases "h \<in> hours evs") (simp_all add: sum.remove [of "hours evs" h] hour_bytes_none)
  finally show ?case using snoc by (simp add: e traffic_bytes_def)
qed (simp add: hours_def traffic_bytes_def)

lemma billed_le: "(\<Sum>h\<in>hours evs - A. hour_bill m evs h) + (if b \<in> A then hour_bill m evs b else 0) \<le> traffic_bytes evs"
  if "A \<subseteq> {b}"
proof -
  have le: "hour_bill m evs h \<le> hour_bytes Upload h evs + hour_bytes Download h evs" for h
    by (simp add: hour_bill_def bill_nat_le)
  have "(\<Sum>h\<in>hours evs - A. hour_bill m evs h) + (if b \<in> A then hour_bill m evs b else 0)
      \<le> (\<Sum>h\<in>hours evs. hour_bill m evs h)"
  proof (cases "b \<in> A \<and> b \<in> hours evs")
    case True
    then have "A = {b}" using that by auto
    with True show ?thesis by (simp add: sum.remove [of "hours evs" b])
  next
    case False
    then have "(if b \<in> A then hour_bill m evs b else 0) = 0" by (simp add: hour_bill_none)
    then show ?thesis by (simp add: sum_mono2)
  qed
  also have "\<dots> \<le> traffic_bytes evs"
    unfolding sum_hour_bytes [symmetric] by (rule sum_mono) (rule le)
  finally show ?thesis .
qed

text \<open>What the counters hold after traffic in the order of its hours.\<close>

definition traffic_inv :: "metering \<Rightarrow> traffic \<Rightarrow> user_quota \<Rightarrow> bool" where
  "traffic_inv m evs q \<longleftrightarrow> limit_of q = None \<and> \<not> is_exhausted q \<and> metering_of q = m
    \<and> unat (q_hour_upload q) = hour_bytes Upload (q_bucket_hour q) evs
    \<and> unat (q_hour_download q) = hour_bytes Download (q_bucket_hour q) evs
    \<and> unat (q_settled q) = (\<Sum>h\<in>hours evs - {q_bucket_hour q}. hour_bill m evs h)"

lemma hour_bytes_le: "hour_bytes Upload h evs + hour_bytes Download h evs \<le> traffic_bytes evs"
proof (cases "h \<in> hours evs")
  case True
  then show ?thesis
    unfolding sum_hour_bytes [symmetric] by (intro member_le_sum) simp_all
qed (simp add: hour_bytes_none)

lemma traffic_inv_roll:
  assumes "traffic_inv m evs q" "traffic_bytes evs < 2 ^ 64" "h \<noteq> q_bucket_hour q \<Longrightarrow> h \<notin> hours evs"
  shows "traffic_inv m evs (roll_over_at h q)"
proof (cases "q_bucket_hour q = h")
  case True
  with assms(1) show ?thesis by (simp add: roll_over_at_def)
next
  case False
  let ?b = "q_bucket_hour q"
  have fresh: "h \<notin> hours evs" using assms(3) False by blast
  have hour: "unat (q_hour_upload q) + unat (q_hour_download q) < 2 ^ 64"
    using assms(1,2) hour_bytes_le [of ?b evs] by (simp add: traffic_inv_def)
  have bill: "unat (bill m (q_hour_upload q) (q_hour_download q)) = hour_bill m evs ?b"
    using assms(1) unat_bill [OF hour] by (simp add: traffic_inv_def hour_bill_def)
  have "unat (q_settled q + bill m (q_hour_upload q) (q_hour_download q))
      = (\<Sum>h\<in>hours evs - {?b}. hour_bill m evs h) + hour_bill m evs ?b"
    using assms(1,2) billed_le [of "{?b}" ?b m evs] bill
    by (subst unat_add_no_wrap) (simp_all add: traffic_inv_def)
  also have "\<dots> = (\<Sum>h\<in>hours evs. hour_bill m evs h)"
    by (cases "?b \<in> hours evs") (simp_all add: sum.remove [of "hours evs" ?b] hour_bill_none)
  finally show ?thesis
    using assms(1) False fresh
    by (simp add: traffic_inv_def roll_over_at_def settle_to_def limit_of_None is_exhausted_def
        metering_of_def hour_bytes_none)
qed

lemma traffic_inv_consume:
  assumes "traffic_inv m evs q" "traffic_bytes evs + unat n < 2 ^ 64" "h \<noteq> q_bucket_hour q \<Longrightarrow> h \<notin> hours evs"
  shows "traffic_inv m (evs @ [(n, d, h)]) (fst (try_consume_at n d h q))"
    "q_bucket_hour (fst (try_consume_at n d h q)) = h"
proof -
  let ?r = "roll_over_at h q"
  have r: "traffic_inv m evs ?r" using assms by (intro traffic_inv_roll) simp_all
  then have "limit_of (record_bytes n d ?r) = None" "\<not> is_exhausted q"
    using assms(1) by (simp_all add: traffic_inv_def limit_of_None)
  then have out: "fst (try_consume_at n d h q) = record_bytes n d ?r"
    by (simp add: try_consume_at_def Let_def)
  then show "q_bucket_hour (fst (try_consume_at n d h q)) = h" by simp
  have others: "(\<Sum>k\<in>insert h (hours evs) - {h}. hour_bill m (evs @ [(n, d, h)]) k) = (\<Sum>k\<in>hours evs - {h}. hour_bill m evs k)"
    by (intro sum.cong) (auto simp: hour_bill_other)
  have "unat (q_hour_upload ?r) + unat n < 18446744073709551616" "unat (q_hour_download ?r) + unat n < 18446744073709551616"
    using r assms(2) hour_bytes_le [of h evs] by (simp_all add: traffic_inv_def)
  then have "unat (q_hour_upload ?r + n) = unat (q_hour_upload ?r) + unat n"
    "unat (q_hour_download ?r + n) = unat (q_hour_download ?r) + unat n"
    by (simp_all add: unat_add_no_wrap)
  with r others show "traffic_inv m (evs @ [(n, d, h)]) (fst (try_consume_at n d h q))"
    unfolding out traffic_inv_def
    by (cases d) (simp_all add: record_bytes_def limit_of_None is_exhausted_def metering_of_def hour_bytes_snoc)
qed

lemma run_traffic_inv:
  assumes "sorted (map (\<lambda>(n, d, h). sint h) evs)" "traffic_bytes evs < 2 ^ 64"
  shows "traffic_inv m evs (run_traffic (new_metered_at nm None saved_default m h0) evs)
    \<and> (evs \<noteq> [] \<longrightarrow> q_bucket_hour (run_traffic (new_metered_at nm None saved_default m h0) evs)
         = (case last evs of (n, d, h) \<Rightarrow> h))"
  using assms
proof (induction evs rule: rev_induct)
  case Nil
  then show ?case
    by (simp add: run_traffic_def traffic_inv_def limit_of_None is_exhausted_def new_metered_at_def
        saved_default_def metering_of_def hours_def hour_bytes_def)
next
  case (snoc e evs)
  obtain n d h where e: "e = (n, d, h)" using prod_cases3 by blast
  let ?q = "run_traffic (new_metered_at nm None saved_default m h0) evs"
  have bytes: "traffic_bytes evs + unat n < 2 ^ 64" using snoc.prems(2) by (simp add: e traffic_bytes_def)
  have srt: "sorted (map (\<lambda>(n, d, h). sint h) evs)" "\<forall>k\<in>hours evs. sint k \<le> sint h"
    using snoc.prems(1) by (auto simp: e sorted_append hours_def)
  have IH: "traffic_inv m evs ?q" "evs \<noteq> [] \<Longrightarrow> q_bucket_hour ?q = (case last evs of (n, d, h) \<Rightarrow> h)"
    using snoc.IH srt(1) bytes by auto
  have "h \<notin> hours evs" if "h \<noteq> q_bucket_hour ?q"
  proof
    assume h: "h \<in> hours evs"
    then have "evs \<noteq> []" by (auto simp: hours_def)
    then obtain evs' n' d' h' where evs: "evs = evs' @ [(n', d', h')]"
      by (cases evs rule: rev_cases) auto
    then have last: "q_bucket_hour ?q = h'" using IH(2) by simp
    have "sint h \<le> sint h'" using srt(1) h by (auto simp: evs sorted_append hours_def)
    moreover have "sint h' \<le> sint h" using srt(2) by (simp add: evs)
    ultimately show False using that last sint_eq_iff_i64 [of h h'] by simp
  qed
  with traffic_inv_consume [OF IH(1) bytes] show ?case
    by (simp add: e run_traffic_snoc)
qed

text \<open>C35: on traffic whose hours do not go back, the counters bill what the carrier bills: the sum
  over the hours of the larger direction, of both directions or of the downloads, whichever the
  metering mode says, however the rollovers fall.\<close>

theorem usage_is_billed_by_the_hour:
  assumes "sorted (map (\<lambda>(n, d, h). sint h) evs)" "traffic_bytes evs < 2 ^ 64"
  shows "unat (used (run_traffic (new_metered_at nm None saved_default m h0) evs)) = billed m evs"
proof -
  let ?q = "run_traffic (new_metered_at nm None saved_default m h0) evs" and ?b = "q_bucket_hour"
  have inv: "traffic_inv m evs ?q" using run_traffic_inv [OF assms] by blast
  then have hour: "unat (hour_used ?q) = hour_bill m evs (?b ?q)"
    using assms(2) hour_bytes_le [of "?b ?q" evs]
    by (simp add: traffic_inv_def hour_used_def unat_bill hour_bill_def)
  have "unat (used ?q) = (\<Sum>h\<in>hours evs - {?b ?q}. hour_bill m evs h) + hour_bill m evs (?b ?q)"
    unfolding used_def using inv hour assms(2) billed_le [of "{?b ?q}" "?b ?q" m evs]
    by (subst unat_add_no_wrap) (simp_all add: traffic_inv_def)
  also have "\<dots> = billed m evs"
    by (cases "?b ?q \<in> hours evs") (simp_all add: billed_def sum.remove [of "hours evs" "?b ?q"] hour_bill_none)
  finally show ?thesis .
qed

section \<open>The laws at work\<close>

definition sample_saved :: saved_usage where
  "sample_saved = \<lparr> sv_upload = 50, sv_download = 80, sv_settled = 60, sv_hour_upload = 10,
     sv_hour_download = 20, sv_hour_id = 7 \<rparr>"

definition sample_quota :: user_quota where
  "sample_quota = new_metered_at ''ann'' (Some 100) sample_saved MeterMax 7"

lemma sample_quota_inv: "quota_inv sample_quota"
  unfolding sample_quota_def by (rule quota_inv_new) (simp add: NO_LIMIT_def u64_max_def)

lemma sample_quota_values: "\<not> is_exhausted sample_quota" "limit_of sample_quota = Some 100"
  "used sample_quota = 80" "q_settled sample_quota = 60" "hour_used sample_quota = 20"
  by (simp_all add: sample_quota_def sample_saved_def is_exhausted_def new_metered_at_def limit_of_def
      NO_LIMIT_def u64_max_def bill_def hour_used_def metering_of_def used_def)

theorem exhausted_means_limit_reached_witness:
  "quota_run sample_quota (fst (try_consume_at 30 Download 7 sample_quota))
     \<and> is_exhausted (fst (try_consume_at 30 Download 7 sample_quota))
     \<and> try_consume_at 1 Upload 8 (fst (try_consume_at 30 Download 7 sample_quota))
        = (fst (try_consume_at 30 Download 7 sample_quota), False)"
proof -
  let ?q = "fst (try_consume_at 30 Download 7 sample_quota)"
  have run: "quota_run sample_quota ?q"
    by (rule quota_run.step [OF quota_run.still quota_step.consume])
  have "limit_of ?q = Some 100" "used ?q = 110" by code_simp+
  with exhausted_means_limit_reached [OF run [unfolded sample_quota_def], of 1 Upload 8] run
  show ?thesis by (simp add: sample_quota_def NO_LIMIT_def u64_max_def)
qed

theorem consume_overshoots_by_less_than_a_buffer_witness:
  "unat (used (fst (try_consume_at 30 Download 7 sample_quota))) < unat (100 :: u64) + unat (30 :: u64)
     \<and> snd (try_consume_at 30 Download 7 sample_quota) = False"
proof -
  obtain q' ok where out: "try_consume_at 30 Download 7 sample_quota = (q', ok)" by fastforce
  have "\<not> used (fst (try_consume_at 30 Download 7 sample_quota)) < 100" by code_simp
  with consume_overshoots_by_less_than_a_buffer [OF sample_quota_inv sample_quota_values(1) out]
    sample_quota_values out
  show ?thesis by auto
qed

theorem restore_snapshot_witness:
  "used (new_metered_at (q_name sample_quota) (limit_of sample_quota) (snapshot sample_quota)
     (metering_of sample_quota) 9) = used sample_quota"
  using restore_snapshot [OF sample_quota_inv refl, of 9] by blast

theorem usage_is_billed_by_the_hour_witness:
  "unat (used (run_traffic (new_metered_at ''ann'' None saved_default MeterMax 3)
      [(10, Upload, 3), (4, Download, 3), (7, Download, 5), (2, Upload, 5), (1, Download, 5)]))
   = billed MeterMax [(10, Upload, 3), (4, Download, 3), (7, Download, 5), (2, Upload, 5), (1, Download, 5)]"
  by (rule usage_is_billed_by_the_hour) (simp_all add: traffic_bytes_def)

end
