(* ===== verification/User_Set.thy ===== *)
theory User_Set
  imports Quota
begin

text \<open>
  The set of users that the runtime hands out (\<open>UserSet\<close> of \<open>runtime.rs\<close>).  A \<open>UserQuota\<close> is shared
  by the forwarding tasks, the API, the accounting engine and the flush task through an \<open>Arc\<close>, so
  quotas live in a store, a list, and an \<open>Arc\<close> is an index into it: what one holder changes the others
  see.  A store only grows.
\<close>

type_synonym quota_store = "user_quota list"

definition on_quota :: "nat \<Rightarrow> (user_quota \<Rightarrow> user_quota) \<Rightarrow> quota_store \<Rightarrow> quota_store" where
  "on_quota r f st = st[r := f (st ! r)]"

record user_set =
  us_ordered :: "nat list"
  us_by_name :: "string \<rightharpoonup> nat"

definition user_set_empty :: user_set where
  "user_set_empty = \<lparr> us_ordered = [], us_by_name = Map.empty \<rparr>"

text \<open>Collecting into a map: a later user of the same name would win.\<close>

definition user_set_new :: "quota_store \<Rightarrow> nat list \<Rightarrow> user_set" where
  "user_set_new st rs = \<lparr> us_ordered = rs, us_by_name = map_of (rev (map (\<lambda>r. (q_name (st ! r), r)) rs)) \<rparr>"

definition us_get :: "user_set \<Rightarrow> string \<Rightarrow> nat option" where
  "us_get us nm = us_by_name us nm"

section \<open>Well-formed sets\<close>

lemma map_of_rev_same:
  assumes "distinct (map fst ps)"
  shows "map_of (rev ps) = map_of ps"
proof
  fix k
  show "map_of (rev ps) k = map_of ps k"
  proof (cases "map_of ps k")
    case None
    then have "map_of (rev ps) k = None" by (simp add: map_of_eq_None_iff)
    with None show ?thesis by simp
  next
    case (Some v)
    then show ?thesis using map_of_rev_distinct [OF assms map_of_SomeD] by metis
  qed
qed

definition names_of :: "quota_store \<Rightarrow> user_set \<Rightarrow> string list" where
  "names_of st us = map (\<lambda>r. q_name (st ! r)) (us_ordered us)"

definition users_wf :: "quota_store \<Rightarrow> user_set \<Rightarrow> bool" where
  "users_wf st us \<longleftrightarrow> (\<forall>r\<in>set (us_ordered us). r < length st) \<and> distinct (names_of st us)
     \<and> us_by_name us = map_of (map (\<lambda>r. (q_name (st ! r), r)) (us_ordered us))"

lemma user_set_new_wf:
  assumes "\<forall>r\<in>set rs. r < length st" "distinct (map (\<lambda>r. q_name (st ! r)) rs)"
  shows "users_wf st (user_set_new st rs)"
proof -
  let ?ps = "map (\<lambda>r. (q_name (st ! r), r)) rs"
  have "distinct (map fst ?ps)" using assms(2) by (simp add: comp_def)
  then have "map_of (rev ?ps) = map_of ?ps" by (rule map_of_rev_same)
  with assms show ?thesis by (simp add: users_wf_def user_set_new_def names_of_def)
qed

lemma us_get_iff:
  assumes "users_wf st us"
  shows "us_get us nm = Some r \<longleftrightarrow> r \<in> set (us_ordered us) \<and> q_name (st ! r) = nm"
proof -
  have "distinct (map fst (map (\<lambda>r. (q_name (st ! r), r)) (us_ordered us)))"
    using assms by (simp add: users_wf_def names_of_def comp_def)
  from map_of_eq_Some_iff [OF this] assms show ?thesis by (auto simp: us_get_def users_wf_def)
qed

lemma us_get_None:
  assumes "users_wf st us"
  shows "us_get us nm = None \<longleftrightarrow> nm \<notin> set (names_of st us)"
proof (cases "us_get us nm")
  case None
  then show ?thesis using us_get_iff [OF assms, of nm] by (auto simp: names_of_def)
next
  case (Some r)
  then show ?thesis using us_get_iff [OF assms, of nm r] by (auto simp: names_of_def)
qed

lemma distinct_refs: "users_wf st us \<Longrightarrow> distinct (us_ordered us)"
  by (simp add: users_wf_def names_of_def distinct_map)

text \<open>An update that keeps the names keeps the set well-formed.\<close>

lemma length_on_quota [simp]: "length (on_quota r f st) = length st"
  by (simp add: on_quota_def)

lemma on_quota_nth: "r < length st \<Longrightarrow> on_quota r f st ! k = (if k = r then f (st ! r) else st ! k)"
  by (simp add: on_quota_def nth_list_update)

lemma names_keep:
  assumes "length st' = length st" "\<forall>r<length st. q_name (st' ! r) = q_name (st ! r)" "users_wf st us"
  shows "users_wf st' us \<and> names_of st' us = names_of st us"
proof -
  have same: "q_name (st' ! r) = q_name (st ! r)" if "r \<in> set (us_ordered us)" for r
    using assms(2,3) that by (auto simp: users_wf_def)
  then have "names_of st' us = names_of st us"
    "map (\<lambda>r. (q_name (st' ! r), r)) (us_ordered us) = map (\<lambda>r. (q_name (st ! r), r)) (us_ordered us)"
    by (simp_all add: names_of_def)
  with assms show ?thesis unfolding users_wf_def by metis
qed

end
