(* ===== verification/Api.thy ===== *)
theory Api
  imports User_Set
begin

text \<open>
  The read-only HTTP API (\<open>api.rs\<close>).  A request is its headers, in order and with lower-case
  names, and the decoded query; the web framework that routes it and writes JSON is not modelled,
  so a response is its content before encoding.  Showing a user rolls its hour over, so a handler
  returns the store of quotas too.
\<close>

unbundle bit_operations_syntax

type_synonym headers = "(string \<times> string) list"
type_synonym query = "string \<rightharpoonup> string"

record api_state =
  api_users :: user_set
  api_token :: "string option"

record user_usage =
  uu_name :: string
  uu_total :: string
  uu_used :: string
  uu_hour_used :: string
  uu_remaining :: string

definition format_limit :: "u64 option \<Rightarrow> string" where
  "format_limit l = (case l of None \<Rightarrow> ''unlimited'' | Some n \<Rightarrow> format_size n)"

definition user_usage_new :: "nat \<Rightarrow> i64 \<Rightarrow> quota_store \<Rightarrow> quota_store \<times> user_usage" where
  "user_usage_new r now_hour st =
     (let st' = on_quota r (roll_over_at now_hour) st;
          q = st' ! r
      in (st', \<lparr> uu_name = q_name q, uu_total = format_limit (limit_of q), uu_used = format_size (used q),
                 uu_hour_used = format_size (hour_used q), uu_remaining = format_limit (remaining q) \<rparr>))"

text \<open>The bill split by the transferred directions, in \<open>u128\<close>.\<close>

definition billed_split :: "user_quota \<Rightarrow> u64 \<times> u64" where
  "billed_split q =
     (let up = unat (q_total_upload q); down = unat (q_total_download q); total = up + down in
      if total = 0 then (0, 0)
      else
        let billed = min (unat (used q)) total;
            billed_up = word_of_nat (billed * up div total)
        in (billed_up, word_of_nat billed - billed_up))"

text \<open>The comparison folds over all bytes before it decides, so that its time tells nothing.\<close>

definition token_matches :: "string \<Rightarrow> string \<Rightarrow> bool" where
  "token_matches given expected \<longleftrightarrow> length given = length expected
     \<and> fold (\<lambda>(a, b) acc. acc OR (of_char a XOR of_char b)) (zip given expected) (0 :: 8 word) = 0"

definition header_get :: "headers \<Rightarrow> string \<Rightarrow> string option" where
  "header_get hs nm = map_of hs nm"

text \<open>\<open>HeaderValue::to_str\<close> accepts visible ASCII and tabs.\<close>

definition visible :: "char \<Rightarrow> bool" where
  "visible c \<longleftrightarrow> (let n = char_code c in 32 \<le> n \<and> n < 127 \<or> n = 9)"

definition to_str :: "string \<Rightarrow> string option" where
  "to_str v = (if list_all visible v then Some v else None)"

definition strip_prefix :: "string \<Rightarrow> string \<Rightarrow> string option" where
  "strip_prefix pre s = (if take (length pre) s = pre then Some (drop (length pre) s) else None)"

definition bearer_matches :: "string \<Rightarrow> headers \<Rightarrow> bool" where
  "bearer_matches expected hs =
     (case Option.bind (header_get hs ''authorization'') to_str of
        None \<Rightarrow> False
      | Some auth \<Rightarrow>
          (case strip_prefix ''Bearer '' auth of None \<Rightarrow> False | Some given \<Rightarrow> token_matches given expected))"

definition authorize :: "api_state \<Rightarrow> headers \<Rightarrow> query \<Rightarrow> bool" where
  "authorize s hs query =
     (case api_token s of
        None \<Rightarrow> True
      | Some expected \<Rightarrow>
          bearer_matches expected hs
          \<or> (case query ''token'' of None \<Rightarrow> False | Some given \<Rightarrow> token_matches given expected))"

section \<open>Handlers\<close>

datatype api_response =
    Unauthorized
  | NotFound
  | UsageList "user_usage list"
  | Usage user_usage
  | SubInfo string

fun usage_all :: "nat list \<Rightarrow> i64 \<Rightarrow> quota_store \<Rightarrow> quota_store \<times> user_usage list" where
  "usage_all [] now_hour st = (st, [])"
| "usage_all (r # rs) now_hour st =
     (let (st1, u) = user_usage_new r now_hour st;
          (st2, us) = usage_all rs now_hour st1
      in (st2, u # us))"

definition list_users :: "api_state \<Rightarrow> headers \<Rightarrow> query \<Rightarrow> i64 \<Rightarrow> quota_store \<Rightarrow> quota_store \<times> api_response" where
  "list_users s hs query now_hour st =
     (if \<not> authorize s hs query then (st, Unauthorized)
      else let (st', us) = usage_all (us_ordered (api_users s)) now_hour st in (st', UsageList us))"

definition get_user :: "api_state \<Rightarrow> string \<Rightarrow> headers \<Rightarrow> query \<Rightarrow> i64 \<Rightarrow> quota_store
    \<Rightarrow> quota_store \<times> api_response" where
  "get_user s nm hs query now_hour st =
     (if \<not> authorize s hs query then (st, Unauthorized)
      else case us_get (api_users s) nm of
        Some r \<Rightarrow> (let (st', u) = user_usage_new r now_hour st in (st', Usage u))
      | None \<Rightarrow> (st, NotFound))"

definition userinfo :: "user_quota \<Rightarrow> string" where
  "userinfo q =
     (let (up, down) = billed_split q;
          info = ''upload='' @ show_nat (unat up) @ ''; download='' @ show_nat (unat down)
      in case limit_of q of None \<Rightarrow> info | Some l \<Rightarrow> info @ ''; total='' @ show_nat (unat l))"

definition sub_store :: "api_state \<Rightarrow> string \<Rightarrow> headers \<Rightarrow> query \<Rightarrow> i64 \<Rightarrow> quota_store
    \<Rightarrow> quota_store \<times> api_response" where
  "sub_store s nm hs query now_hour st =
     (if \<not> authorize s hs query then (st, Unauthorized)
      else case us_get (api_users s) nm of
        None \<Rightarrow> (st, NotFound)
      | Some r \<Rightarrow>
          (let st' = on_quota r (roll_over_at now_hour) st in (st', SubInfo (userinfo (st' ! r)))))"

datatype api_request = ListUsers | GetUser string | SubStore string

definition api_handle :: "api_request \<Rightarrow> api_state \<Rightarrow> headers \<Rightarrow> query \<Rightarrow> i64 \<Rightarrow> quota_store
    \<Rightarrow> quota_store \<times> api_response" where
  "api_handle rq s hs query now_hour st = (case rq of
      ListUsers \<Rightarrow> list_users s hs query now_hour st
    | GetUser nm \<Rightarrow> get_user s nm hs query now_hour st
    | SubStore nm \<Rightarrow> sub_store s nm hs query now_hour st)"

section \<open>Tokens\<close>

lemma unat_of_char: "unat (of_char c :: 8 word) = of_char c"
proof -
  have "(of_char c :: 8 word) = word_of_nat (of_char c)" by (rule of_nat_of_char [symmetric])
  then have "unat (of_char c :: 8 word) = of_char c mod 256" by (simp only: unat_of_nat) simp
  then show ?thesis by simp
qed

lemma of_char_byte_eq: "(of_char a :: 8 word) = of_char b \<longleftrightarrow> a = b"
  by (metis unat_of_char of_char_eq_iff)

lemma fold_or_zero:
  "fold (\<lambda>(a, b) acc. acc OR (of_char a XOR of_char b)) ps (acc :: 8 word) = 0
     \<longleftrightarrow> acc = 0 \<and> (\<forall>(a, b)\<in>set ps. a = b)"
proof (induction ps arbitrary: acc)
  case (Cons p ps)
  obtain a b where p: "p = (a, b)" by fastforce
  have "of_char a XOR of_char b = (0 :: 8 word) \<longleftrightarrow> (of_char a :: 8 word) = of_char b"
    by (metis xor.left_neutral xor.right_neutral xor_self_eq xor.assoc)
  also have "\<dots> \<longleftrightarrow> a = b" by (rule of_char_byte_eq)
  finally have "acc OR (of_char a XOR of_char b) = 0 \<longleftrightarrow> acc = 0 \<and> a = b"
    by (simp add: or_eq_0_iff)
  then show ?case by (simp add: p Cons)
qed simp

lemma token_matches_iff: "token_matches given expected \<longleftrightarrow> given = expected"
  unfolding token_matches_def fold_or_zero by (auto simp: list_eq_iff_zip_eq)

lemma strip_prefix_iff: "strip_prefix pre s = Some r \<longleftrightarrow> s = pre @ r"
  unfolding strip_prefix_def by (metis append_eq_conv_conj append_take_drop_id option.inject option.distinct(1))

lemma bind_to_str: "Option.bind v to_str = Some a \<longleftrightarrow> v = Some a \<and> list_all visible a"
  by (cases v) (auto simp: to_str_def)

lemma bearer_matches_iff:
  "bearer_matches e hs \<longleftrightarrow> header_get hs ''authorization'' = Some (''Bearer '' @ e) \<and> list_all visible (''Bearer '' @ e)"
proof (cases "Option.bind (header_get hs ''authorization'') to_str")
  case None
  then have "header_get hs ''authorization'' \<noteq> Some a \<or> \<not> list_all visible a" for a
    using bind_to_str [of "header_get hs ''authorization''" a] by simp
  moreover have "\<not> bearer_matches e hs" unfolding bearer_matches_def None by simp
  ultimately show ?thesis by blast
next
  case (Some auth)
  then have auth: "header_get hs ''authorization'' = Some auth" "list_all visible auth"
    unfolding bind_to_str by simp_all
  have "bearer_matches e hs \<longleftrightarrow> strip_prefix ''Bearer '' auth = Some e"
    unfolding bearer_matches_def Some by (auto simp: token_matches_iff split: option.splits)
  then show ?thesis unfolding strip_prefix_iff using auth by auto
qed

text \<open>The API lets a request in exactly when no token is configured, or the request carries the
  configured token, whole, as the bearer of its authorization header or as the query parameter; the
  constant-time comparison is equality, so neither a prefix nor an extension of the token passes.\<close>

lemma authorize_iff_token:
  "authorize s hs query \<longleftrightarrow>
     api_token s = None
     \<or> (\<exists>t. api_token s = Some t
          \<and> (header_get hs ''authorization'' = Some (''Bearer '' @ t) \<and> list_all visible (''Bearer '' @ t)
             \<or> query ''token'' = Some t))"
  by (auto simp: authorize_def bearer_matches_iff token_matches_iff split: option.splits)

section \<open>Reading changes no bill\<close>

text \<open>What a reader must not change: everything but how the bill is split between hours.\<close>

definition same_account :: "user_quota \<Rightarrow> user_quota \<Rightarrow> bool" where
  "same_account q q' \<longleftrightarrow> q_name q' = q_name q \<and> used q' = used q \<and> q_limit q' = q_limit q
     \<and> q_metering q' = q_metering q \<and> q_total_upload q' = q_total_upload q
     \<and> q_total_download q' = q_total_download q \<and> q_exhausted_flag q' = q_exhausted_flag q
     \<and> q_exhausted q' = q_exhausted q"

lemma same_account_refl [simp]: "same_account q q"
  by (simp add: same_account_def)

lemma same_account_trans: "same_account a b \<Longrightarrow> same_account b c \<Longrightarrow> same_account a c"
  by (simp add: same_account_def)

lemma same_account_roll: "same_account q (roll_over_at h q)"
  by (simp add: same_account_def)

definition same_accounts :: "quota_store \<Rightarrow> quota_store \<Rightarrow> bool" where
  "same_accounts st st' \<longleftrightarrow> list_all2 same_account st st'"

lemma same_accounts_refl [simp]: "same_accounts st st"
  by (simp add: same_accounts_def list_all2_same)

lemma same_accounts_trans: "same_accounts a b \<Longrightarrow> same_accounts b c \<Longrightarrow> same_accounts a c"
  unfolding same_accounts_def by (rule list_all2_trans [OF same_account_trans])

lemma same_accounts_roll: "same_accounts st (on_quota r (roll_over_at h) st)"
  by (cases "r < length st")
    (auto simp: same_accounts_def list_all2_conv_all_nth on_quota_def nth_list_update same_account_roll
      list_update_beyond)

lemma same_accounts_usage_all: "same_accounts st (fst (usage_all rs h st))"
proof (induction rs arbitrary: st)
  case (Cons r rs)
  have "same_accounts st (fst (user_usage_new r h st))"
    by (simp add: user_usage_new_def Let_def same_accounts_roll)
  from same_accounts_trans [OF this Cons.IH] show ?case by (simp add: case_prod_beta Let_def)
qed simp

text \<open>Reading through the API changes no account.  Whatever is asked, every quota keeps its bill, its
  totals, its limit and its exhaustion; a request without authorization changes nothing at all
  and is told nothing.\<close>

lemma api_reads_change_no_account:
  assumes "api_handle rq s hs query h st = (st', resp)"
  shows "same_accounts st st' \<and> (\<not> authorize s hs query \<longrightarrow> st' = st \<and> resp = Unauthorized)
    \<and> (authorize s hs query \<longrightarrow> resp \<noteq> Unauthorized)"
  using assms same_accounts_usage_all [of st "us_ordered (api_users s)" h]
  by (auto simp: api_handle_def list_users_def get_user_def sub_store_def user_usage_new_def Let_def
      same_accounts_roll split: api_request.splits option.splits if_splits prod.splits)

definition example_store :: quota_store where
  "example_store = [new_metered_at ''alice'' (Some 100) (saved_default\<lparr> sv_upload := 7, sv_hour_upload := 7 \<rparr>) MeterMax 0]"

definition example_api :: api_state where
  "example_api = \<lparr> api_users = user_set_new example_store [0], api_token = Some ''t'' \<rparr>"

lemma api_reads_change_no_account_witness:
  "authorize example_api [(''authorization'', ''Bearer t'')] Map.empty
   \<and> (let (st', resp) = api_handle (GetUser ''alice'') example_api [(''authorization'', ''Bearer t'')] Map.empty 3 example_store
      in same_accounts example_store st' \<and> resp \<noteq> Unauthorized)
   \<and> api_handle (GetUser ''alice'') example_api [(''authorization'', ''Bearer tt'')] Map.empty 3 example_store
      = (example_store, Unauthorized)"
proof -
  have auth: "authorize example_api [(''authorization'', ''Bearer t'')] Map.empty"
    "\<not> authorize example_api [(''authorization'', ''Bearer tt'')] Map.empty"
    by (simp_all add: authorize_def bearer_matches_iff token_matches_iff example_api_def header_get_def visible_def char_code_def)
  note use = api_reads_change_no_account [OF prod.collapse [symmetric]]
  show ?thesis
    using auth use [where rq = "GetUser ''alice''" and s = example_api and hs = "[(''authorization'', ''Bearer t'')]"
        and query = Map.empty and h = 3 and st = example_store]
      use [where rq = "GetUser ''alice''" and s = example_api and hs = "[(''authorization'', ''Bearer tt'')]"
        and query = Map.empty and h = 3 and st = example_store]
    by (simp add: case_prod_beta Let_def prod_eq_iff)
qed

section \<open>The split of the bill\<close>

lemma split_bounds:
  fixes up down b :: nat
  assumes "0 < up + down" "b \<le> up + down"
  shows "b * up div (up + down) \<le> up" "b - b * up div (up + down) \<le> down" "b * up div (up + down) \<le> b"
proof -
  let ?t = "up + down"
  have "b * up \<le> ?t * up" using assms(2) by (rule mult_le_mono1)
  from div_le_mono [OF this, of ?t] show "b * up div ?t \<le> up"
    using assms(1) nonzero_mult_div_cancel_left [of ?t up] by linarith
  have "b * up \<le> b * ?t" by simp
  from div_le_mono [OF this, of ?t] show "b * up div ?t \<le> b"
    using assms(1) nonzero_mult_div_cancel_right [of ?t b] by linarith
  have "?t * b \<le> b * up + ?t * down" using mult_le_mono1 [OF assms(2), of down] by (simp add: algebra_simps)
  then have "?t * (b - down) \<le> b * up" unfolding diff_mult_distrib2 by linarith
  then have "b - down \<le> b * up div ?t" using assms(1) by (simp add: less_eq_div_iff_mult_less_eq mult.commute)
  then show "b - b * up div ?t \<le> down" by linarith
qed

text \<open>The subscription header adds up.  The two shares are at most what was transferred in their
  direction, and together they are exactly the bill, or all that was transferred when the bill is
  larger than that.\<close>

lemma billed_split_adds_up:
  "unat (fst (billed_split q)) + unat (snd (billed_split q))
     = min (unat (used q)) (unat (q_total_upload q) + unat (q_total_download q))
   \<and> fst (billed_split q) \<le> q_total_upload q \<and> snd (billed_split q) \<le> q_total_download q"
proof -
  define up where "up = unat (q_total_upload q)"
  define down where "down = unat (q_total_download q)"
  define b where "b = min (unat (used q)) (up + down)"
  have lt: "up < 18446744073709551616" "b < 18446744073709551616"
    using unat_lt_u64 [of "used q"] by (simp_all add: up_def b_def min_less_iff_disj)
  show ?thesis
  proof (cases "up + down = 0")
    case True
    then show ?thesis by (simp add: billed_split_def Let_def up_def down_def)
  next
    case False
    define u where "u = b * up div (up + down)"
    have bounds: "u \<le> up" "b - u \<le> down" "u \<le> b"
      using split_bounds [of up down b] False by (simp_all add: u_def b_def)
    have split: "billed_split q = (word_of_nat u, word_of_nat b - word_of_nat u)"
      using False by (simp add: billed_split_def Let_def u_def b_def up_def down_def)
    have uw: "unat (word_of_nat u :: u64) = u" "unat (word_of_nat b :: u64) = b"
      using bounds lt by (simp_all add: unat_of_nat_u64)
    have "unat (word_of_nat b - word_of_nat u :: u64) = b - u"
      using uw bounds(3) by (simp add: unat_sub word_le_nat_alt)
    with uw bounds show ?thesis
      by (simp add: split word_le_nat_alt b_def [symmetric]) (simp add: up_def down_def b_def)
  qed
qed

end
