(* ===== verification/Ordered_Map.thy ===== *)
theory Ordered_Map
  imports Prelude "HOL-Library.List_Lexorder" "HOL-Library.Char_ord"
begin

text \<open>
  The standard library's \<open>BTreeMap\<close>: a map that is iterated in key order.  It is an
  association list with strictly increasing keys.  Keys are Rust strings, compared byte
  by byte, which is the lexicographic order of \<open>List_Lexorder\<close> over \<open>Char_ord\<close>.  The
  interface the ledger relies on is the locale \<open>ordered_map\<close>; its lemmas speak of lookup,
  of the iteration order and of the sum of the values, and the interpretation \<open>bt\<close> makes
  them available for the concrete map.
\<close>

type_synonym ('k, 'v) btree = "('k \<times> 'v) list"

fun bt_insert :: "'k::linorder \<Rightarrow> 'v \<Rightarrow> ('k, 'v) btree \<Rightarrow> ('k, 'v) btree" where
  "bt_insert k v [] = [(k, v)]"
| "bt_insert k v ((k', v') # m) =
     (if k = k' then (k, v) # m
      else if k < k' then (k, v) # (k', v') # m
      else (k', v') # bt_insert k v m)"

definition bt_get :: "('k, 'v) btree \<Rightarrow> 'k \<Rightarrow> 'v option" where
  "bt_get m k = map_of m k"

definition bt_keys :: "('k, 'v) btree \<Rightarrow> 'k list" where
  "bt_keys m = map fst m"

definition bt_wf :: "('k::linorder, 'v) btree \<Rightarrow> bool" where
  "bt_wf m \<longleftrightarrow> sorted_wrt (<) (map fst m)"

text \<open>\<open>entry(k).or_insert(v)\<close>, and \<open>*entry(k).or_insert(d) = f(..)\<close>.\<close>

definition bt_or_insert :: "'k::linorder \<Rightarrow> 'v \<Rightarrow> ('k, 'v) btree \<Rightarrow> ('k, 'v) btree" where
  "bt_or_insert k v m = (case bt_get m k of None \<Rightarrow> bt_insert k v m | Some _ \<Rightarrow> m)"

definition bt_upsert ::
  "'k::linorder \<Rightarrow> 'v \<Rightarrow> ('v \<Rightarrow> 'v) \<Rightarrow> ('k, 'v) btree \<Rightarrow> ('k, 'v) btree" where
  "bt_upsert k d f m = bt_insert k (f (case bt_get m k of None \<Rightarrow> d | Some v \<Rightarrow> v)) m"

text \<open>\<open>*get_mut(k).expect(..) = f(..)\<close>: a missing key panics.\<close>

definition bt_modify ::
  "'k::linorder \<Rightarrow> ('v \<Rightarrow> 'v) \<Rightarrow> ('k, 'v) btree \<Rightarrow> ('k, 'v) btree option" where
  "bt_modify k f m = (case bt_get m k of None \<Rightarrow> None | Some v \<Rightarrow> Some (bt_insert k (f v) m))"

section \<open>The interface\<close>

locale ordered_map =
  fixes get :: "'m \<Rightarrow> 'k::linorder \<Rightarrow> 'v option"
    and insert_kv :: "'k \<Rightarrow> 'v \<Rightarrow> 'm \<Rightarrow> 'm"
    and iter :: "'m \<Rightarrow> ('k \<times> 'v) list"
    and invar :: "'m \<Rightarrow> bool"
  assumes get_insert: "invar m \<Longrightarrow> get (insert_kv k v m) k' = (if k' = k then Some v else get m k')"
    and invar_insert: "invar m \<Longrightarrow> invar (insert_kv k v m)"
    and get_iter: "invar m \<Longrightarrow> get m = map_of (iter m)"
    and iter_sorted: "invar m \<Longrightarrow> sorted_wrt (<) (map fst (iter m))"
begin

lemma distinct_keys: "invar m \<Longrightarrow> distinct (map fst (iter m))"
  by (drule iter_sorted) (simp add: strict_sorted_iff)

lemma in_iter: "invar m \<Longrightarrow> (k, v) \<in> set (iter m) \<longleftrightarrow> get m k = Some v"
  by (simp add: get_iter distinct_keys)

lemma keys_iter: "invar m \<Longrightarrow> fst ` set (iter m) = {k. get m k \<noteq> None}"
  by (auto simp: get_iter map_of_eq_None_iff)

lemma iter_keys_insert:
  "invar m \<Longrightarrow> fst ` set (iter (insert_kv k v m)) = insert k (fst ` set (iter m))"
  by (auto simp: keys_iter invar_insert get_insert)

text \<open>The values, added up, by way of the finite set of keys.\<close>

lemma sum_iter:
  fixes f :: "'v \<Rightarrow> 'a::comm_monoid_add"
  assumes "invar m"
  shows "sum_list (map (\<lambda>x. f (snd x)) (iter m)) = (\<Sum>k\<in>fst ` set (iter m). f (the (get m k)))"
proof -
  have "sum_list (map (\<lambda>x. f (snd x)) (iter m)) = sum_list (map (\<lambda>k. f (the (get m k))) (map fst (iter m)))"
    using assms by (auto simp: in_iter intro!: arg_cong [where f = sum_list] map_cong)
  also have "\<dots> = (\<Sum>k\<in>set (map fst (iter m)). f (the (get m k)))"
    using assms by (intro sum_list_distinct_conv_sum_set distinct_keys)
  finally show ?thesis by simp
qed

lemma sum_insert:
  fixes f :: "'v \<Rightarrow> 'a::ab_group_add"
  assumes "invar m"
  shows "sum_list (map (\<lambda>x. f (snd x)) (iter (insert_kv k v m)))
     = sum_list (map (\<lambda>x. f (snd x)) (iter m)) - (case get m k of None \<Rightarrow> 0 | Some v' \<Rightarrow> f v') + f v"
proof -
  let ?K = "fst ` set (iter m)" and ?g = "\<lambda>k. f (the (get m k))"
  have same: "(\<Sum>j\<in>?K - {k}. f (the (get (insert_kv k v m) j))) = (\<Sum>j\<in>?K - {k}. ?g j)"
    using assms by (intro sum.cong) (auto simp: get_insert)
  have "sum_list (map (\<lambda>x. f (snd x)) (iter (insert_kv k v m)))
      = (\<Sum>j\<in>insert k ?K. f (the (get (insert_kv k v m) j)))"
    using assms by (simp add: sum_iter [OF invar_insert] iter_keys_insert)
  also have "\<dots> = f v + (\<Sum>j\<in>?K - {k}. ?g j)"
    using assms same by (simp add: sum.insert_remove get_insert)
  also have "(\<Sum>j\<in>?K - {k}. ?g j) = (\<Sum>j\<in>?K. ?g j) - (case get m k of None \<Rightarrow> 0 | Some v' \<Rightarrow> f v')"
  proof (cases "get m k")
    case None
    then have "k \<notin> ?K" using assms by (simp add: keys_iter)
    with None show ?thesis by simp
  next
    case (Some v')
    then have "k \<in> ?K" using assms by (simp add: keys_iter)
    then have "(\<Sum>j\<in>?K. ?g j) = ?g k + (\<Sum>j\<in>?K - {k}. ?g j)"
      by (intro sum.remove) simp_all
    with Some show ?thesis by simp
  qed
  finally show ?thesis
    using assms by (simp add: sum_iter algebra_simps)
qed

end

section \<open>The concrete map provides it\<close>

lemma set_keys_bt_insert: "fst ` set (bt_insert k v m) = insert k (fst ` set m)"
  by (induction k v m rule: bt_insert.induct) auto

lemma map_of_bt_insert: "map_of (bt_insert k v m) k' = (if k' = k then Some v else map_of m k')"
  by (induction k v m rule: bt_insert.induct) auto

lemma bt_wf_insert [wf_intros, simp]: "bt_wf m \<Longrightarrow> bt_wf (bt_insert k v m)"
proof (induction k v m rule: bt_insert.induct)
  case (2 k v k' v' m)
  have tail: "\<forall>x\<in>set m. k' < fst x" "sorted_wrt (<) (map fst m)"
    using "2.prems" by (auto simp: bt_wf_def)
  show ?case
  proof (cases "k = k' \<or> k < k'")
    case True
    with tail show ?thesis by (auto simp: bt_wf_def)
  next
    case False
    with "2.IH" tail have "sorted_wrt (<) (map fst (bt_insert k v m))"
      by (simp add: bt_wf_def)
    moreover have "\<forall>x\<in>fst ` set (bt_insert k v m). k' < x"
      using False tail by (auto simp: set_keys_bt_insert)
    ultimately show ?thesis using False by (auto simp: bt_wf_def)
  qed
qed (simp add: bt_wf_def)

interpretation bt: ordered_map bt_get bt_insert "\<lambda>m. m" bt_wf
  by unfold_locales (auto simp: bt_get_def map_of_bt_insert bt_wf_def [symmetric] fun_eq_iff)

lemma bt_wf_Nil [simp, wf_intros]: "bt_wf []"
  by (simp add: bt_wf_def)

lemma bt_get_Nil [simp]: "bt_get [] k = None"
  by (simp add: bt_get_def)

lemma bt_get_insert [simp]:
  "bt_get (bt_insert k v m) k' = (if k' = k then Some v else bt_get m k')"
  by (simp add: bt_get_def map_of_bt_insert)

lemma bt_get_or_insert:
  "bt_get (bt_or_insert k v m) k' = (case bt_get m k' of
      None \<Rightarrow> (if k' = k then Some v else None) | Some w \<Rightarrow> Some w)"
  by (auto simp: bt_or_insert_def split: option.splits)

lemma bt_wf_or_insert [wf_intros, simp]: "bt_wf m \<Longrightarrow> bt_wf (bt_or_insert k v m)"
  by (simp add: bt_or_insert_def split: option.splits)

lemma bt_wf_upsert [wf_intros, simp]: "bt_wf m \<Longrightarrow> bt_wf (bt_upsert k d f m)"
  by (simp add: bt_upsert_def)

lemma bt_modify_SomeE:
  assumes "bt_modify k f m = Some m'"
  obtains v where "bt_get m k = Some v" "m' = bt_insert k (f v) m"
  using assms by (auto simp: bt_modify_def split: option.splits)

lemma bt_modify_present: "bt_get m k = Some v \<Longrightarrow> bt_modify k f m = Some (bt_insert k (f v) m)"
  by (simp add: bt_modify_def)

lemma bt_keys_set: "set (bt_keys m) = {k. bt_get m k \<noteq> None}"
  by (auto simp: bt_keys_def bt_get_def map_of_eq_None_iff)

section \<open>The sum of the values\<close>

definition bt_sum :: "('k, 'v::monoid_add) btree \<Rightarrow> 'v" where
  "bt_sum m = sum_list (map snd m)"

lemma bt_sum_Nil [simp]: "bt_sum [] = 0"
  by (simp add: bt_sum_def)

lemma bt_sum_insert:
  fixes m :: "('k::linorder, 'v::ab_group_add) btree"
  shows "bt_wf m \<Longrightarrow> bt_sum (bt_insert k v m)
     = bt_sum m - (case bt_get m k of None \<Rightarrow> 0 | Some w \<Rightarrow> w) + v"
  using bt.sum_insert [of m "\<lambda>x. x" k v] by (simp add: bt_sum_def)

lemma bt_sum_insert_delta:
  fixes m :: "('k::linorder, 'v::ab_group_add) btree"
  shows "bt_wf m \<Longrightarrow> bt_get m k = Some w \<Longrightarrow> bt_sum (bt_insert k (w + d) m) = bt_sum m + d"
  by (simp add: bt_sum_insert)

lemma bt_sum_upsert_add:
  fixes m :: "('k::linorder, 'v::ab_group_add) btree"
  shows "bt_wf m \<Longrightarrow> bt_sum (bt_upsert k 0 (\<lambda>b. b + d) m) = bt_sum m + d"
  by (auto simp: bt_upsert_def bt_sum_insert split: option.splits)

lemma bt_sum_or_insert_0:
  fixes m :: "('k::linorder, 'v::ab_group_add) btree"
  shows "bt_wf m \<Longrightarrow> bt_sum (bt_or_insert k 0 m) = bt_sum m"
  by (auto simp: bt_or_insert_def bt_sum_insert split: option.splits)

section \<open>Maps changed in place\<close>

text \<open>A pass over \<open>iter_mut\<close> keeps the keys and relates the values one by one.\<close>

definition bt_rel :: "('v \<Rightarrow> 'w \<Rightarrow> bool) \<Rightarrow> ('k, 'v) btree \<Rightarrow> ('k, 'w) btree \<Rightarrow> bool" where
  "bt_rel R = list_all2 (\<lambda>x y. fst y = fst x \<and> R (snd x) (snd y))"

lemma bt_rel_simps [simp]:
  "bt_rel R [] []"
  "bt_rel R ((k, v) # m) ((k', w) # m') \<longleftrightarrow> k' = k \<and> R v w \<and> bt_rel R m m'"
  by (simp_all add: bt_rel_def)

lemma bt_rel_keys: "bt_rel R m m' \<Longrightarrow> map fst m' = map fst m"
  unfolding bt_rel_def by (induction rule: list_all2_induct) simp_all

lemma bt_rel_wf: "bt_rel R m m' \<Longrightarrow> bt_wf m \<Longrightarrow> bt_wf m'"
  by (simp add: bt_wf_def bt_rel_keys)

lemma bt_rel_get:
  assumes "bt_rel R m m'"
  shows "rel_option R (bt_get m k) (bt_get m' k)"
  using assms unfolding bt_rel_def
  by (induction rule: list_all2_induct) (auto simp: bt_get_def split: if_splits)

lemma bt_rel_get_Some:
  assumes "bt_rel R m m'" "bt_get m k = Some v"
  obtains w where "bt_get m' k = Some w" "R v w"
  using bt_rel_get [OF assms(1), of k] assms(2) by (auto simp: option_rel_Some1)

lemma bt_rel_get_Some_rev:
  assumes "bt_rel R m m'" "bt_get m' k = Some w"
  obtains v where "bt_get m k = Some v" "R v w"
  using bt_rel_get [OF assms(1), of k] assms(2) by (auto simp: option_rel_Some2)

end
