(* ===== verification/Split.thy ===== *)
theory Split
  imports Ordered_Map "HOL-Library.Product_Lexorder" "HOL-Library.Multiset"
begin

text \<open>
  Largest-remainder apportionment, \<open>split_by\<close> and \<open>split_evenly\<close> of \<open>ledger.rs\<close>, and the
  saturating conversion \<open>signed\<close> (\<open>signed_amount\<close>).  Every byte the ledger moves is divided by these
  functions, so what the ledger needs of them is stated as the locale \<open>splitter\<close>: the shares
  add up to the amount, no share exceeds it, a zero weight gets nothing.  The
  interpretation \<open>by_weight\<close> proves the laws for \<open>split_by\<close>.
\<close>

text \<open>The \<open>u128\<close> products and the \<open>u128\<close> total are natural numbers; \<open>as u64\<close> truncates.\<close>

definition exact_share :: "u64 \<Rightarrow> u64 \<Rightarrow> nat" where
  "exact_share amount weight = unat amount * unat weight"

text \<open>The final loop: one more byte for each index in turn while bytes are left.\<close>

fun hand_out :: "u64 \<Rightarrow> nat list \<Rightarrow> u64 list \<Rightarrow> u64 list" where
  "hand_out left [] shares = shares"
| "hand_out left (i # is) shares =
     (if left = 0 then shares else hand_out (left - 1) is (shares[i := shares ! i + 1]))"

text \<open>\<open>b.0.cmp(&a.0).then(a.1.cmp(&b.1))\<close>: larger remainders first, then smaller indices.\<close>

definition remainder_order :: "nat list \<Rightarrow> (nat \<times> nat) list" where
  "remainder_order rs =
     sort_key (\<lambda>(r, i). (- int r, i)) (zip rs [0..<length rs])"

definition split_by :: "u64 \<Rightarrow> u64 list \<Rightarrow> u64 list" where
  "split_by amount weights =
     (let total = sum_list (map unat weights) in
      if total = 0 then replicate (length weights) 0
      else
        let shares = map (\<lambda>w. word_of_nat (exact_share amount w div total)) weights;
            remainders = map (\<lambda>w. exact_share amount w mod total) weights;
            left = amount - sum_list shares
        in hand_out left (map snd (remainder_order remainders)) shares)"

definition split_evenly :: "u64 \<Rightarrow> nat \<Rightarrow> u64 list" where
  "split_evenly amount n = split_by amount (replicate n 1)"

text \<open>\<open>i64::try_from(amount).unwrap_or(i64::MAX)\<close>\<close>

definition signed_amount :: "u64 \<Rightarrow> i64" where
  "signed_amount amount = (if unat amount < 2 ^ 63 then amount else i64_max)"

lemma sint_signed_amount: "sint (signed_amount a) = min (int (unat a)) 9223372036854775807"
  by (simp add: signed_amount_def sint_eq_unat [of a] min_def del: of_nat_unat)

lemma sint_signed_amount_nonneg [simp]: "0 \<le> sint (signed_amount a)"
  by (simp add: sint_signed_amount)

section \<open>Handing out the rest\<close>

lemma length_hand_out [simp]: "length (hand_out l is xs) = length xs"
  by (induction l "is" xs rule: hand_out.induct) auto

text \<open>The indices are distinct and in range, so each is raised at most once.\<close>

lemma hand_out_nth:
  assumes "distinct is" "\<forall>i\<in>set is. i < length xs" "j < length xs"
  shows "hand_out l is xs ! j = (if j \<in> set (take (unat l) is) then xs ! j + 1 else xs ! j)"
  using assms
proof (induction l "is" xs rule: hand_out.induct)
  case (2 l i "is" xs)
  show ?case
  proof (cases "l = 0")
    case False
    then have "unat l = Suc (unat (l - 1))"
      by (simp add: unat_minus_one unat_gt_0)
    with 2 False show ?thesis
      by (auto simp: nth_list_update dest: in_set_takeD)
  qed simp
qed simp

lemma sum_list_bump:
  "i < length xs \<Longrightarrow> sum_list (xs[i := xs ! i + 1]) = sum_list xs + (1 :: u64)"
  by (induction xs arbitrary: i) (auto simp: nth_Cons split: nat.splits)

lemma sum_list_hand_out:
  "\<lbrakk> distinct is; \<forall>i\<in>set is. i < length xs; unat l \<le> length is \<rbrakk>
     \<Longrightarrow> sum_list (hand_out l is xs) = sum_list xs + l"
proof (induction l "is" xs rule: hand_out.induct)
  case (1 l xs)
  then show ?case by (simp add: unat_0_iff)
next
  case (2 l i "is" xs)
  show ?case
  proof (cases "l = 0")
    case False
    then have "unat (l - 1) \<le> length is"
      using "2.prems"(3) by (simp add: unat_minus_one unat_gt_0)
    with 2 False show ?thesis
      by (simp add: sum_list_bump)
  qed simp
qed

section \<open>The order of the remainders\<close>

lemma set_remainder_order: "set (remainder_order rs) = {(rs ! i, i) | i. i < length rs}"
  by (auto simp: remainder_order_def set_zip)

lemma snd_remainder_order:
  "mset (map snd (remainder_order rs)) = mset [0..<length rs]"
proof -
  have "mset (map snd (remainder_order rs)) = image_mset snd (mset (zip rs [0..<length rs]))"
    by (simp add: remainder_order_def)
  also have "\<dots> = mset (map snd (zip rs [0..<length rs]))"
    by (simp only: mset_map)
  finally show ?thesis by simp
qed

lemma mset_fst_remainder_order: "mset (map fst (remainder_order rs)) = mset rs"
proof -
  have "mset (map fst (remainder_order rs)) = image_mset fst (mset (zip rs [0..<length rs]))"
    by (simp add: remainder_order_def)
  also have "\<dots> = mset (map fst (zip rs [0..<length rs]))"
    by (simp only: mset_map)
  finally show ?thesis by simp
qed

lemma distinct_remainder_order [simp]: "distinct (map snd (remainder_order rs))"
  using snd_remainder_order [of rs] mset_eq_imp_distinct_iff [of _ "[0..<length rs]"] by simp

lemma set_snd_remainder_order [simp]: "snd ` set (remainder_order rs) = {..<length rs}"
  using mset_eq_setD [OF snd_remainder_order [of rs]] by auto

lemma remainder_order_in_range:
  "length rs \<le> n \<Longrightarrow> \<forall>i\<in>set (map snd (remainder_order rs)). i < n"
  by simp

lemma length_remainder_order [simp]: "length (remainder_order rs) = length rs"
  by (simp add: remainder_order_def)

text \<open>A positive remainder comes before every zero remainder.\<close>

lemma remainder_order_sorted:
  "sorted (map (\<lambda>(r, i). (- int r, i)) (remainder_order rs))"
  by (simp add: remainder_order_def)

lemma remainder_order_decreasing:
  assumes "a \<le> b" "b < length rs"
  shows "fst (remainder_order rs ! b) \<le> fst (remainder_order rs ! a)"
proof -
  have "(case remainder_order rs ! a of (r, i) \<Rightarrow> (- int r, i))
      \<le> (case remainder_order rs ! b of (r, i) \<Rightarrow> (- int r, i))"
    using sorted_nth_mono [OF remainder_order_sorted, of a b rs] assms by simp
  then show ?thesis
    by (auto split: prod.splits simp: less_eq_prod_def)
qed

section \<open>Floors and remainders\<close>

lemma sum_list_div_mod:
  "sum_list (map (\<lambda>x. f x div d) xs) * d + sum_list (map (\<lambda>x. f x mod d) xs)
     = (sum_list (map f xs) :: nat)"
  by (induction xs) (simp_all add: algebra_simps)

lemma sum_list_exact_share:
  "sum_list (map (exact_share a) ws) = unat a * sum_list (map unat ws)"
  by (induction ws) (simp_all add: exact_share_def algebra_simps)

lemma exact_share_fits_u128: "exact_share a w < 2 ^ 128"
proof -
  have "unat a * unat w \<le> 18446744073709551615 * 18446744073709551615"
    using unat_lt_u64 [of a] unat_lt_u64 [of w] by (intro mult_le_mono) linarith+
  then show ?thesis by (simp add: exact_share_def)
qed

lemma sum_mod_bound:
  fixes d :: nat
  assumes "0 < d"
  shows "sum_list (map (\<lambda>x. f x mod d) xs) \<le> length (filter (\<lambda>x. f x mod d \<noteq> 0) xs) * (d - 1)"
proof (induction xs)
  case (Cons x xs)
  have "f x mod d \<le> d - 1" using assms by (simp add: Suc_leI [of "f x mod d", unfolded Suc_le_eq] less_Suc_eq_le [symmetric])
  with Cons show ?case by auto
qed simp

text \<open>What is left after rounding down is covered by the weights that were rounded.\<close>

lemma rounding_loss:
  fixes ws :: "u64 list" and a :: u64
  assumes "0 < T" "T = sum_list (map unat ws)"
  defines "q \<equiv> sum_list (map (\<lambda>w. exact_share a w div T) ws)"
  shows "q \<le> unat a" "unat a - q \<le> length (filter (\<lambda>w. exact_share a w mod T \<noteq> 0) ws)"
proof -
  let ?r = "sum_list (map (\<lambda>w. exact_share a w mod T) ws)"
  let ?P = "length (filter (\<lambda>w. exact_share a w mod T \<noteq> 0) ws)"
  have split: "q * T + ?r = unat a * T"
    using sum_list_div_mod [of "exact_share a" T ws] assms(2)
    by (simp add: q_def sum_list_exact_share)
  then have "q * T \<le> unat a * T" by linarith
  then show le: "q \<le> unat a" using assms(1) by simp
  have "(unat a - q) * T = ?r" using split by (simp add: diff_mult_distrib)
  also have "\<dots> \<le> ?P * (T - 1)" using assms(1) by (rule sum_mod_bound)
  also have "\<dots> \<le> ?P * T" by simp
  finally show "unat a - q \<le> ?P" using assms(1) by simp
qed

text \<open>The first positive remainders of the order are those handed out.\<close>

lemma remainder_order_positive:
  assumes "i \<in> set (take k (map snd (remainder_order rs)))" "k \<le> length (filter (\<lambda>r. r \<noteq> 0) rs)"
  shows "rs ! i \<noteq> 0"
proof
  assume zero: "rs ! i = 0"
  let ?o = "remainder_order rs"
  obtain p where p: "p < k" "p < length rs" "snd (?o ! p) = i"
    using assms(1) by (auto simp: in_set_conv_nth)
  have "?o ! p \<in> set ?o" using p by simp
  then have "fst (?o ! p) = rs ! i" using p(3) by (auto simp: set_remainder_order)
  then have tail: "fst (?o ! q) = 0" if "p \<le> q" "q < length rs" for q
    using remainder_order_decreasing [OF that] zero by simp
  have "filter (\<lambda>x. fst x \<noteq> 0) (drop p ?o) = []"
  proof (rule filter_False, rule ballI)
    fix x assume "x \<in> set (drop p ?o)"
    then obtain m where "m < length rs - p" "x = ?o ! (p + m)"
      by (auto simp: in_set_conv_nth)
    then show "\<not> fst x \<noteq> 0" using tail [of "p + m"] by simp
  qed
  then have "length (filter (\<lambda>x. fst x \<noteq> 0) ?o) \<le> p"
    using append_take_drop_id [of p ?o] length_filter_le [of "\<lambda>x. fst x \<noteq> 0" "take p ?o"] p(2)
    by (metis append_Nil2 filter_append length_remainder_order length_take min.absorb4)
  moreover have "mset (map fst ?o) = mset rs"
    by (rule mset_fst_remainder_order)
  then have "size (filter_mset (\<lambda>r. r \<noteq> 0) (mset (map fst ?o))) = size (filter_mset (\<lambda>r. r \<noteq> 0) (mset rs))"
    by simp
  then have "length (filter (\<lambda>x. fst x \<noteq> 0) ?o) = length (filter (\<lambda>r. r \<noteq> 0) rs)"
    by (simp only: flip: mset_filter size_mset) (simp add: filter_map comp_def)
  ultimately show False using p(1) assms(2) by simp
qed

section \<open>The whole split\<close>

lemma total_zero_iff: "sum_list (map unat ws) = 0 \<longleftrightarrow> (\<forall>w\<in>set (ws :: u64 list). w = 0)"
  by (simp add: unat_0_iff)

lemma length_split_by [simp]: "length (split_by a ws) = length ws"
  by (simp add: split_by_def Let_def)

lemma split_by_no_weight: "\<forall>w\<in>set ws. w = 0 \<Longrightarrow> split_by a ws = replicate (length ws) 0"
  using total_zero_iff [of ws] by (simp add: split_by_def)

text \<open>
  Every share is its floor, plus one byte for the indices of a set \<open>S\<close> that is as large as
  the rounding loss and holds only weights that were rounded.
\<close>

lemma split_by_shape:
  fixes ws :: "u64 list" and a :: u64
  assumes "T = sum_list (map unat ws)" "0 < T"
  obtains S where "S \<subseteq> {..<length ws}"
    "card S = unat a - sum_list (map (\<lambda>w. exact_share a w div T) ws)"
    "\<And>i. i \<in> S \<Longrightarrow> exact_share a (ws ! i) mod T \<noteq> 0"
    "\<And>i. i < length ws \<Longrightarrow> unat (split_by a ws ! i)
       = exact_share a (ws ! i) div T + (if i \<in> S then 1 else 0)"
proof
  let ?q = "\<lambda>w. exact_share a w div T" and ?r = "\<lambda>w. exact_share a w mod T"
  let ?shares = "map (\<lambda>w. word_of_nat (?q w) :: u64) ws"
  let ?left = "a - sum_list ?shares"
  let ?o = "map snd (remainder_order (map ?r ws))"
  let ?S = "set (take (unat ?left) ?o)"
  have q_le: "sum_list (map ?q ws) \<le> unat a"
    and left_le: "unat a - sum_list (map ?q ws) \<le> length (filter (\<lambda>w. ?r w \<noteq> 0) ws)"
    using rounding_loss [OF assms(2,1), of a] by simp_all
  have "sum_list (map ?q ws) < 18446744073709551616"
    using q_le unat_lt_u64 [of a] by (rule le_less_trans)
  then have sum_shares: "unat (sum_list ?shares) = sum_list (map ?q ws)"
    by (simp add: sum_list_word_of_nat [of "map ?q ws", simplified comp_def map_map] unat_of_nat)
  then have left: "unat ?left = unat a - sum_list (map ?q ws)"
    using q_le by (simp add: unat_sub word_le_nat_alt)
  have split: "split_by a ws = hand_out ?left ?o ?shares"
    using assms(2) unfolding split_by_def Let_def assms(1) [symmetric] by simp
  have "length (filter (\<lambda>w. ?r w \<noteq> 0) ws) \<le> length ws" by (rule length_filter_le)
  with left left_le have enough: "unat ?left \<le> length ?o"
    unfolding length_map length_remainder_order by linarith
  have range: "\<forall>i\<in>set ?o. i < length ?shares"
    by (rule remainder_order_in_range) simp
  then show "?S \<subseteq> {..<length ws}"
    by (auto dest: in_set_takeD)
  show "card ?S = unat a - sum_list (map ?q ws)"
    using enough left by (simp add: distinct_card distinct_take)
  show "?r (ws ! i) \<noteq> 0" if "i \<in> ?S" for i
  proof -
    have "i < length ws" using that range by (auto dest: in_set_takeD)
    moreover have "map ?r ws ! i \<noteq> 0"
      using remainder_order_positive [OF that] left left_le by (simp add: filter_map comp_def)
    ultimately show ?thesis by simp
  qed
  show "unat (split_by a ws ! i) = ?q (ws ! i) + (if i \<in> ?S then 1 else 0)"
    if i: "i < length ws" for i
  proof -
    have q_i: "?q (ws ! i) \<le> sum_list (map ?q ws)"
      using i by (intro member_le_sum_list) auto
    have nth: "split_by a ws ! i =
        (if i \<in> ?S then word_of_nat (?q (ws ! i)) + 1 else word_of_nat (?q (ws ! i)))"
      unfolding split using hand_out_nth [OF distinct_remainder_order range, of i ?left] i by simp
    show ?thesis
    proof (cases "i \<in> ?S")
      case True
      then have "0 < unat ?left" by (cases "unat ?left") auto
      then have "?q (ws ! i) + 1 < 18446744073709551616"
        using left q_i unat_lt_u64 [of a] by linarith
      with nth True show ?thesis by (simp only: if_True unat_of_nat_add_1)
    next
      case False
      have "?q (ws ! i) < 18446744073709551616"
        using q_i q_le unat_lt_u64 [of a] by linarith
      with nth False show ?thesis by (simp add: unat_of_nat_u64)
    qed
  qed
qed

lemma total_pos: "\<exists>w\<in>set (ws :: u64 list). w \<noteq> 0 \<Longrightarrow> 0 < sum_list (map unat ws)"
  using total_zero_iff [of ws] by (auto simp: unat_gt_0)

lemma sum_list_nth: "sum_list xs = (\<Sum>i<length xs. xs ! i)"
  by (simp add: sum_list_sum_nth atLeast0LessThan)

lemma unat_sum_split_by:
  assumes "\<exists>w\<in>set ws. w \<noteq> 0"
  shows "sum_list (map unat (split_by a ws)) = unat a"
proof -
  define T where "T = sum_list (map unat ws)"
  have pos: "0 < T" using total_pos [OF assms] by (simp add: T_def)
  let ?Q = "sum_list (map (\<lambda>w. exact_share a w div T) ws)"
  obtain S where S: "S \<subseteq> {..<length ws}" "card S = unat a - ?Q"
    and nth: "\<And>i. i < length ws \<Longrightarrow> unat (split_by a ws ! i)
       = exact_share a (ws ! i) div T + (if i \<in> S then 1 else 0)"
    using split_by_shape [OF T_def pos, of a] by metis
  have "sum_list (map unat (split_by a ws))
      = (\<Sum>i<length ws. exact_share a (ws ! i) div T + (if i \<in> S then 1 else 0))"
    by (simp add: sum_list_nth nth)
  also have "\<dots> = (\<Sum>i<length ws. exact_share a (ws ! i) div T) + card S"
    using S(1) by (simp add: sum.distrib sum.If_cases inf_absorb2)
  also have "(\<Sum>i<length ws. exact_share a (ws ! i) div T) = ?Q"
    by (simp add: sum_list_nth)
  finally show ?thesis
    using S(2) rounding_loss(1) [OF pos T_def, of a] by simp
qed

lemma split_by_zero:
  assumes "i < length ws" "ws ! i = 0"
  shows "split_by a ws ! i = 0"
proof (cases "\<exists>w\<in>set ws. w \<noteq> 0")
  case True
  define T where "T = sum_list (map unat ws)"
  have pos: "0 < T" using total_pos [OF True] by (simp add: T_def)
  obtain S where "\<And>i. i \<in> S \<Longrightarrow> exact_share a (ws ! i) mod T \<noteq> 0"
    and nth: "\<And>i. i < length ws \<Longrightarrow> unat (split_by a ws ! i)
       = exact_share a (ws ! i) div T + (if i \<in> S then 1 else 0)"
    using split_by_shape [OF T_def pos, of a] by metis
  then have "i \<notin> S" using assms(2) by (force simp: exact_share_def)
  with nth [OF assms(1)] assms(2) show ?thesis
    by (simp add: exact_share_def unat_0_iff)
qed (use assms in \<open>simp add: split_by_no_weight\<close>)

section \<open>The interface of a fair split\<close>

locale splitter =
  fixes share :: "u64 \<Rightarrow> u64 list \<Rightarrow> u64 list"
  assumes length_share: "length (share a ws) = length ws"
    and share_sum: "\<exists>w\<in>set ws. w \<noteq> 0 \<Longrightarrow> sum_list (map unat (share a ws)) = unat a"
    and share_none: "\<forall>w\<in>set ws. w = 0 \<Longrightarrow> share a ws = replicate (length ws) 0"
    and share_zero: "i < length ws \<Longrightarrow> ws ! i = 0 \<Longrightarrow> share a ws ! i = 0"
begin

lemma share_le: "x \<in> set (share a ws) \<Longrightarrow> unat x \<le> unat a"
proof (cases "\<exists>w\<in>set ws. w \<noteq> 0")
  case True
  assume "x \<in> set (share a ws)"
  then have "unat x \<le> sum_list (map unat (share a ws))"
    by (intro member_le_sum_list) auto
  with True show ?thesis by (simp add: share_sum)
qed (auto simp: share_none)

lemma share_sum_word: "\<exists>w\<in>set ws. w \<noteq> 0 \<Longrightarrow> sum_list (share a ws) = a"
  by (simp add: sum_list_eq_word_of_nat share_sum)

text \<open>Shares booked as signed amounts add up to the amount, when it is not clipped.\<close>

lemma share_sum_signed:
  assumes "\<exists>w\<in>set ws. w \<noteq> 0" "unat a < 2 ^ 63"
  shows "sum_list (map signed_amount (share a ws)) = a"
proof -
  have "map signed_amount (share a ws) = share a ws"
    using assms(2) share_le [of _ a ws] by (intro map_idI) (fastforce simp: signed_amount_def)
  with assms(1) show ?thesis by (simp add: share_sum_word)
qed

end

interpretation by_weight: splitter split_by
  by unfold_locales (simp_all add: unat_sum_split_by split_by_no_weight split_by_zero)

lemma length_split_evenly [simp]: "length (split_evenly a n) = n"
  by (simp add: split_evenly_def)

lemma split_evenly_sum_signed:
  "0 < n \<Longrightarrow> unat a < 2 ^ 63 \<Longrightarrow> sum_list (map signed_amount (split_evenly a n)) = a"
  unfolding split_evenly_def by (rule by_weight.share_sum_signed) auto

text \<open>What a fair split is: nothing is lost, and each part is the exact proportion rounded down or up.\<close>

definition proportional :: "nat \<Rightarrow> nat list \<Rightarrow> nat list \<Rightarrow> bool" where
  "proportional amount ws xs \<longleftrightarrow> length xs = length ws \<and> sum_list xs = amount
     \<and> (\<forall>i<length ws. xs ! i * sum_list ws < amount * ws ! i + sum_list ws
          \<and> amount * ws ! i < (xs ! i + 1) * sum_list ws \<and> (ws ! i = 0 \<longrightarrow> xs ! i = 0))"

lemma split_by_bounds:
  assumes "\<exists>w\<in>set ws. w \<noteq> 0" "i < length ws"
  defines "T \<equiv> sum_list (map unat ws)"
  shows "unat (split_by a ws ! i) * T < unat a * unat (ws ! i) + T"
    "unat a * unat (ws ! i) < (unat (split_by a ws ! i) + 1) * T"
proof -
  have pos: "0 < T" using total_pos [OF assms(1)] by (simp add: T_def)
  let ?x = "exact_share a (ws ! i)"
  obtain S where S: "\<And>i. i \<in> S \<Longrightarrow> exact_share a (ws ! i) mod T \<noteq> 0"
    and nth: "\<And>i. i < length ws \<Longrightarrow> unat (split_by a ws ! i)
       = exact_share a (ws ! i) div T + (if i \<in> S then 1 else 0)"
    using split_by_shape [of T ws a] pos by (metis T_def)
  define q r where "q = ?x div T" and "r = ?x mod T"
  have x: "unat a * unat (ws ! i) = q * T + r" and r: "r < T"
    using pos by (simp_all add: q_def r_def flip: exact_share_def)
  have share: "unat (split_by a ws ! i) = q + (if i \<in> S then 1 else 0)"
    using nth [OF assms(2)] by (simp add: q_def)
  have "i \<in> S \<Longrightarrow> 0 < r" using S [of i] by (simp add: r_def)
  with share r show "unat (split_by a ws ! i) * T < unat a * unat (ws ! i) + T"
    "unat a * unat (ws ! i) < (unat (split_by a ws ! i) + 1) * T"
    unfolding x by (simp_all add: algebra_simps)
qed

lemma split_by_proportional:
  assumes "\<exists>w\<in>set ws. w \<noteq> 0"
  shows "proportional (unat a) (map unat ws) (map unat (split_by a ws))"
  using unat_sum_split_by [OF assms] split_by_bounds [OF assms] split_by_zero [of _ ws a]
  by (simp add: proportional_def unat_0_iff)

lemma split_evenly_proportional:
  "0 < n \<Longrightarrow> proportional (unat a) (replicate n 1) (map unat (split_evenly a n))"
  using split_by_proportional [of "replicate n 1" a] by (simp add: split_evenly_def)

text \<open>C11: the apportionment is fair to the byte.  There is one share per weight; if any weight
  is not zero the shares add up to the amount, without wrapping around; every share is the exact
  proportional share rounded down or up; and a zero weight gets nothing.\<close>

theorem split_by_is_fair:
  assumes "\<exists>w\<in>set ws. w \<noteq> 0"
  defines "T \<equiv> sum_list (map unat ws)"
  shows "length (split_by a ws) = length ws \<and> sum_list (map unat (split_by a ws)) = unat a
    \<and> (\<forall>i<length ws. unat (split_by a ws ! i) * T < unat a * unat (ws ! i) + T
         \<and> unat a * unat (ws ! i) < (unat (split_by a ws ! i) + 1) * T
         \<and> (ws ! i = 0 \<longrightarrow> split_by a ws ! i = 0))"
  using unat_sum_split_by [OF assms(1)] split_by_zero split_by_bounds [OF assms(1)] by (simp add: T_def)

theorem split_by_is_fair_witness:
  "sum_list (map unat (split_by 10 [1, 0, 1, 1])) = 10 \<and> split_by 10 [1, 0, 1, 1] ! 1 = 0
     \<and> 10 < (unat (split_by 10 [1, 0, 1, 1] ! 2) + 1) * 3"
  using split_by_is_fair [of "[1, 0, 1, 1]" 10] by (auto dest!: spec [of _ 1] spec [of _ 2])

end
