(* ===== verification/Provider.thy ===== *)
theory Provider
  imports Prelude
begin

text \<open>
  The traffic packages of the provider (\<open>provider.rs\<close>) and the selection of the packages
  in the configured regions.
\<close>

record package =
  pkg_id :: string
  pkg_name :: string
  pkg_region :: string
  pkg_total :: u64
  pkg_available :: u64
  pkg_status :: string
  pkg_expiry :: string

definition EFFECTIVE :: string where
  "EFFECTIVE = ''Effective''"

definition USED_UP :: string where
  "USED_UP = ''UsedUp''"

definition effective :: "package \<Rightarrow> bool" where
  "effective p \<longleftrightarrow> pkg_status p = EFFECTIVE"

definition used_up :: "package \<Rightarrow> bool" where
  "used_up p \<longleftrightarrow> pkg_status p = USED_UP"

record fetched =
  ft_packages :: "package list"
  ft_ignored :: "package list"

lemma effective_not_used_up: "effective p \<Longrightarrow> \<not> used_up p"
  by (simp add: effective_def used_up_def EFFECTIVE_def USED_UP_def)

end
