(* ===== verification/Ledger.thy ===== *)
theory Ledger
  imports Split Provider
begin

text \<open>
  The balance ledger of remote accounting, \<open>ledger.rs\<close>: the book with its balances,
  baselines and package records, the reconciliation with the provider's packages, transfers
  and allocations.  \<open>reconcile\<close> is the composition of the passes the source runs in order,
  each of them a definition of its own.  A panic (\<open>expect\<close>, an index into a map) is \<open>None\<close>.
\<close>

datatype credit = CreditMigration | CreditSplit | CreditUser string

record package_record =
  rec_package :: package
  rec_credit :: "credit option"

datatype entry_kind = Migration | Credit | Expiry | Transfer | Allocate

definition entry_kind_as_str :: "entry_kind \<Rightarrow> string" where
  "entry_kind_as_str k = (case k of
      Migration \<Rightarrow> ''migration''
    | Credit \<Rightarrow> ''credit''
    | Expiry \<Rightarrow> ''expiry''
    | Transfer \<Rightarrow> ''transfer''
    | Allocate \<Rightarrow> ''allocate'')"

definition entry_kind_parse :: "string \<Rightarrow> entry_kind option" where
  "entry_kind_parse t =
     List.find (\<lambda>k. entry_kind_as_str k = t) [Migration, Credit, Expiry, Transfer, Allocate]"

record entry =
  en_time :: i64
  en_kind :: entry_kind
  en_user :: string
  en_amount :: i64
  en_package :: "string option"
  en_note :: string

record book =
  bk_migrated :: bool
  bk_remaining :: u64
  bk_synced_at :: i64
  bk_consumed :: u64
  bk_metered :: u64
  bk_balances :: "(string, i64) btree"
  bk_baselines :: "(string, u64) btree"
  bk_packages :: "(string, package_record) btree"

definition book_default :: book where
  "book_default = \<lparr> bk_migrated = False, bk_remaining = 0, bk_synced_at = 0, bk_consumed = 0,
     bk_metered = 0, bk_balances = [], bk_baselines = [], bk_packages = [] \<rparr>"

record member =
  mb_name :: string
  mb_used :: u64
  mb_offline_remaining :: "u64 option"

record assignments =
  as_split :: "string set"
  as_owners :: "string \<rightharpoonup> string"
  as_exclusive :: bool

section \<open>Limits and unallocated traffic\<close>

definition book_limit :: "book \<Rightarrow> string \<Rightarrow> u64 option" where
  "book_limit b nm = (case bt_get (bk_baselines b) nm of
      None \<Rightarrow> None
    | Some baseline \<Rightarrow>
        (let balance = (case bt_get (bk_balances b) nm of None \<Rightarrow> 0 | Some v \<Rightarrow> v) in
         Some (saturating_add baseline (if sint balance < 0 then 0 else balance))))"

definition book_limits :: "book \<Rightarrow> string \<rightharpoonup> u64" where
  "book_limits b = map_of (List.map_filter
     (\<lambda>nm. map_option (Pair nm) (book_limit b nm)) (bt_keys (bk_baselines b)))"

definition unallocated :: "book \<Rightarrow> i64" where
  "unallocated b = i64_saturating_sub (signed_amount (bk_remaining b)) (bt_sum (bk_balances b))"

section \<open>Joining and migration\<close>

fun join :: "member list \<Rightarrow> book \<Rightarrow> book" where
  "join [] b = b"
| "join (m # ms) b =
     join ms (b\<lparr> bk_baselines := bt_or_insert (mb_name m) (mb_used m) (bk_baselines b),
                 bk_balances := bt_or_insert (mb_name m) 0 (bk_balances b) \<rparr>)"

fun migrate_members :: "i64 \<Rightarrow> (member \<times> u64) list \<Rightarrow> book \<Rightarrow> book \<times> entry list" where
  "migrate_members now [] b = (b, [])"
| "migrate_members now ((m, share) # ms) b =
     (let b' = b\<lparr> bk_balances := bt_insert (mb_name m) (signed_amount share) (bk_balances b),
                  bk_baselines := bt_insert (mb_name m) (mb_used m) (bk_baselines b) \<rparr>;
          e = \<lparr> en_time = now, en_kind = Migration, en_user = mb_name m,
                en_amount = signed_amount share, en_package = None, en_note = '''' \<rparr>;
          (b'', es) = migrate_members now ms b'
      in (b'', e # es))"

fun migrate_packages :: "package list \<Rightarrow> (string, package_record) btree
    \<Rightarrow> (string, package_record) btree" where
  "migrate_packages [] ps = ps"
| "migrate_packages (p # pks) ps = migrate_packages pks
     (bt_insert (pkg_id p) \<lparr> rec_package = p, rec_credit = Some CreditMigration \<rparr> ps)"

definition migrate_shares :: "u64 \<Rightarrow> member list \<Rightarrow> u64 list" where
  "migrate_shares remaining members =
     (let weights = map (\<lambda>m. case mb_offline_remaining m of None \<Rightarrow> 0 | Some r \<Rightarrow> r) members in
      if (\<exists>w\<in>set weights. w > 0) then split_by remaining weights
      else split_evenly remaining (length members))"

definition migrate :: "package list \<Rightarrow> member list \<Rightarrow> i64 \<Rightarrow> book \<Rightarrow> book \<times> entry list" where
  "migrate packages members now b =
     (let shares = migrate_shares (bk_remaining b) members;
          (b1, entries) = migrate_members now (zip members shares) b
      in (b1\<lparr> bk_packages := migrate_packages packages (bk_packages b1), bk_migrated := True \<rparr>,
          entries))"

section \<open>The passes of a reconciliation\<close>

definition effective_remaining :: "package list \<Rightarrow> u64" where
  "effective_remaining packages = sum_list (map pkg_available (filter effective packages))"

text \<open>Later packages win when an id occurs twice, as with \<open>collect\<close> into a map.\<close>

definition fetched_map :: "package list \<Rightarrow> string \<rightharpoonup> package" where
  "fetched_map packages = map_of (rev (map (\<lambda>p. (pkg_id p, p)) packages))"

text \<open>First pass over the known packages: what is gone, and what of it is forfeited.\<close>

definition expire_one :: "(string \<rightharpoonup> package) \<Rightarrow> string \<Rightarrow> package_record
    \<Rightarrow> package_record \<times> u64 \<times> (string \<times> u64) list" where
  "expire_one fetched pid r =
     (if \<not> effective (rec_package r) then (r, 0, [])
      else let current = fetched pid in
        if (case current of None \<Rightarrow> False | Some p \<Rightarrow> effective p) then (r, 0, [])
        else
          let leftover = (if (case current of None \<Rightarrow> False | Some p \<Rightarrow> used_up p) then 0
                          else pkg_available (rec_package r));
              r' = (if current = None
                    then r\<lparr> rec_package := (rec_package r)\<lparr> pkg_status := ''Missing'' \<rparr> \<rparr> else r)
          in (r', leftover,
              if rec_credit r \<noteq> None \<and> leftover > 0 then [(pid, leftover)] else []))"

fun expire_packages :: "(string \<rightharpoonup> package) \<Rightarrow> (string, package_record) btree \<Rightarrow> u64
    \<Rightarrow> (string, package_record) btree \<times> u64 \<times> (string \<times> u64) list" where
  "expire_packages fetched [] gone = ([], gone, [])"
| "expire_packages fetched ((pid, r) # ps) gone =
     (let (r', leftover, f) = expire_one fetched pid r;
          (ps', gone', fs) = expire_packages fetched ps (gone + leftover)
      in ((pid, r') # ps', gone', f @ fs))"

text \<open>Second pass, over the fetched packages: record them and count what was added.\<close>

fun absorb_packages :: "package list \<Rightarrow> (string, package_record) btree \<Rightarrow> u64
    \<Rightarrow> (string, package_record) btree \<times> u64" where
  "absorb_packages [] ps added = (ps, added)"
| "absorb_packages (p # pks) ps added =
     (case bt_get ps (pkg_id p) of
        Some r \<Rightarrow>
          absorb_packages pks (bt_insert (pkg_id p) (r\<lparr> rec_package := p \<rparr>) ps)
            (if effective p \<and> \<not> effective (rec_package r) then added + pkg_total p else added)
      | None \<Rightarrow>
          absorb_packages pks
            (bt_insert (pkg_id p) \<lparr> rec_package = p, rec_credit = None \<rparr> ps)
            (if effective p then added + pkg_total p else added))"

text \<open>Third pass: credit the effective packages that have not been credited yet.\<close>

definition credit_entry :: "i64 \<Rightarrow> string \<Rightarrow> string \<Rightarrow> u64 \<Rightarrow> entry" where
  "credit_entry now pid user amount = \<lparr> en_time = now, en_kind = Credit, en_user = user,
     en_amount = signed_amount amount, en_package = Some pid, en_note = '''' \<rparr>"

fun credit_all :: "(string \<times> u64) list \<Rightarrow> (string, i64) btree \<Rightarrow> (string, i64) btree" where
  "credit_all [] bal = bal"
| "credit_all ((nm, share) # xs) bal =
     credit_all xs (bt_upsert nm 0 (\<lambda>x. x + signed_amount share) bal)"

definition credit_one :: "i64 \<Rightarrow> assignments \<Rightarrow> string list \<Rightarrow> string \<Rightarrow> package_record
    \<Rightarrow> (string, i64) btree \<Rightarrow> package_record \<times> (string, i64) btree \<times> entry list" where
  "credit_one now a names pid r bal =
     (if rec_credit r \<noteq> None \<or> \<not> effective (rec_package r) then (r, bal, [])
      else
        let total = pkg_total (rec_package r);
            owned = (case as_owners a pid of
                None \<Rightarrow> None | Some owner \<Rightarrow> if owner \<in> set names then Some owner else None)
        in case owned of
          Some owner \<Rightarrow>
            (r\<lparr> rec_credit := Some (CreditUser owner) \<rparr>, credit_all [(owner, total)] bal,
             [credit_entry now pid owner total])
        | None \<Rightarrow>
            if (as_exclusive a \<or> pid \<in> as_split a) \<and> names \<noteq> [] then
              (let shares = zip names (split_evenly total (length names))
               in (r\<lparr> rec_credit := Some CreditSplit \<rparr>, credit_all shares bal,
                   map (\<lambda>(nm, share). credit_entry now pid nm share) shares))
            else (r, bal, []))"

fun credit_packages :: "i64 \<Rightarrow> assignments \<Rightarrow> string list \<Rightarrow> (string, package_record) btree
    \<Rightarrow> (string, i64) btree
    \<Rightarrow> (string, package_record) btree \<times> (string, i64) btree \<times> entry list" where
  "credit_packages now a names [] bal = ([], bal, [])"
| "credit_packages now a names ((pid, r) # ps) bal =
     (let (r', bal1, es) = credit_one now a names pid r bal;
          (ps', bal', es') = credit_packages now a names ps bal1
      in ((pid, r') # ps', bal', es @ es'))"

text \<open>
  Fourth pass: the provider's drop, \<open>(previous + added - gone - remaining).clamp(0, u64::MAX)\<close>
  in \<open>i128\<close>, charged by the usage metered since the baselines.
\<close>

definition consumed_since :: "u64 \<Rightarrow> u64 \<Rightarrow> u64 \<Rightarrow> u64 \<Rightarrow> u64" where
  "consumed_since previous added gone remaining =
     word_of_int (max 0 (min 18446744073709551615
       (int (unat previous) + int (unat added) - int (unat gone) - int (unat remaining))))"

fun metered_usage :: "(string, u64) btree \<Rightarrow> member list \<Rightarrow> u64 list option" where
  "metered_usage baselines [] = Some []"
| "metered_usage baselines (m # ms) =
     do { baseline \<leftarrow> bt_get baselines (mb_name m);
          rest \<leftarrow> metered_usage baselines ms;
          Some (saturating_sub (mb_used m) baseline # rest) }"

fun charge_members :: "(member \<times> u64) list \<Rightarrow> (string, i64) btree \<Rightarrow> (string, i64) btree option" where
  "charge_members [] bal = Some bal"
| "charge_members ((m, charge) # xs) bal =
     do { bal' \<leftarrow> bt_modify (mb_name m) (\<lambda>x. x - signed_amount charge) bal;
          charge_members xs bal' }"

fun set_baselines :: "member list \<Rightarrow> (string, u64) btree \<Rightarrow> (string, u64) btree" where
  "set_baselines [] bs = bs"
| "set_baselines (m # ms) bs = set_baselines ms (bt_insert (mb_name m) (mb_used m) bs)"

text \<open>Fifth pass: leftovers of packages that are gone, taken from the positive balances.\<close>

fun take_shares :: "i64 \<Rightarrow> string \<Rightarrow> (string \<times> u64) list \<Rightarrow> (string, i64) btree
    \<Rightarrow> ((string, i64) btree \<times> entry list) option" where
  "take_shares now pid [] bal = Some (bal, [])"
| "take_shares now pid ((nm, share) # xs) bal =
     (if share = 0 then take_shares now pid xs bal
      else do {
        bal' \<leftarrow> bt_modify nm (\<lambda>x. x - signed_amount share) bal;
        (bal'', es) \<leftarrow> take_shares now pid xs bal';
        Some (bal'', \<lparr> en_time = now, en_kind = Expiry, en_user = nm,
          en_amount = - signed_amount share, en_package = Some pid, en_note = '''' \<rparr> # es) })"

definition holders :: "(string, i64) btree \<Rightarrow> (string \<times> u64) list" where
  "holders bal = filter (\<lambda>(_, b). sint b > 0) bal"

fun forfeit :: "i64 \<Rightarrow> (string \<times> u64) list \<Rightarrow> (string, i64) btree
    \<Rightarrow> ((string, i64) btree \<times> entry list) option" where
  "forfeit now [] bal = Some (bal, [])"
| "forfeit now ((pid, leftover) # fs) bal =
     do { let hs = holders bal;
          (bal', es) \<leftarrow> take_shares now pid (zip (map fst hs) (split_by leftover (map snd hs))) bal;
          (bal'', es') \<leftarrow> forfeit now fs bal';
          Some (bal'', es @ es') }"

text \<open>Last pass: in exclusive mode the only member takes the difference to the provider.\<close>

definition sweep_exclusive :: "i64 \<Rightarrow> assignments \<Rightarrow> member list \<Rightarrow> book \<Rightarrow> (book \<times> entry list) option" where
  "sweep_exclusive now a members b =
     (if as_exclusive a then
        (case members of
           [m] \<Rightarrow>
             (let sweep = unallocated b in
              do { bal \<leftarrow> bt_modify (mb_name m) (\<lambda>x. x + sweep) (bk_balances b);
                   Some (b\<lparr> bk_balances := bal \<rparr>,
                     if sint sweep > 0 then
                       [\<lparr> en_time = now, en_kind = Allocate, en_user = mb_name m,
                          en_amount = sweep, en_package = None, en_note = '''' \<rparr>]
                     else []) })
         | _ \<Rightarrow> Some (b, []))
      else Some (b, []))"

definition reconcile_migrated :: "package list \<Rightarrow> member list \<Rightarrow> assignments \<Rightarrow> i64 \<Rightarrow> u64 \<Rightarrow> book
    \<Rightarrow> (book \<times> entry list) option" where
  "reconcile_migrated packages members a now previous b0 =
     (let b = join members b0;
          remaining = bk_remaining b;
          (ps1, gone, forfeited) = expire_packages (fetched_map packages) (bk_packages b) 0;
          (ps2, added) = absorb_packages packages ps1 0;
          names = map mb_name members;
          (ps3, bal1, credits) = credit_packages now a names ps2 (bk_balances b);
          consumed = consumed_since previous added gone remaining
      in do {
        usage \<leftarrow> metered_usage (bk_baselines b) members;
        let metered = fold (\<lambda>used sum. saturating_add sum used) usage 0;
        bal2 \<leftarrow> (if consumed > 0 \<and> metered > 0
                  then charge_members (zip members (split_by consumed usage)) bal1
                  else Some bal1);
        (bal3, expiries) \<leftarrow> forfeit now forfeited bal2;
        (b', sweeps) \<leftarrow> sweep_exclusive now a members
          (b\<lparr> bk_packages := ps3, bk_balances := bal3,
              bk_baselines := set_baselines members (bk_baselines b),
              bk_consumed := consumed, bk_metered := metered \<rparr>);
        Some (b', credits @ expiries @ sweeps) })"

definition reconcile :: "package list \<Rightarrow> member list \<Rightarrow> assignments \<Rightarrow> i64 \<Rightarrow> book
    \<Rightarrow> (book \<times> entry list) option" where
  "reconcile packages members a now b =
     (let previous = bk_remaining b;
          b1 = b\<lparr> bk_remaining := effective_remaining packages, bk_synced_at := now \<rparr>
      in if \<not> bk_migrated b1
         then Some (migrate packages members now (b1\<lparr> bk_consumed := 0, bk_metered := 0 \<rparr>))
         else reconcile_migrated packages members a now previous b1)"

section \<open>Allocation and transfer\<close>

datatype ledger_error =
    NotSynced
  | NothingUnallocated
  | AllocationNotPositive
  | OnlyUnallocated u64
  | UnknownUser string
  | NoUsersToAllocate
  | TransferNotPositive
  | SameUser
  | HasOnlyLeft string u64

fun allocate_to :: "i64 \<Rightarrow> (string \<times> u64) list \<Rightarrow> (string, i64) btree
    \<Rightarrow> ((string, i64) btree \<times> entry list) option" where
  "allocate_to now [] bal = Some (bal, [])"
| "allocate_to now ((nm, share) # xs) bal =
     do { bal' \<leftarrow> bt_modify nm (\<lambda>x. x + signed_amount share) bal;
          (bal'', es) \<leftarrow> allocate_to now xs bal';
          Some (bal'', \<lparr> en_time = now, en_kind = Allocate, en_user = nm,
            en_amount = signed_amount share, en_package = None, en_note = '''' \<rparr> # es) }"

definition book_allocate :: "member list \<Rightarrow> string option \<Rightarrow> u64 option \<Rightarrow> i64 \<Rightarrow> book
    \<Rightarrow> (book \<times> (ledger_error + entry list)) option" where
  "book_allocate members to amount now b =
     (if \<not> bk_migrated b then Some (b, Inl NotSynced)
      else let available = unallocated b in
        if sint available \<le> 0 then Some (b, Inl NothingUnallocated)
        else let amt = (case amount of None \<Rightarrow> available | Some n \<Rightarrow> n) in
          if amt = 0 then Some (b, Inl AllocationNotPositive)
          else if sint (signed_amount amt) > sint available
          then Some (b, Inl (OnlyUnallocated available))
          else case (case to of
                Some nm \<Rightarrow> if nm \<in> mb_name ` set members then Inr [nm] else Inl (UnknownUser nm)
              | None \<Rightarrow> Inr (map mb_name members)) of
            Inl e \<Rightarrow> Some (b, Inl e)
          | Inr names \<Rightarrow>
              if names = [] then Some (b, Inl NoUsersToAllocate)
              else
                let b1 = join members b in
                do { (bal, es) \<leftarrow> allocate_to now (zip names (split_evenly amt (length names)))
                       (bk_balances b1);
                     Some (b1\<lparr> bk_balances := bal \<rparr>, Inr es) })"

definition find_member :: "string \<Rightarrow> member list \<Rightarrow> member option" where
  "find_member nm members = List.find (\<lambda>m. mb_name m = nm) members"

definition book_transfer :: "member list \<Rightarrow> string \<Rightarrow> string \<Rightarrow> u64 \<Rightarrow> i64 \<Rightarrow> book
    \<Rightarrow> (book \<times> (ledger_error + entry list)) option" where
  "book_transfer members from to amount now b =
     (if \<not> bk_migrated b then Some (b, Inl NotSynced)
      else if amount = 0 then Some (b, Inl TransferNotPositive)
      else if from = to then Some (b, Inl SameUser)
      else case find_member from members of
        None \<Rightarrow> Some (b, Inl (UnknownUser from))
      | Some source \<Rightarrow>
          (case find_member to members of
             None \<Rightarrow> Some (b, Inl (UnknownUser to))
           | Some _ \<Rightarrow>
               let b1 = join members b in
               do { baseline \<leftarrow> bt_get (bk_baselines b1) from;
                    let spent = saturating_sub (mb_used source) baseline;
                    balance \<leftarrow> bt_get (bk_balances b1) from;
                    let available = i64_saturating_sub balance (signed_amount spent);
                    if sint (signed_amount amount) > sint available
                    then Some (b1, Inl (HasOnlyLeft from (if sint available < 0 then 0 else available)))
                    else do {
                      bal1 \<leftarrow> bt_modify from (\<lambda>x. x - signed_amount amount) (bk_balances b1);
                      bal2 \<leftarrow> bt_modify to (\<lambda>x. x + signed_amount amount) bal1;
                      Some (b1\<lparr> bk_balances := bal2 \<rparr>, Inr
                        [\<lparr> en_time = now, en_kind = Transfer, en_user = from,
                           en_amount = - signed_amount amount, en_package = None, en_note = to \<rparr>,
                         \<lparr> en_time = now, en_kind = Transfer, en_user = to,
                           en_amount = signed_amount amount, en_package = None,
                           en_note = from \<rparr>]) } }))"

end
