(* ===== verification/State_Db.thy ===== *)
theory State_Db
  imports Ledger User_Set
begin

text \<open>
  Persistence (\<open>state.rs\<close>).  The database file is its tables, and the SQL of the source is written
  as what it does to them; a transaction that does not commit changes nothing.  The driver is a
  parameter: how it stores an unsigned integer in a signed column and reads it back, how a book is
  encoded, and which of its calls fail, with what message.  Commits are not synced to the disk, so
  the file has a durable image that a checkpoint brings up to date; opening counts the file it
  found and migrated as durable.  \<open>updated_at\<close> is not modelled.
\<close>

section \<open>Tables\<close>

record usage_row =
  ur_upload :: i64
  ur_download :: i64
  ur_settled :: i64
  ur_hour_upload :: i64
  ur_hour_download :: i64
  ur_hour_id :: i64

text \<open>The usage table of a new file, of the four-column schema (user, upload, download), and of today.\<close>

datatype usage_table =
    NoUsage
  | LegacyUsage "(string \<times> i64 \<times> i64) list"
  | HourlyUsage "(string \<times> usage_row) list"

record entry_row =
  er_time :: i64
  er_kind :: string
  er_user :: string
  er_amount :: i64
  er_package :: "string option"
  er_note :: string

record disk =
  dk_usage :: usage_table
  dk_book :: "string option"
  dk_entries :: "entry_row list"

record state_db =
  sd_disk :: disk
  sd_durable :: disk
  sd_last_flushed :: "string \<rightharpoonup> saved_usage"

record driver =
  dr_to_sql :: "u64 \<Rightarrow> i64 option"
  dr_from_sql :: "i64 \<Rightarrow> u64 option"
  dr_encode :: "book \<Rightarrow> string option"
  dr_decode :: "string \<Rightarrow> book option"

datatype db_call =
    CreateDir | OpenFile | SetWal | SetSync | CreateUsage | CreateLedger | TableInfo
  | Begin | Prepare | Execute nat | Commit | Query | Checkpoint

datatype db_error =
    DbFailed db_call string
  | OutOfRange
  | NoColumn
  | InvalidLedger
  | CannotEncode

type_synonym faults = "db_call \<Rightarrow> string option"

definition attempt :: "faults \<Rightarrow> db_call \<Rightarrow> db_error + unit" where
  "attempt fail call = (case fail call of None \<Rightarrow> Inr () | Some e \<Rightarrow> Inl (DbFailed call e))"

fun attempts :: "faults \<Rightarrow> db_call list \<Rightarrow> db_error + unit" where
  "attempts fail [] = Inr ()"
| "attempts fail (c # cs) = (case attempt fail c of Inl e \<Rightarrow> Inl e | Inr _ \<Rightarrow> attempts fail cs)"

section \<open>Opening\<close>

text \<open>\<open>CREATE TABLE IF NOT EXISTS\<close>\<close>

definition create_usage :: "usage_table \<Rightarrow> usage_table" where
  "create_usage t = (case t of NoUsage \<Rightarrow> HourlyUsage [] | _ \<Rightarrow> t)"

definition has_settled :: "usage_table \<Rightarrow> bool" where
  "has_settled t = (case t of HourlyUsage _ \<Rightarrow> True | _ \<Rightarrow> False)"

definition sql_max :: "i64 \<Rightarrow> i64 \<Rightarrow> i64" where
  "sql_max a b = (if sint a < sint b then b else a)"

definition add_columns :: "usage_table \<Rightarrow> usage_table" where
  "add_columns t = (case t of
      LegacyUsage rows \<Rightarrow> HourlyUsage (map (\<lambda>(nm, up, down). (nm, \<lparr> ur_upload = up, ur_download = down,
        ur_settled = sql_max up down, ur_hour_upload = 0, ur_hour_download = 0, ur_hour_id = 0 \<rparr>)) rows)
    | _ \<Rightarrow> t)"

definition migrate_usage :: "faults \<Rightarrow> disk \<Rightarrow> disk \<times> (db_error + unit)" where
  "migrate_usage fail d =
     (case attempt fail TableInfo of
        Inl e \<Rightarrow> (d, Inl e)
      | Inr _ \<Rightarrow>
          if has_settled (dk_usage d) then (d, Inr ())
          else (case attempts fail [Begin, Execute 0, Commit] of
              Inl e \<Rightarrow> (d, Inl e)
            | Inr _ \<Rightarrow> (d\<lparr> dk_usage := add_columns (dk_usage d) \<rparr>, Inr ())))"

definition open_db :: "faults \<Rightarrow> disk \<Rightarrow> disk \<times> (db_error + state_db)" where
  "open_db fail d =
     (case attempts fail [CreateDir, OpenFile, SetWal, SetSync, CreateUsage] of
        Inl e \<Rightarrow> (d, Inl e)
      | Inr _ \<Rightarrow>
          (let d1 = d\<lparr> dk_usage := create_usage (dk_usage d) \<rparr> in
           case attempt fail CreateLedger of
             Inl e \<Rightarrow> (d1, Inl e)
           | Inr _ \<Rightarrow>
               (case migrate_usage fail d1 of
                  (d2, Inl e) \<Rightarrow> (d2, Inl e)
                | (d2, Inr _) \<Rightarrow>
                    (d2, Inr \<lparr> sd_disk = d2, sd_durable = d2, sd_last_flushed = Map.empty \<rparr>))))"

section \<open>Usage\<close>

definition read_row :: "driver \<Rightarrow> usage_row \<Rightarrow> saved_usage option" where
  "read_row dr row = do {
     up \<leftarrow> dr_from_sql dr (ur_upload row);
     down \<leftarrow> dr_from_sql dr (ur_download row);
     settled \<leftarrow> dr_from_sql dr (ur_settled row);
     hour_up \<leftarrow> dr_from_sql dr (ur_hour_upload row);
     hour_down \<leftarrow> dr_from_sql dr (ur_hour_download row);
     Some \<lparr> sv_upload = up, sv_download = down, sv_settled = settled, sv_hour_upload = hour_up,
            sv_hour_download = hour_down, sv_hour_id = ur_hour_id row \<rparr> }"

definition write_row :: "driver \<Rightarrow> saved_usage \<Rightarrow> usage_row option" where
  "write_row dr s = do {
     up \<leftarrow> dr_to_sql dr (sv_upload s);
     down \<leftarrow> dr_to_sql dr (sv_download s);
     settled \<leftarrow> dr_to_sql dr (sv_settled s);
     hour_up \<leftarrow> dr_to_sql dr (sv_hour_upload s);
     hour_down \<leftarrow> dr_to_sql dr (sv_hour_download s);
     Some \<lparr> ur_upload = up, ur_download = down, ur_settled = settled, ur_hour_upload = hour_up,
            ur_hour_download = hour_down, ur_hour_id = sv_hour_id s \<rparr> }"

fun load_rows :: "driver \<Rightarrow> (string \<times> usage_row) list \<Rightarrow> (string \<rightharpoonup> saved_usage) \<Rightarrow> db_error + (string \<rightharpoonup> saved_usage)" where
  "load_rows dr [] m = Inr m"
| "load_rows dr ((nm, row) # rows) m = (case read_row dr row of
      None \<Rightarrow> Inl OutOfRange
    | Some s \<Rightarrow> load_rows dr rows (m(nm \<mapsto> s)))"

definition load :: "driver \<Rightarrow> faults \<Rightarrow> state_db \<Rightarrow> db_error + (string \<rightharpoonup> saved_usage)" where
  "load dr fail db =
     (case attempts fail [Prepare, Query] of
        Inl e \<Rightarrow> Inl e
      | Inr _ \<Rightarrow> (case dk_usage (sd_disk db) of
            HourlyUsage rows \<Rightarrow> load_rows dr rows Map.empty
          | _ \<Rightarrow> Inl NoColumn))"

text \<open>\<open>INSERT .. ON CONFLICT(user) DO UPDATE\<close>\<close>

fun upsert_row :: "string \<Rightarrow> usage_row \<Rightarrow> (string \<times> usage_row) list \<Rightarrow> (string \<times> usage_row) list" where
  "upsert_row nm row [] = [(nm, row)]"
| "upsert_row nm row ((nm', row') # rows) =
     (if nm = nm' then (nm, row) # rows else (nm', row') # upsert_row nm row rows)"

fun write_dirty :: "driver \<Rightarrow> faults \<Rightarrow> nat \<Rightarrow> (string \<times> saved_usage) list \<Rightarrow> (string \<times> usage_row) list
    \<Rightarrow> db_error + (string \<times> usage_row) list" where
  "write_dirty dr fail i [] rows = Inr rows"
| "write_dirty dr fail i ((nm, s) # dirty) rows =
     (case write_row dr s of
        None \<Rightarrow> Inl OutOfRange
      | Some row \<Rightarrow>
          (case attempt fail (Execute i) of
             Inl e \<Rightarrow> Inl e
           | Inr _ \<Rightarrow> write_dirty dr fail (Suc i) dirty (upsert_row nm row rows)))"

definition dirty_users :: "(string \<rightharpoonup> saved_usage) \<Rightarrow> user_quota list \<Rightarrow> (string \<times> saved_usage) list" where
  "dirty_users flushed users =
     filter (\<lambda>(nm, snap). flushed nm \<noteq> Some snap) (map (\<lambda>q. (q_name q, snapshot q)) users)"

definition flush :: "driver \<Rightarrow> faults \<Rightarrow> user_quota list \<Rightarrow> state_db \<Rightarrow> state_db \<times> (db_error + unit)" where
  "flush dr fail users db =
     (let dirty = dirty_users (sd_last_flushed db) users in
      if dirty = [] then (db, Inr ())
      else case attempts fail [Begin, Prepare] of
        Inl e \<Rightarrow> (db, Inl e)
      | Inr _ \<Rightarrow>
          (case dk_usage (sd_disk db) of
             HourlyUsage rows \<Rightarrow>
               (case write_dirty dr fail 0 dirty rows of
                  Inl e \<Rightarrow> (db, Inl e)
                | Inr rows' \<Rightarrow>
                    (case attempt fail Commit of
                       Inl e \<Rightarrow> (db, Inl e)
                     | Inr _ \<Rightarrow> (db\<lparr> sd_disk := (sd_disk db)\<lparr> dk_usage := HourlyUsage rows' \<rparr>,
                           sd_last_flushed := sd_last_flushed db ++ map_of (rev dirty) \<rparr>, Inr ())))
           | _ \<Rightarrow> (db, Inl NoColumn)))"

section \<open>The ledger\<close>

definition load_book :: "driver \<Rightarrow> faults \<Rightarrow> state_db \<Rightarrow> db_error + book option" where
  "load_book dr fail db =
     (case attempt fail Query of
        Inl e \<Rightarrow> Inl e
      | Inr _ \<Rightarrow>
          (case dk_book (sd_disk db) of
             None \<Rightarrow> Inr None
           | Some raw \<Rightarrow> (case dr_decode dr raw of None \<Rightarrow> Inl InvalidLedger | Some b \<Rightarrow> Inr (Some b))))"

definition entry_to_row :: "entry \<Rightarrow> entry_row" where
  "entry_to_row e = \<lparr> er_time = en_time e, er_kind = entry_kind_as_str (en_kind e), er_user = en_user e,
     er_amount = en_amount e, er_package = en_package e, er_note = en_note e \<rparr>"

definition save_book :: "driver \<Rightarrow> faults \<Rightarrow> book \<Rightarrow> entry list \<Rightarrow> state_db \<Rightarrow> state_db \<times> (db_error + unit)" where
  "save_book dr fail b entries db =
     (case dr_encode dr b of
        None \<Rightarrow> (db, Inl CannotEncode)
      | Some json \<Rightarrow>
          (case attempts fail ([Begin, Execute 0, Prepare] @ map (\<lambda>i. Execute (Suc i)) [0..<length entries] @ [Commit]) of
             Inl e \<Rightarrow> (db, Inl e)
           | Inr _ \<Rightarrow> (db\<lparr> sd_disk := (sd_disk db)\<lparr> dk_book := Some json,
                 dk_entries := dk_entries (sd_disk db) @ map entry_to_row entries \<rparr> \<rparr>, Inr ())))"

definition row_to_entry :: "entry_row \<Rightarrow> entry option" where
  "row_to_entry r = map_option (\<lambda>k. \<lparr> en_time = er_time r, en_kind = k, en_user = er_user r,
     en_amount = er_amount r, en_package = er_package r, en_note = er_note r \<rparr>) (entry_kind_parse (er_kind r))"

text \<open>\<open>ORDER BY id DESC LIMIT n\<close>, unknown kinds skipped, then reversed.\<close>

definition recent_entries :: "faults \<Rightarrow> nat \<Rightarrow> state_db \<Rightarrow> db_error + entry list" where
  "recent_entries fail limit db =
     (case attempts fail [Prepare, Query] of
        Inl e \<Rightarrow> Inl e
      | Inr _ \<Rightarrow> Inr (rev (List.map_filter row_to_entry (take limit (rev (dk_entries (sd_disk db)))))))"

definition checkpoint :: "faults \<Rightarrow> state_db \<Rightarrow> state_db \<times> (db_error + unit)" where
  "checkpoint fail db =
     (case attempt fail Checkpoint of
        Inl e \<Rightarrow> (db, Inl e)
      | Inr _ \<Rightarrow> (db\<lparr> sd_durable := sd_disk db \<rparr>, Inr ()))"

section \<open>The flush task\<close>

datatype wake = Tick | HourPassed | Shutdown

definition flush_turn :: "driver \<Rightarrow> faults \<Rightarrow> wake \<Rightarrow> user_quota list \<Rightarrow> state_db \<Rightarrow> state_db" where
  "flush_turn dr fail w users db =
     (case flush dr fail users db of
        (db1, Inl e) \<Rightarrow> db1
      | (db1, Inr _) \<Rightarrow> if w = Tick then db1 else fst (checkpoint fail db1))"

text \<open>The loop; the flag says whether the task has returned.\<close>

fun run_flush_task :: "driver \<Rightarrow> (wake \<times> faults \<times> user_quota list) list \<Rightarrow> state_db \<Rightarrow> state_db \<times> bool" where
  "run_flush_task dr [] db = (db, False)"
| "run_flush_task dr ((w, fail, users) # ws) db =
     (let db' = flush_turn dr fail w users db in
      if w = Shutdown then (db', True) else run_flush_task dr ws db')"

definition next_checkpoint_deadline :: "u64 \<Rightarrow> i64 \<Rightarrow> u64" where
  "next_checkpoint_deadline now_secs local = now_secs + (secs_until_next_hour local + 3)"

section \<open>What the driver promises\<close>

definition driver_ok :: "driver \<Rightarrow> bool" where
  "driver_ok dr \<longleftrightarrow> (\<forall>v w. dr_to_sql dr v = Some w \<longrightarrow> dr_from_sql dr w = Some v)
     \<and> (\<forall>b s. dr_encode dr b = Some s \<longrightarrow> dr_decode dr s = Some b)"

definition no_faults :: faults where
  "no_faults call = None"

lemma attempt_no_faults [simp]: "attempt no_faults c = Inr ()" "attempts no_faults cs = Inr ()"
  by (induction cs) (simp_all add: attempt_def no_faults_def)

lemma read_write_row: "driver_ok dr \<Longrightarrow> write_row dr s = Some row \<Longrightarrow> read_row dr row = Some s"
  by (auto simp: write_row_def read_row_def driver_ok_def bind_eq_Some_conv)

section \<open>The table as a map\<close>

definition rows_view :: "driver \<Rightarrow> (string \<times> usage_row) list \<Rightarrow> string \<rightharpoonup> saved_usage" where
  "rows_view dr rows nm = Option.bind (map_of rows nm) (read_row dr)"

definition rows_ok :: "driver \<Rightarrow> (string \<times> usage_row) list \<Rightarrow> bool" where
  "rows_ok dr rows \<longleftrightarrow> distinct (map fst rows) \<and> (\<forall>(nm, row)\<in>set rows. read_row dr row \<noteq> None)"

definition usage_of :: "driver \<Rightarrow> state_db \<Rightarrow> string \<rightharpoonup> saved_usage" where
  "usage_of dr db = (case dk_usage (sd_disk db) of HourlyUsage rows \<Rightarrow> rows_view dr rows | _ \<Rightarrow> Map.empty)"

text \<open>A database between operations: readable rows, and the memory of the last flush is what they hold.\<close>

definition db_inv :: "driver \<Rightarrow> state_db \<Rightarrow> bool" where
  "db_inv dr db \<longleftrightarrow> (\<exists>rows. dk_usage (sd_disk db) = HourlyUsage rows \<and> rows_ok dr rows)
     \<and> sd_last_flushed db \<subseteq>\<^sub>m usage_of dr db"

lemma load_rows_view: "rows_ok dr rows \<Longrightarrow> load_rows dr rows m = Inr (m ++ rows_view dr rows)"
proof (induction rows arbitrary: m)
  case Nil
  then show ?case by (simp add: rows_view_def map_add_def fun_eq_iff)
next
  case (Cons p rows)
  obtain nm row where p: "p = (nm, row)" by fastforce
  from Cons.prems obtain s where s: "read_row dr row = Some s" and ok: "rows_ok dr rows"
    by (auto simp: p rows_ok_def)
  have "nm \<notin> fst ` set rows" using Cons.prems by (auto simp: p rows_ok_def)
  then have "map_of rows nm = None" by (simp add: map_of_eq_None_iff)
  then have "m(nm \<mapsto> s) ++ rows_view dr rows = m ++ rows_view dr (p # rows)"
    using s by (auto simp: p rows_view_def map_add_def fun_eq_iff split: option.splits)
  with s Cons.IH [OF ok, of "m(nm \<mapsto> s)"] show ?case by (simp add: p fun_upd_def)
qed

lemma load_view: "db_inv dr db \<Longrightarrow> load dr no_faults db = Inr (usage_of dr db)"
  by (auto simp: load_def db_inv_def usage_of_def load_rows_view)

lemma map_of_upsert: "map_of (upsert_row nm row rows) = (map_of rows)(nm \<mapsto> row)"
  by (induction rows) (auto simp: fun_eq_iff)

lemma upsert_keys: "fst ` set (upsert_row nm row rows) = insert nm (fst ` set rows)"
  by (induction rows) (force split: if_split)+

lemma upsert_set: "set (upsert_row nm row rows) \<subseteq> insert (nm, row) (set rows)"
  by (induction rows) (auto split: if_splits)

lemma upsert_rows_ok:
  assumes "rows_ok dr rows" "read_row dr row \<noteq> None"
  shows "rows_ok dr (upsert_row nm row rows)"
proof -
  have "distinct (map fst rows) \<Longrightarrow> distinct (map fst (upsert_row nm row rows))"
    by (induction rows) (auto simp: upsert_keys)
  with assms upsert_set [of nm row rows] show ?thesis unfolding rows_ok_def by fastforce
qed

lemma write_dirty_view:
  assumes "driver_ok dr" "rows_ok dr rows" "write_dirty dr fail i dirty rows = Inr rows'"
  shows "rows_ok dr rows' \<and> rows_view dr rows' = rows_view dr rows ++ map_of (rev dirty)"
  using assms(2,3)
proof (induction dirty arbitrary: i rows)
  case Nil
  then show ?case by simp
next
  case (Cons p dirty)
  obtain nm s where p: "p = (nm, s)" by fastforce
  from Cons.prems obtain row where row: "write_row dr s = Some row"
    and rest: "write_dirty dr fail (Suc i) dirty (upsert_row nm row rows) = Inr rows'"
    by (auto simp: p split: option.splits sum.splits)
  have read: "read_row dr row = Some s" by (rule read_write_row [OF assms(1) row])
  then have "rows_view dr (upsert_row nm row rows) = (rows_view dr rows)(nm \<mapsto> s)"
    by (simp add: rows_view_def map_of_upsert fun_eq_iff)
  with Cons.IH [OF upsert_rows_ok [OF Cons.prems(1)] rest] read show ?case
    by (simp add: p map_add_upd_left [symmetric] map_add_def fun_eq_iff split: option.splits)
qed

section \<open>Flushing\<close>

definition snapshots :: "user_quota list \<Rightarrow> string \<rightharpoonup> saved_usage" where
  "snapshots users = map_of (map (\<lambda>q. (q_name q, snapshot q)) users)"

lemma map_of_filter_distinct:
  "distinct (map fst ps) \<Longrightarrow> map_of (filter P ps) k
     = (case map_of ps k of None \<Rightarrow> None | Some v \<Rightarrow> if P (k, v) then Some v else None)"
proof (induction ps)
  case (Cons p ps)
  obtain k' v where p: "p = (k', v)" by fastforce
  have "map_of ps k' = None" using Cons.prems by (auto simp: p map_of_eq_None_iff)
  with Cons show ?case by (auto simp: p split: option.splits)
qed simp

lemma dirty_map:
  assumes "distinct (map q_name users)" "flushed \<subseteq>\<^sub>m m"
  shows "m ++ map_of (rev (dirty_users flushed users)) = m ++ snapshots users"
proof
  fix nm
  let ?ps = "map (\<lambda>q. (q_name q, snapshot q)) users"
  have dist: "distinct (map fst ?ps)" using assms(1) by (simp add: comp_def)
  then have "distinct (map fst (dirty_users flushed users))"
    unfolding dirty_users_def by (rule distinct_map_filter)
  then have rev: "map_of (rev (dirty_users flushed users)) = map_of (dirty_users flushed users)"
    by (rule map_of_rev_same)
  have "map_of (dirty_users flushed users) nm
      = (case snapshots users nm of None \<Rightarrow> None | Some s \<Rightarrow> if flushed nm = Some s then None else Some s)"
    unfolding dirty_users_def snapshots_def map_of_filter_distinct [OF dist]
    by (auto split: option.splits)
  with assms(2) show "(m ++ map_of (rev (dirty_users flushed users))) nm = (m ++ snapshots users) nm"
    by (auto simp: rev map_add_def map_le_def dom_def split: option.splits)
qed

lemma flush_cases:
  assumes "driver_ok dr" "db_inv dr db" "distinct (map q_name users)" "flush dr fail users db = (db', r)"
  shows "db_inv dr db' \<and> sd_durable db' = sd_durable db
    \<and> dk_book (sd_disk db') = dk_book (sd_disk db) \<and> dk_entries (sd_disk db') = dk_entries (sd_disk db)
    \<and> (r = Inr () \<longrightarrow> usage_of dr db' = usage_of dr db ++ snapshots users)
    \<and> (r \<noteq> Inr () \<longrightarrow> db' = db)"
proof -
  let ?dirty = "dirty_users (sd_last_flushed db) users"
  obtain rows where rows: "dk_usage (sd_disk db) = HourlyUsage rows" "rows_ok dr rows"
    and le: "sd_last_flushed db \<subseteq>\<^sub>m usage_of dr db"
    using assms(2) by (auto simp: db_inv_def)
  note dirty = dirty_map [OF assms(3) le]
  show ?thesis
  proof (cases "?dirty = [] \<or> r \<noteq> Inr ()")
    case True
    then have "db' = db"
      using assms(4) rows(1) by (auto simp: flush_def Let_def split: if_splits sum.splits)
    with True assms(2) dirty show ?thesis by auto
  next
    case False
    then obtain rows' where w: "write_dirty dr fail 0 ?dirty rows = Inr rows'" and r: "r = Inr ()"
      and db': "db' = db\<lparr> sd_disk := (sd_disk db)\<lparr> dk_usage := HourlyUsage rows' \<rparr>,
        sd_last_flushed := sd_last_flushed db ++ map_of (rev ?dirty) \<rparr>"
      using assms(4) rows(1) by (auto simp: flush_def Let_def split: if_splits sum.splits)
    note view = write_dirty_view [OF assms(1) rows(2) w]
    have usage: "usage_of dr db' = usage_of dr db ++ map_of (rev ?dirty)"
      using view rows(1) by (simp add: usage_of_def db')
    have "sd_last_flushed db ++ map_of (rev ?dirty) \<subseteq>\<^sub>m usage_of dr db ++ map_of (rev ?dirty)"
      using le by (auto simp: map_le_def map_add_def dom_def split: option.splits)
    with view usage have "db_inv dr db'" by (simp add: db_inv_def db')
    with usage dirty r show ?thesis by (simp add: db')
  qed
qed

text \<open>C30: flushing only what changed writes what flushing everything would write.  Whatever the last
  flush remembered, a flush that succeeds leaves the stored usage overwritten with the current
  snapshot of every user, as loading it shows; a flush that fails, at whatever call, changes
  neither the file nor what is remembered.\<close>

theorem flush_refines_write_all:
  assumes "driver_ok dr" "db_inv dr db" "distinct (map q_name users)"
    "load dr no_faults db = Inr before" "flush dr fail users db = (db', r)"
  shows "db_inv dr db' \<and> (r = Inr () \<longrightarrow> load dr no_faults db' = Inr (before ++ snapshots users))
    \<and> (r \<noteq> Inr () \<longrightarrow> db' = db)"
  using flush_cases [OF assms(1-3,5)] assms(2,4) by (auto simp: load_view)

section \<open>A restart\<close>

lemma checkpoint_frame:
  "sd_disk (fst (checkpoint fail db)) = sd_disk db \<and> sd_last_flushed (fst (checkpoint fail db)) = sd_last_flushed db"
  by (auto simp: checkpoint_def split: sum.splits)

lemma db_inv_checkpoint: "db_inv dr (fst (checkpoint fail db)) = db_inv dr db"
  by (simp add: db_inv_def usage_of_def checkpoint_frame)

lemma flush_turn_inv:
  assumes "driver_ok dr" "db_inv dr db" "distinct (map q_name users)"
  shows "db_inv dr (flush_turn dr fail w users db)"
proof -
  obtain db1 r where f: "flush dr fail users db = (db1, r)" by fastforce
  have "db_inv dr db1" using flush_cases [OF assms f] by blast
  then show ?thesis using db_inv_checkpoint [of dr fail db1] by (simp add: flush_turn_def f split: sum.splits)
qed

lemma write_dirty_no_faults:
  "\<forall>(nm, s)\<in>set dirty. write_row dr s \<noteq> None \<Longrightarrow> \<exists>rows'. write_dirty dr no_faults i dirty rows = Inr rows'"
  by (induction dirty arbitrary: i rows) auto

lemma flush_no_faults:
  assumes "db_inv dr db" "\<forall>q\<in>set users. write_row dr (snapshot q) \<noteq> None"
  shows "snd (flush dr no_faults users db) = Inr ()"
proof -
  let ?dirty = "dirty_users (sd_last_flushed db) users"
  obtain rows where rows: "dk_usage (sd_disk db) = HourlyUsage rows" using assms(1) by (auto simp: db_inv_def)
  have "\<forall>(nm, s)\<in>set ?dirty. write_row dr s \<noteq> None" using assms(2) by (auto simp: dirty_users_def)
  from write_dirty_no_faults [OF this, of 0 rows] show ?thesis by (auto simp: flush_def rows Let_def)
qed

lemma open_hourly:
  "dk_usage d = HourlyUsage rows \<Longrightarrow>
     open_db no_faults d = (d, Inr \<lparr> sd_disk = d, sd_durable = d, sd_last_flushed = Map.empty \<rparr>)"
  by (simp add: open_db_def migrate_usage_def create_usage_def has_settled_def Let_def)

lemma db_inv_reopened:
  assumes "db_inv dr db"
  defines "db2 \<equiv> \<lparr> sd_disk = sd_disk db, sd_durable = sd_disk db, sd_last_flushed = Map.empty \<rparr>"
  shows "db_inv dr db2 \<and> usage_of dr db2 = usage_of dr db \<and> open_db no_faults (sd_disk db) = (sd_disk db, Inr db2)"
  using assms(1) by (auto simp: db_inv_def usage_of_def db2_def open_hourly)

lemma run_flush_task_append:
  assumes "driver_ok dr" "db_inv dr db"
    "\<forall>(w, fail, us)\<in>set ws. w \<noteq> Shutdown \<and> distinct (map q_name us)"
  shows "\<exists>db1. db_inv dr db1 \<and> run_flush_task dr (ws @ ws') db = run_flush_task dr ws' db1"
  using assms(2,3)
proof (induction ws arbitrary: db)
  case (Cons t ws)
  obtain w fail us where t: "t = (w, fail, us)" using prod_cases3 by blast
  from Cons.prems(2) have "w \<noteq> Shutdown" "distinct (map q_name us)" by (auto simp: t)
  with Cons.IH [OF flush_turn_inv [OF assms(1) Cons.prems(1)]] Cons.prems(2) show ?case by (simp add: t)
qed auto

lemma final_flush:
  assumes "driver_ok dr" "db_inv dr db" "distinct (map q_name users)" "\<forall>q\<in>set users. write_row dr (snapshot q) \<noteq> None"
  defines "db' \<equiv> flush_turn dr no_faults Shutdown users db"
  shows "db_inv dr db'" "sd_durable db' = sd_disk db'" "usage_of dr db' = usage_of dr db ++ snapshots users"
    "dk_book (sd_disk db') = dk_book (sd_disk db)" "dk_entries (sd_disk db') = dk_entries (sd_disk db)"
proof -
  obtain db1 where f: "flush dr no_faults users db = (db1, Inr ())"
    using flush_no_faults [OF assms(2,4)] by (metis prod.collapse)
  note flushed = flush_cases [OF assms(1-3) f]
  have db': "db' = db1\<lparr> sd_durable := sd_disk db1 \<rparr>"
    by (simp add: db'_def flush_turn_def f checkpoint_def)
  show "sd_durable db' = sd_disk db'" by (simp add: db')
  have "db_inv dr db' = db_inv dr db1" "usage_of dr db' = usage_of dr db1" by (simp_all add: db' db_inv_def usage_of_def)
  with flushed show "db_inv dr db'" "usage_of dr db' = usage_of dr db ++ snapshots users"
    "dk_book (sd_disk db') = dk_book (sd_disk db)" "dk_entries (sd_disk db') = dk_entries (sd_disk db)"
    by (simp_all add: db')
qed

lemma snapshots_of: "distinct (map q_name users) \<Longrightarrow> q \<in> set users \<Longrightarrow> snapshots users (q_name q) = Some (snapshot q)"
  by (auto simp: snapshots_def comp_def intro!: map_of_is_SomeI)

text \<open>A clean shutdown loses nothing, even when the power goes out right after it: whatever happened to
  earlier flushes, after the task has seen the shutdown the durable image, opened again, holds the
  last snapshot of every user.\<close>

lemma shutdown_makes_usage_durable:
  assumes "driver_ok dr" "db_inv dr db"
    "\<forall>(w, fail, us)\<in>set ws. w \<noteq> Shutdown \<and> distinct (map q_name us)"
    "distinct (map q_name users)" "\<forall>q\<in>set users. write_row dr (snapshot q) \<noteq> None"
    "run_flush_task dr (ws @ [(Shutdown, no_faults, users)]) db = (db', stopped)"
  shows "stopped \<and> (\<exists>db2 saved. open_db no_faults (sd_durable db') = (sd_durable db', Inr db2)
    \<and> load dr no_faults db2 = Inr saved \<and> (\<forall>q\<in>set users. saved (q_name q) = Some (snapshot q)))"
proof -
  obtain db1 where inv: "db_inv dr db1"
    and run: "run_flush_task dr (ws @ [(Shutdown, no_faults, users)]) db
      = run_flush_task dr [(Shutdown, no_faults, users)] db1"
    using run_flush_task_append [OF assms(1-3)] by blast
  then have db': "db' = flush_turn dr no_faults Shutdown users db1" "stopped" using assms(6) by (simp_all add: Let_def)
  note flushed = final_flush [OF assms(1) inv assms(4,5), folded db'(1)]
  from db_inv_reopened [OF flushed(1)] obtain db2 where
    db2: "db_inv dr db2" "usage_of dr db2 = usage_of dr db'" "open_db no_faults (sd_disk db') = (sd_disk db', Inr db2)" by blast
  have "usage_of dr db2 (q_name q) = Some (snapshot q)" if "q \<in> set users" for q
    using snapshots_of [OF assms(4) that] by (simp add: db2(2) flushed(3) map_add_Some_iff)
  with db2 db'(2) load_view [OF db2(1)] show ?thesis by (auto simp: flushed(2))
qed

section \<open>Old files\<close>

text \<open>A four-column file is upgraded so that its users are billed the larger of their totals.\<close>

lemma legacy_usage_settled:
  assumes "\<forall>w. 0 \<le> sint w \<longrightarrow> dr_from_sql dr w = Some w" "distinct (map fst rows)"
    "\<forall>(nm, up, down)\<in>set rows. 0 \<le> sint up \<and> 0 \<le> sint down"
    "open_db no_faults (d\<lparr> dk_usage := LegacyUsage rows \<rparr>) = (d', Inr db)" "(nm, up, down) \<in> set rows"
  shows "\<exists>saved s. load dr no_faults db = Inr saved \<and> saved nm = Some s \<and> sv_upload s = up \<and> sv_download s = down
    \<and> used (new_metered_at nm l s m h) = sql_max up down"
proof -
  let ?new = "\<lambda>(up, down). \<lparr> ur_upload = up, ur_download = down, ur_settled = sql_max up down,
    ur_hour_upload = 0, ur_hour_download = 0, ur_hour_id = 0 \<rparr>"
  define rows' where "rows' = map (\<lambda>(nm, r). (nm, ?new r)) rows"
  have rows': "dk_usage (sd_disk db) = HourlyUsage rows'"
    using assms(4) by (auto simp: open_db_def migrate_usage_def create_usage_def has_settled_def add_columns_def
        Let_def rows'_def case_prod_beta)
  have read: "read_row dr (?new (a, b)) = Some \<lparr> sv_upload = a, sv_download = b, sv_settled = sql_max a b,
      sv_hour_upload = 0, sv_hour_download = 0, sv_hour_id = 0 \<rparr>" if "0 \<le> sint a" "0 \<le> sint b" for a b
    using that assms(1) by (simp add: read_row_def sql_max_def)
  have keys: "map fst rows' = map fst rows" by (simp add: rows'_def case_prod_beta comp_def)
  have "rows_ok dr rows'"
    using assms(2,3) read unfolding rows_ok_def keys by (auto simp: rows'_def)
  then have "load dr no_faults db = Inr (rows_view dr rows')"
    by (simp add: load_def rows' load_rows_view)
  moreover have "map_of rows' nm = Some (?new (up, down))"
  proof (rule map_of_is_SomeI)
    show "distinct (map fst rows')" using assms(2) keys by simp
    show "(nm, ?new (up, down)) \<in> set rows'" using assms(5) by (force simp: rows'_def)
  qed
  ultimately show ?thesis using read [of up down] assms(3,5) by (auto simp: rows_view_def)
qed

section \<open>Entries\<close>

lemma entry_row_roundtrip [simp]: "row_to_entry (entry_to_row e) = Some e"
  by (cases "en_kind e") (simp_all add: row_to_entry_def entry_to_row_def entry_kind_parse_def entry_kind_as_str_def)

text \<open>The recent entries are the last ones that were saved, in the order in which they were saved.\<close>

lemma recent_entries_last:
  assumes "dk_entries (sd_disk db) = map entry_to_row es"
  shows "recent_entries no_faults n db = Inr (drop (length es - n) es)"
proof -
  have filter: "List.map_filter row_to_entry (map entry_to_row xs) = xs" for xs
    by (induction xs) (simp_all add: map_filter_simps)
  have "take n (rev (dk_entries (sd_disk db))) = map entry_to_row (rev (drop (length es - n) es))"
    by (simp add: assms take_rev rev_map [symmetric] drop_map)
  then show ?thesis by (simp add: recent_entries_def filter)
qed

lemma save_book_cases:
  assumes "save_book dr fail b es db = (db', r)"
  shows "(r = Inr () \<and> (\<exists>json. dr_encode dr b = Some json \<and> db' = db\<lparr> sd_disk := (sd_disk db)\<lparr> dk_book := Some json,
      dk_entries := dk_entries (sd_disk db) @ map entry_to_row es \<rparr> \<rparr>)) \<or> (isl r \<and> db' = db)"
  using assms by (auto simp: save_book_def split: option.splits sum.splits)

lemma save_book_db_inv: "save_book dr' fail b es db = (db', r) \<Longrightarrow> db_inv dr db \<Longrightarrow> db_inv dr db'"
  by (drule save_book_cases) (auto simp: db_inv_def usage_of_def)

section \<open>The driver in use\<close>

text \<open>Unsigned integers are stored when they fit a signed column; this one knows a single book.\<close>

definition signed_driver :: "book \<Rightarrow> driver" where
  "signed_driver b = \<lparr> dr_to_sql = (\<lambda>v. if sint v < 0 then None else Some v),
     dr_from_sql = (\<lambda>w. if sint w < 0 then None else Some w),
     dr_encode = (\<lambda>b'. if b' = b then Some ''book'' else None), dr_decode = (\<lambda>_. Some b) \<rparr>"

lemma signed_driver_ok: "driver_ok (signed_driver b)"
  by (auto simp: driver_ok_def signed_driver_def split: if_splits)

definition example_usage :: "u64 \<Rightarrow> saved_usage" where
  "example_usage n = saved_default\<lparr> sv_upload := n, sv_hour_upload := n, sv_hour_id := 5 \<rparr>"

definition example_quota :: "string \<Rightarrow> u64 \<Rightarrow> user_quota" where
  "example_quota nm n = new_metered_at nm None (example_usage n) MeterMax 5"

lemma example_snapshot [simp]: "snapshot (example_quota nm n) = example_usage n" "q_name (example_quota nm n) = nm"
  by (simp_all add: example_quota_def snapshot_def example_usage_def saved_default_def)

text \<open>A file with one user, remembered as flushed.\<close>

definition example_db :: state_db where
  "example_db =
     (let d = \<lparr> dk_usage = HourlyUsage [(''alice'', the (write_row (signed_driver book_default) (example_usage 7)))],
                dk_book = None, dk_entries = [] \<rparr>
      in \<lparr> sd_disk = d, sd_durable = d, sd_last_flushed = [''alice'' \<mapsto> example_usage 7] \<rparr>)"

lemma example_storable:
  "\<exists>row. write_row (signed_driver b) (example_usage 7) = Some row"
  "\<exists>row. write_row (signed_driver b) (example_usage 9) = Some row"
  by (auto simp: write_row_def signed_driver_def example_usage_def saved_default_def)

lemma example_db_usage: "usage_of (signed_driver book_default) example_db = [''alice'' \<mapsto> example_usage 7]"
  "db_inv (signed_driver book_default) example_db"
proof -
  let ?d = "signed_driver book_default"
  obtain row where row: "write_row ?d (example_usage 7) = Some row" using example_storable by blast
  note read = read_write_row [OF signed_driver_ok row]
  show usage: "usage_of ?d example_db = [''alice'' \<mapsto> example_usage 7]"
    by (simp add: usage_of_def example_db_def Let_def row rows_view_def read fun_eq_iff)
  show "db_inv ?d example_db"
    unfolding db_inv_def usage by (simp add: example_db_def Let_def row rows_ok_def read)
qed

theorem flush_refines_write_all_witness:
  "\<exists>db'. flush (signed_driver book_default) no_faults [example_quota ''alice'' 7, example_quota ''bob'' 9] example_db
       = (db', Inr ())
     \<and> load (signed_driver book_default) no_faults db' = Inr [''alice'' \<mapsto> example_usage 7, ''bob'' \<mapsto> example_usage 9]"
proof -
  let ?d = "signed_driver book_default" and ?us = "[example_quota ''alice'' 7, example_quota ''bob'' 9]"
  obtain db' r where f: "flush ?d no_faults ?us example_db = (db', r)" by fastforce
  have "r = Inr ()" using flush_no_faults [OF example_db_usage(2), of ?us] f by (simp add: example_storable)
  moreover have "load ?d no_faults example_db = Inr [''alice'' \<mapsto> example_usage 7]"
    using load_view [OF example_db_usage(2)] example_db_usage(1) by simp
  from flush_refines_write_all [OF signed_driver_ok example_db_usage(2) _ this f]
  have "r = Inr () \<longrightarrow> load ?d no_faults db' = Inr ([''alice'' \<mapsto> example_usage 7] ++ snapshots ?us)" by simp
  moreover have "[''alice'' \<mapsto> example_usage 7] ++ snapshots ?us
      = [''alice'' \<mapsto> example_usage 7, ''bob'' \<mapsto> example_usage 9]"
    by (auto simp: snapshots_def fun_eq_iff map_add_def)
  ultimately show ?thesis using f by simp
qed

end
