(* ===== verification/Billing_Api.thy ===== *)
theory Billing_Api
  imports Config Provider
begin

text \<open>
  The billing API of the provider (\<open>volcengine.rs\<close>) and what \<open>provider.rs\<close> makes of it: signing
  a request, reading a page, following the page tokens, and keeping the packages of the
  configured regions.  The hash functions, the HTTP client, the clock and the JSON decoder are
  parameters.  A text is ASCII, the list of its bytes; slicing a date that is too short panics.
\<close>

section \<open>Signing\<close>


definition as_bytes :: "string \<Rightarrow> octets" where
  "as_bytes s = map of_char s"

definition HOST :: string where "HOST = ''billing.volcengineapi.com''"
definition REGION :: string where "REGION = ''cn-beijing''"
definition SERVICE :: string where "SERVICE = ''billing''"
definition QUERY :: string where "QUERY = ''Action=ListResourcePackages&Version=2022-01-01''"
definition MAX_PAGES :: nat where "MAX_PAGES = 50"

definition newline :: string where
  "newline = [CHR 0x0A]"

definition hex_digit :: "nat \<Rightarrow> char" where
  "hex_digit n = (if n < 10 then char_of (48 + n) else char_of (87 + n))"

definition hex_byte :: "8 word \<Rightarrow> string" where
  "hex_byte b = [hex_digit (unat b div 16), hex_digit (unat b mod 16)]"

definition hex :: "octets \<Rightarrow> string" where
  "hex bs = concat (map hex_byte bs)"

definition sha256_hex :: "(octets \<Rightarrow> octets) \<Rightarrow> octets \<Rightarrow> string" where
  "sha256_hex sha256 bs = hex (sha256 bs)"

definition hmac :: "(octets \<Rightarrow> octets \<Rightarrow> octets) \<Rightarrow> octets \<Rightarrow> string \<Rightarrow> octets" where
  "hmac hmac_sha256 key msg = hmac_sha256 key (as_bytes msg)"

definition canonical_request :: "(octets \<Rightarrow> octets) \<Rightarrow> string \<Rightarrow> string \<Rightarrow> octets \<Rightarrow> string" where
  "canonical_request sha256 x_date query body =
     ''POST'' @ newline @ ''/'' @ newline @ query @ newline @ ''host:'' @ HOST @ newline
     @ ''x-date:'' @ x_date @ newline @ newline @ ''host;x-date'' @ newline @ sha256_hex sha256 body"

definition authorization :: "(octets \<Rightarrow> octets) \<Rightarrow> (octets \<Rightarrow> octets \<Rightarrow> octets) \<Rightarrow> string \<Rightarrow> string
    \<Rightarrow> string \<Rightarrow> string \<Rightarrow> octets \<Rightarrow> string option" where
  "authorization sha256 hmac_sha256 access_key secret_key x_date query body =
     (if length x_date < 8 then None
      else
        let canonical = canonical_request sha256 x_date query body;
            date = take 8 x_date;
            scope = date @ ''/'' @ REGION @ ''/'' @ SERVICE @ ''/request'';
            to_sign = ''HMAC-SHA256'' @ newline @ x_date @ newline @ scope @ newline
              @ sha256_hex sha256 (as_bytes canonical);
            key = hmac hmac_sha256 (as_bytes secret_key) date;
            key = hmac hmac_sha256 key REGION;
            key = hmac hmac_sha256 key SERVICE;
            key = hmac hmac_sha256 key ''request'';
            signature = hex (hmac hmac_sha256 key to_sign)
        in Some (''HMAC-SHA256 Credential='' @ access_key @ ''/'' @ scope
             @ '', SignedHeaders=host;x-date, Signature='' @ signature))"

section \<open>Pages\<close>

record api_error =
  ae_code :: string
  ae_message :: string

record item =
  it_instance_no :: string
  it_configuration_name :: string
  it_region_code :: string
  it_total_amount :: string
  it_available_amount :: string
  it_unit :: string
  it_status :: string
  it_expiry_time :: string

record page =
  pg_list :: "item list"
  pg_next_token :: string

text \<open>The envelope's metadata only carries the optional error.\<close>

record envelope =
  ev_error :: "api_error option"
  ev_result :: "page option"

datatype billing_error =
    NoClient string
  | RequestFailed string
  | UnreadableResponse string
  | UnexpectedResponse nat string
  | ApiFailed string string
  | NoResult nat
  | BadAmount string size_error
  | TooManyPages

definition amount :: "string \<Rightarrow> string \<Rightarrow> size_error + u64" where
  "amount v u = parse_size (trim v @ trim u)"

definition into_package :: "item \<Rightarrow> billing_error + package" where
  "into_package it =
     (case amount (it_total_amount it) (it_unit it) of
        Inl e \<Rightarrow> Inl (BadAmount (it_instance_no it) e)
      | Inr total_bytes \<Rightarrow>
          (case amount (it_available_amount it) (it_unit it) of
             Inl e \<Rightarrow> Inl (BadAmount (it_instance_no it) e)
           | Inr available_bytes \<Rightarrow> Inr
               \<lparr> pkg_id = it_instance_no it, pkg_name = it_configuration_name it,
                 pkg_region = it_region_code it, pkg_total = total_bytes,
                 pkg_available = available_bytes, pkg_status = it_status it,
                 pkg_expiry = it_expiry_time it \<rparr>))"

definition parse_page :: "(string \<Rightarrow> envelope option) \<Rightarrow> nat \<Rightarrow> string \<Rightarrow> billing_error + page" where
  "parse_page decode status body =
     (case decode body of
        None \<Rightarrow> Inl (UnexpectedResponse status (take 200 body))
      | Some envelope \<Rightarrow>
          (case ev_error envelope of
             Some e \<Rightarrow> Inl (ApiFailed (ae_code e) (ae_message e))
           | None \<Rightarrow>
               (case ev_result envelope of None \<Rightarrow> Inl (NoResult status) | Some p \<Rightarrow> Inr p)))"

section \<open>Following the pages\<close>

record request =
  rq_url :: string
  rq_x_date :: string
  rq_authorization :: string
  rq_body :: string

text \<open>
  What the loop uses of the outside: the answer to the \<open>i\<close>-th request, a failed request or a
  status and a text that may fail to arrive; the date at the \<open>i\<close>-th request; the JSON body that asks
  for a page; the decoder; the two hash functions.
\<close>

record client =
  cl_post :: "nat \<Rightarrow> request \<Rightarrow> string + nat \<times> (string + string)"
  cl_now :: "nat \<Rightarrow> string"
  cl_encode :: "string \<Rightarrow> string"
  cl_decode :: "string \<Rightarrow> envelope option"
  cl_sha256 :: "octets \<Rightarrow> octets"
  cl_hmac :: "octets \<Rightarrow> octets \<Rightarrow> octets"

definition fetch_page :: "client \<Rightarrow> string \<Rightarrow> string \<Rightarrow> nat \<Rightarrow> string \<Rightarrow> (billing_error + page) option" where
  "fetch_page c access_key secret_key i token =
     (let body = cl_encode c token;
          x_date = cl_now c i
      in do {
        auth \<leftarrow> authorization (cl_sha256 c) (cl_hmac c) access_key secret_key x_date QUERY (as_bytes body);
        Some (case cl_post c i \<lparr> rq_url = ''https://'' @ HOST @ ''/?'' @ QUERY, rq_x_date = x_date,
                rq_authorization = auth, rq_body = body \<rparr> of
            Inl e \<Rightarrow> Inl (RequestFailed e)
          | Inr (status, Inl e) \<Rightarrow> Inl (UnreadableResponse e)
          | Inr (status, Inr text) \<Rightarrow> parse_page (cl_decode c) status text) })"

fun convert_items :: "item list \<Rightarrow> package list \<Rightarrow> billing_error + package list" where
  "convert_items [] packages = Inr packages"
| "convert_items (it # its) packages = (case into_package it of
      Inl e \<Rightarrow> Inl e
    | Inr p \<Rightarrow> convert_items its (packages @ [p]))"

definition last_page :: "page \<Rightarrow> string \<Rightarrow> bool" where
  "last_page p token \<longleftrightarrow> pg_list p = [] \<or> pg_next_token p = '''' \<or> pg_next_token p = token"

text \<open>The loop with \<open>n\<close> rounds left, the \<open>i\<close>-th request next.\<close>

fun list_pages :: "client \<Rightarrow> string \<Rightarrow> string \<Rightarrow> nat \<Rightarrow> nat \<Rightarrow> string \<Rightarrow> package list
    \<Rightarrow> (billing_error + package list) option" where
  "list_pages c ak sk 0 i token packages = Some (Inl TooManyPages)"
| "list_pages c ak sk (Suc n) i token packages =
     do { answer \<leftarrow> fetch_page c ak sk i token;
          case answer of
            Inl e \<Rightarrow> Some (Inl e)
          | Inr p \<Rightarrow>
              (case convert_items (pg_list p) packages of
                 Inl e \<Rightarrow> Some (Inl e)
               | Inr packages' \<Rightarrow>
                   if last_page p token then Some (Inr packages')
                   else list_pages c ak sk n (Suc i) (pg_next_token p) packages') }"

definition list_traffic_packages :: "(string + client) \<Rightarrow> string \<Rightarrow> string
    \<Rightarrow> (billing_error + package list) option" where
  "list_traffic_packages built ak sk = (case built of
      Inl e \<Rightarrow> Some (Inl (NoClient e))
    | Inr c \<Rightarrow> list_pages c ak sk MAX_PAGES 0 '''' [])"

definition fetch :: "(string + client) \<Rightarrow> remote_config \<Rightarrow> (billing_error + fetched) option" where
  "fetch built remote =
     do { answer \<leftarrow> (case rc_provider remote of
              Volcengine \<Rightarrow> list_traffic_packages built (rc_access_key remote) (rc_secret_key remote));
          Some (case answer of
              Inl e \<Rightarrow> Inl e
            | Inr packages \<Rightarrow>
                (let (inside, outside) = partition (\<lambda>p. pkg_region p \<in> set (rc_regions remote)) packages
                 in Inr \<lparr> ft_packages = inside, ft_ignored = outside \<rparr>)) }"

section \<open>Every package arrives\<close>

lemma convert_items_append:
  assumes "\<forall>it\<in>set its. \<not> isl (into_package it)"
  shows "convert_items its ps = Inr (ps @ map (projr \<circ> into_package) its)"
  using assms
proof (induction its arbitrary: ps)
  case (Cons it its)
  then obtain p where "into_package it = Inr p" by (cases "into_package it") auto
  with Cons show ?case by simp
qed simp

lemma convert_items_fails:
  assumes "it \<in> set its" "isl (into_package it)"
  shows "isl (convert_items its ps)"
  using assms by (induction its arbitrary: ps) (auto split: sum.splits simp: isl_def)

lemma authorization_total: "8 \<le> length x_date \<Longrightarrow> authorization sha mac ak sk x_date q body \<noteq> None"
  by (simp add: authorization_def Let_def)

text \<open>The token that the \<open>i\<close>-th request carries, when the answers were these pages.\<close>

definition asks :: "page list \<Rightarrow> nat \<Rightarrow> string" where
  "asks pgs i = (case i of 0 \<Rightarrow> '''' | Suc j \<Rightarrow> pg_next_token (pgs ! j))"

text \<open>
  A provider that paginates: the request with the token of page \<open>i\<close> gets page \<open>i\<close> without an error,
  and exactly the last page says that it is the last.  The date is \<open>%Y%m%dT%H%M%SZ\<close>.
\<close>

definition paginates :: "client \<Rightarrow> page list \<Rightarrow> bool" where
  "paginates c pgs \<longleftrightarrow> pgs \<noteq> [] \<and> (\<forall>i. length (cl_now c i) = 16)
     \<and> (\<forall>i<length pgs. (\<forall>rq. rq_body rq = cl_encode c (asks pgs i) \<longrightarrow>
            (\<exists>status text. cl_post c i rq = Inr (status, Inr text)
               \<and> cl_decode c text = Some \<lparr> ev_error = None, ev_result = Some (pgs ! i) \<rparr>))
          \<and> (last_page (pgs ! i) (asks pgs i) \<longleftrightarrow> Suc i = length pgs))"

lemma fetch_page_served:
  assumes "paginates c pgs" "i < length pgs"
  shows "fetch_page c ak sk i (asks pgs i) = Some (Inr (pgs ! i))"
proof -
  have "8 \<le> length (cl_now c i)" using assms(1) by (simp add: paginates_def)
  then obtain auth where auth: "authorization (cl_sha256 c) (cl_hmac c) ak sk (cl_now c i) QUERY
      (as_bytes (cl_encode c (asks pgs i))) = Some auth"
    using authorization_total by blast
  let ?rq = "\<lparr> rq_url = ''https://'' @ HOST @ ''/?'' @ QUERY, rq_x_date = cl_now c i,
    rq_authorization = auth, rq_body = cl_encode c (asks pgs i) \<rparr>"
  obtain status reply where "cl_post c i ?rq = Inr (status, Inr reply)"
    "cl_decode c reply = Some \<lparr> ev_error = None, ev_result = Some (pgs ! i) \<rparr>"
    using assms unfolding paginates_def by (metis request.select_convs(4))
  with auth show ?thesis by (simp add: fetch_page_def parse_page_def Let_def)
qed

lemma list_pages_served:
  assumes "paginates c pgs" "\<forall>it\<in>set (concat (map pg_list pgs)). \<not> isl (into_package it)"
    "i < length pgs" "length pgs \<le> n + i"
  shows "list_pages c ak sk n i (asks pgs i) ps
     = Some (Inr (ps @ map (projr \<circ> into_package) (concat (map pg_list (drop i pgs)))))"
  using assms(3,4)
proof (induction n arbitrary: i ps)
  case (Suc n)
  have here: "convert_items (pg_list (pgs ! i)) ps = Inr (ps @ map (projr \<circ> into_package) (pg_list (pgs ! i)))"
    using assms(2) Suc.prems(1) by (intro convert_items_append) auto
  have rest: "drop i pgs = pgs ! i # drop (Suc i) pgs" using Suc.prems(1) by (simp add: Cons_nth_drop_Suc)
  have last: "last_page (pgs ! i) (asks pgs i) \<longleftrightarrow> Suc i = length pgs"
    using assms(1) Suc.prems(1) by (simp add: paginates_def)
  show ?case
  proof (cases "Suc i = length pgs")
    case True
    with here rest last show ?thesis by (simp add: fetch_page_served [OF assms(1) Suc.prems(1)])
  next
    case False
    with Suc.prems have "Suc i < length pgs" "length pgs \<le> n + Suc i" by simp_all
    from Suc.IH [OF this] have "list_pages c ak sk n (Suc i) (pg_next_token (pgs ! i)) ps'
        = Some (Inr (ps' @ map (projr \<circ> into_package) (concat (map pg_list (drop (Suc i) pgs)))))" for ps'
      by (simp add: asks_def)
    with False here rest last show ?thesis by (simp add: fetch_page_served [OF assms(1) Suc.prems(1)])
  qed
qed simp

lemma list_pages_endless:
  assumes "paginates c pgs" "\<forall>it\<in>set (concat (map pg_list pgs)). \<not> isl (into_package it)"
    "i \<le> length pgs" "n + i < length pgs"
  shows "list_pages c ak sk n i (asks pgs i) ps = Some (Inl TooManyPages)"
  using assms(3,4)
proof (induction n arbitrary: i ps)
  case (Suc n)
  then have i: "i < length pgs" "Suc i \<le> length pgs" "n + Suc i < length pgs" by simp_all
  have here: "convert_items (pg_list (pgs ! i)) ps = Inr (ps @ map (projr \<circ> into_package) (pg_list (pgs ! i)))"
    using assms(2) i(1) by (intro convert_items_append) auto
  have "\<not> last_page (pgs ! i) (asks pgs i)" using assms(1) i by (auto simp: paginates_def)
  with Suc.IH [OF i(2,3)] here show ?case
    by (simp add: fetch_page_served [OF assms(1) i(1)]) (simp add: asks_def)
qed simp

text \<open>C31: from a provider that paginates, every package arrives: with at most fifty pages the fetch returns
  all packages of all pages in their order, the ones in a configured region to be accounted and the
  others to be ignored, and with more pages it stops with an error instead of using a part of them.\<close>

theorem fetch_collects_all_pages:
  assumes "paginates c pgs" "\<forall>it\<in>set (concat (map pg_list pgs)). \<not> isl (into_package it)"
  shows "let items = map (projr \<circ> into_package) (concat (map pg_list pgs));
      inside = (\<lambda>p. pkg_region p \<in> set (rc_regions remote))
    in fetch (Inr c) remote = Some (if length pgs \<le> 50
         then Inr \<lparr> ft_packages = filter inside items, ft_ignored = filter (\<lambda>p. \<not> inside p) items \<rparr>
         else Inl TooManyPages)"
proof -
  have ne: "0 < length pgs" using assms(1) by (simp add: paginates_def)
  have "list_traffic_packages (Inr c) ak sk = Some (if length pgs \<le> 50
      then Inr (map (projr \<circ> into_package) (concat (map pg_list pgs))) else Inl TooManyPages)" for ak sk
    using list_pages_served [OF assms ne, of 50] list_pages_endless [OF assms, of 0 50]
    by (auto simp: list_traffic_packages_def MAX_PAGES_def asks_def)
  then show ?thesis by (simp add: fetch_def Let_def comp_def split: provider.splits)
qed

definition example_item :: "string \<Rightarrow> string \<Rightarrow> item" where
  "example_item nr region = \<lparr> it_instance_no = nr, it_configuration_name = ''pkg'', it_region_code = region,
     it_total_amount = ''100'', it_available_amount = ''40'', it_unit = ''B'', it_status = EFFECTIVE,
     it_expiry_time = '''' \<rparr>"

definition example_package :: "string \<Rightarrow> string \<Rightarrow> package" where
  "example_package nr region = \<lparr> pkg_id = nr, pkg_name = ''pkg'', pkg_region = region, pkg_total = 100,
     pkg_available = 40, pkg_status = EFFECTIVE, pkg_expiry = '''' \<rparr>"

definition example_pages :: "page list" where
  "example_pages = [\<lparr> pg_list = [example_item ''a'' ''north'', example_item ''b'' ''south''], pg_next_token = ''t'' \<rparr>,
     \<lparr> pg_list = [example_item ''c'' ''north''], pg_next_token = '''' \<rparr>]"

text \<open>A provider whose answer is the token itself, decoded to the page it asks for.\<close>

definition example_client :: client where
  "example_client = \<lparr> cl_post = (\<lambda>i rq. Inr (200, Inr (rq_body rq))), cl_now = (\<lambda>i. ''20250101T000000Z''),
     cl_encode = id, cl_decode = (\<lambda>body. Some \<lparr> ev_error = None,
       ev_result = Some (example_pages ! (if body = ''t'' then 1 else 0)) \<rparr>),
     cl_sha256 = id, cl_hmac = (\<lambda>key msg. key @ msg) \<rparr>"

lemma example_paginates: "paginates example_client example_pages"
proof -
  have all: "(\<forall>i<length example_pages. P i) \<longleftrightarrow> P 0 \<and> P 1" for P
    by (auto simp: example_pages_def less_Suc_eq)
  show ?thesis unfolding paginates_def all
    by (simp add: example_client_def example_pages_def asks_def last_page_def)
qed

lemma example_into_package: "into_package (example_item nr region) = Inr (example_package nr region)"
proof -
  have "amount ''100'' ''B'' = Inr 100" "amount ''40'' ''B'' = Inr 40" by code_simp+
  then show ?thesis by (simp add: into_package_def example_item_def example_package_def)
qed

theorem fetch_collects_all_pages_witness:
  "fetch (Inr example_client) \<lparr> rc_provider = Volcengine, rc_access_key = ''ak'', rc_secret_key = ''sk'',
       rc_regions = [''north''], rc_interval_secs = 600, rc_packages = [] \<rparr>
     = Some (Inr \<lparr> ft_packages = [example_package ''a'' ''north'', example_package ''c'' ''north''],
         ft_ignored = [example_package ''b'' ''south''] \<rparr>)"
proof -
  let ?r = "\<lparr> rc_provider = Volcengine, rc_access_key = ''ak'', rc_secret_key = ''sk'',
       rc_regions = [''north''], rc_interval_secs = 600, rc_packages = [] \<rparr>"
  have "\<forall>it\<in>set (concat (map pg_list example_pages)). \<not> isl (into_package it)"
    by (simp add: example_pages_def example_into_package)
  from fetch_collects_all_pages [OF example_paginates this, of ?r] show ?thesis
    by (simp add: example_pages_def example_into_package Let_def) (simp add: example_package_def)
qed

end
