(* ===== verification/Ledger_Laws.thy ===== *)
theory Ledger_Laws
  imports Ledger
begin

text \<open>
  The laws of the ledger: a well-formed book stays well-formed and no operation panics on
  it; the entries of an operation explain the change of the balances; a package is credited
  at most once; transfers and allocations move exactly what they say.  Sums of balances are
  sums of words, as the source adds them, so the conservation laws need no assumption that
  nothing overflows.
\<close>

definition keys :: "('k, 'v) btree \<Rightarrow> 'k set" where
  "keys m = set (bt_keys m)"

definition book_wf :: "book \<Rightarrow> bool" where
  "book_wf b \<longleftrightarrow> bt_wf (bk_balances b) \<and> bt_wf (bk_baselines b) \<and> bt_wf (bk_packages b)
     \<and> keys (bk_balances b) = keys (bk_baselines b)
     \<and> (\<forall>(pid, r)\<in>set (bk_packages b). pkg_id (rec_package r) = pid)"

definition entry_sum :: "entry list \<Rightarrow> i64" where
  "entry_sum es = sum_list (map en_amount es)"

lemma entry_sum_simps [simp]:
  "entry_sum [] = 0"
  "entry_sum (e # es) = en_amount e + entry_sum es"
  "entry_sum (es @ es') = entry_sum es + entry_sum es'"
  by (simp_all add: entry_sum_def)

lemma keys_iff_get: "k \<in> keys m \<longleftrightarrow> bt_get m k \<noteq> None"
  by (simp add: keys_def bt_keys_set)

lemma keys_eq_fst: "keys m = fst ` set m"
  by (auto simp: keys_def bt_keys_def)

lemma keys_Nil [simp]: "keys [] = {}"
  by (simp add: keys_eq_fst)

lemma keys_insert [simp]: "keys (bt_insert k v m) = insert k (keys m)"
  by (simp add: keys_eq_fst set_keys_bt_insert)

lemma keys_or_insert [simp]: "keys (bt_or_insert k v m) = insert k (keys m)"
  by (auto simp: bt_or_insert_def keys_iff_get split: option.splits)

lemma keys_upsert [simp]: "keys (bt_upsert k d f m) = insert k (keys m)"
  by (simp add: bt_upsert_def)

text \<open>A value changed in place: it needs the key, keeps the keys and shifts the sum.\<close>

lemma bt_modify_add:
  fixes m :: "(string, i64) btree"
  assumes "bt_wf m" "k \<in> keys m"
  obtains m' where "bt_modify k (\<lambda>x. x + d) m = Some m'" "bt_wf m'" "keys m' = keys m"
    "bt_sum m' = bt_sum m + d" "\<And>j. bt_get m' j = map_option (\<lambda>x. if j = k then x + d else x) (bt_get m j)"
proof -
  from assms obtain v where v: "bt_get m k = Some v" by (auto simp: keys_iff_get)
  show thesis
    by (rule that [OF bt_modify_present [OF v]])
      (use assms v in \<open>auto simp: bt_sum_insert option.map_ident\<close>)
qed

lemma bt_modify_sub:
  fixes m :: "(string, i64) btree"
  assumes "bt_wf m" "k \<in> keys m"
  obtains m' where "bt_modify k (\<lambda>x. x - d) m = Some m'" "bt_wf m'" "keys m' = keys m"
    "bt_sum m' = bt_sum m - d" "\<And>j. bt_get m' j = map_option (\<lambda>x. if j = k then x - d else x) (bt_get m j)"
  using bt_modify_add [OF assms, of "- d", unfolded add_uminus_conv_diff] that by blast

section \<open>Joining\<close>

lemma join_frame [simp]:
  "bk_migrated (join ms b) = bk_migrated b"
  "bk_remaining (join ms b) = bk_remaining b"
  "bk_synced_at (join ms b) = bk_synced_at b"
  "bk_packages (join ms b) = bk_packages b"
  by (induction ms b rule: join.induct) simp_all

lemma join_same: "(join ms b)\<lparr> bk_balances := bal \<rparr> = b\<lparr> bk_balances := bal, bk_baselines := bk_baselines (join ms b) \<rparr>"
  by (induction ms b rule: join.induct) simp_all

lemma join_wf [wf_intros]: "book_wf b \<Longrightarrow> book_wf (join ms b)"
  by (induction ms b rule: join.induct) (auto simp: book_wf_def)

lemma join_keys:
  "keys (bk_balances (join ms b)) = keys (bk_balances b) \<union> mb_name ` set ms"
  "keys (bk_baselines (join ms b)) = keys (bk_baselines b) \<union> mb_name ` set ms"
  by (induction ms b rule: join.induct) auto

lemma join_sum: "bt_wf (bk_balances b) \<Longrightarrow> bt_sum (bk_balances (join ms b)) = bt_sum (bk_balances b)"
  by (induction ms b rule: join.induct) (simp_all add: bt_sum_or_insert_0)

lemma join_get:
  "bt_get (bk_balances b) k = Some v \<Longrightarrow> bt_get (bk_balances (join ms b)) k = Some v"
  "bt_get (bk_baselines b) k = Some u \<Longrightarrow> bt_get (bk_baselines (join ms b)) k = Some u"
  by (induction ms b rule: join.induct) (simp_all add: bt_get_or_insert)

lemma join_new:
  "k \<notin> keys (bk_balances b) \<Longrightarrow> k \<in> mb_name ` set ms \<Longrightarrow> bt_get (bk_balances (join ms b)) k = Some 0"
proof (induction ms b rule: join.induct)
  case (2 m ms b)
  then show ?case
    by (cases "k = mb_name m") (auto simp: keys_iff_get bt_get_or_insert intro!: join_get(1))
qed simp

section \<open>The package passes\<close>

definition packages_ok :: "(string, package_record) btree \<Rightarrow> bool" where
  "packages_ok ps \<longleftrightarrow> bt_wf ps \<and> (\<forall>(pid, r)\<in>set ps. pkg_id (rec_package r) = pid)"

lemma packages_ok_get:
  "packages_ok ps \<longleftrightarrow> bt_wf ps \<and> (\<forall>k r. bt_get ps k = Some r \<longrightarrow> pkg_id (rec_package r) = k)"
proof -
  have "(\<forall>(pid, r)\<in>set ps. pkg_id (rec_package r) = pid)
      \<longleftrightarrow> (\<forall>k r. (k, r) \<in> set ps \<longrightarrow> pkg_id (rec_package r) = k)"
    by blast
  then show ?thesis by (auto simp: packages_ok_def bt.in_iter)
qed

lemma packages_ok_insert: "packages_ok ps \<Longrightarrow> pkg_id (rec_package r) = k \<Longrightarrow> packages_ok (bt_insert k r ps)"
  by (simp add: packages_ok_get)

lemma book_wf_packages: "book_wf b \<longleftrightarrow> bt_wf (bk_balances b) \<and> bt_wf (bk_baselines b)
     \<and> packages_ok (bk_packages b) \<and> keys (bk_balances b) = keys (bk_baselines b)"
  by (auto simp: book_wf_def packages_ok_def)

lemma packages_ok_rel:
  assumes "packages_ok ps" "bt_rel R ps ps'"
    "\<And>r r'. R r r' \<Longrightarrow> pkg_id (rec_package r') = pkg_id (rec_package r)"
  shows "packages_ok ps'"
proof -
  have "pkg_id (rec_package r') = k" if "bt_get ps' k = Some r'" for k r'
    using bt_rel_get_Some_rev [OF assms(2) that] assms(1,3) by (metis packages_ok_get)
  with assms(1,2) show ?thesis
    by (auto simp: packages_ok_get intro: bt_rel_wf)
qed

text \<open>Neither the first nor the second pass touches a credit.\<close>

definition same_credit :: "package_record \<Rightarrow> package_record \<Rightarrow> bool" where
  "same_credit r r' \<longleftrightarrow> rec_credit r' = rec_credit r \<and> pkg_id (rec_package r') = pkg_id (rec_package r)"

lemma expire_one_same: "same_credit r (fst (expire_one f pid r))"
  by (simp add: expire_one_def same_credit_def Let_def)

lemma expire_rel: "bt_rel same_credit ps (fst (expire_packages f ps g))"
proof (induction ps arbitrary: g)
  case (Cons x ps)
  obtain pid r where x: "x = (pid, r)" by fastforce
  obtain r' leftover fs where one: "expire_one f pid r = (r', leftover, fs)" using prod_cases3 by blast
  then have "same_credit r r'" using expire_one_same [of r f pid] by simp
  with Cons.IH [of "g + leftover"] x one show ?case by (auto split: prod.splits)
qed simp

lemma absorb_credit:
  assumes "bt_get ps k = Some r"
  shows "\<exists>r'. bt_get (fst (absorb_packages pks ps g)) k = Some r' \<and> rec_credit r' = rec_credit r"
  using assms
proof (induction pks ps g arbitrary: r rule: absorb_packages.induct)
  case (2 p pks ps g)
  show ?case
  proof (cases "bt_get ps (pkg_id p)")
    case None
    with "2.prems" have "k \<noteq> pkg_id p" by auto
    with "2.prems" have "bt_get (bt_insert (pkg_id p) \<lparr>rec_package = p, rec_credit = None\<rparr> ps) k
        = Some r" by simp
    from "2.IH"(1) [OF None this] None show ?thesis by simp
  next
    case (Some q)
    with "2.prems" have "bt_get (bt_insert (pkg_id p) (q\<lparr>rec_package := p\<rparr>) ps) k
        = Some (if k = pkg_id p then q\<lparr>rec_package := p\<rparr> else r)"
      by auto
    from "2.IH"(2) [OF Some this] Some "2.prems" show ?thesis
      by (auto split: if_splits)
  qed
qed simp

lemma absorb_ok: "packages_ok ps \<Longrightarrow> packages_ok (fst (absorb_packages pks ps g))"
proof (induction pks ps g rule: absorb_packages.induct)
  case (2 p pks ps g)
  show ?case
  proof (cases "bt_get ps (pkg_id p)")
    case None
    with "2.IH"(1) [OF None packages_ok_insert [OF "2.prems"]] show ?thesis by simp
  next
    case (Some r)
    with "2.IH"(2) [OF Some packages_ok_insert [OF "2.prems"]] show ?thesis by simp
  qed
qed simp

text \<open>The third pass only fills in credits that are missing.\<close>

definition credit_extends :: "package_record \<Rightarrow> package_record \<Rightarrow> bool" where
  "credit_extends r r' \<longleftrightarrow> rec_package r' = rec_package r
     \<and> (rec_credit r \<noteq> None \<longrightarrow> rec_credit r' = rec_credit r)"

lemma credit_extends_refl [simp]: "credit_extends r r"
  by (simp add: credit_extends_def)

lemma credit_all_laws:
  assumes "bt_wf bal"
  shows "bt_wf (credit_all xs bal)" "keys (credit_all xs bal) = keys bal \<union> fst ` set xs"
    "bt_sum (credit_all xs bal) = bt_sum bal + sum_list (map (\<lambda>x. signed_amount (snd x)) xs)"
  using assms
  by (induction xs bal rule: credit_all.induct) (auto simp: bt_sum_upsert_add algebra_simps)

lemma entry_sum_credits:
  "entry_sum (map (\<lambda>(nm, share). credit_entry now pid nm share) xs)
     = sum_list (map (\<lambda>x. signed_amount (snd x)) xs)"
  by (induction xs) (auto simp: credit_entry_def)

text \<open>One package is left alone, or credited in shares to users of the current list.\<close>

lemma credit_one_cases:
  obtains (skip) "credit_one now a names pid r bal = (r, bal, [])"
  | (credited) c xs where "rec_credit r = None" "effective (rec_package r)"
      "credit_one now a names pid r bal = (r\<lparr> rec_credit := Some c \<rparr>, credit_all xs bal,
         map (\<lambda>(nm, share). credit_entry now pid nm share) xs)"
      "fst ` set xs \<subseteq> set names"
proof (cases "rec_credit r \<noteq> None \<or> \<not> effective (rec_package r)")
  case True
  then show ?thesis by (intro skip) (auto simp: credit_one_def)
next
  case open_credit: False
  show ?thesis
  proof (cases "\<exists>owner. as_owners a pid = Some owner \<and> owner \<in> set names")
    case True
    then obtain owner where "as_owners a pid = Some owner" "owner \<in> set names" by blast
    with open_credit show ?thesis
      by (intro credited [of "CreditUser owner" "[(owner, pkg_total (rec_package r))]"])
        (auto simp: credit_one_def Let_def)
  next
    case False
    then have "(case as_owners a pid of None \<Rightarrow> None
        | Some owner \<Rightarrow> if owner \<in> set names then Some owner else None) = None"
      by (auto split: option.splits)
    note none = this
    let ?xs = "zip names (split_evenly (pkg_total (rec_package r)) (length names))"
    show ?thesis
    proof (cases "(as_exclusive a \<or> pid \<in> as_split a) \<and> names \<noteq> []")
      case True
      show ?thesis
      proof (rule credited)
        show "credit_one now a names pid r bal = (r\<lparr>rec_credit := Some CreditSplit\<rparr>,
            credit_all ?xs bal, map (\<lambda>(nm, share). credit_entry now pid nm share) ?xs)"
          using open_credit none True by (simp add: credit_one_def Let_def)
        show "fst ` set ?xs \<subseteq> set names" by (auto dest: set_zip_leftD)
      qed (use open_credit in simp_all)
    next
      case False
      with open_credit none show ?thesis by (intro skip) (auto simp: credit_one_def Let_def)
    qed
  qed
qed

lemma credit_one_laws:
  assumes "credit_one now a names pid r bal = (r', bal', es)" "bt_wf bal"
  shows "credit_extends r r' \<and> bt_wf bal' \<and> keys bal \<subseteq> keys bal' \<and> keys bal' \<subseteq> keys bal \<union> set names
    \<and> bt_sum bal' = bt_sum bal + entry_sum es
    \<and> (\<forall>e\<in>set es. en_kind e = Credit \<and> en_package e = Some pid \<and> rec_credit r = None)"
proof (cases rule: credit_one_cases [of now a names pid r bal])
  case skip
  with assms show ?thesis by simp
next
  case (credited c xs)
  with assms have out: "r' = r\<lparr>rec_credit := Some c\<rparr>" "bal' = credit_all xs bal"
    "es = map (\<lambda>(nm, share). credit_entry now pid nm share) xs" by simp_all
  have "\<forall>e\<in>set es. en_kind e = Credit \<and> en_package e = Some pid"
    by (auto simp: out credit_entry_def)
  with credited show ?thesis
    using credit_all_laws [OF assms(2), of xs]
    by (auto simp: out credit_extends_def entry_sum_credits)
qed

lemma credit_packages_laws:
  assumes "credit_packages now a names ps bal = (ps', bal', es)" "bt_wf bal"
  shows "bt_rel credit_extends ps ps' \<and> bt_wf bal'
     \<and> keys bal \<subseteq> keys bal' \<and> keys bal' \<subseteq> keys bal \<union> set names
     \<and> bt_sum bal' = bt_sum bal + entry_sum es
     \<and> (\<forall>e\<in>set es. en_kind e = Credit
          \<and> (\<exists>(pid, r)\<in>set ps. en_package e = Some pid \<and> rec_credit r = None))"
  using assms
proof (induction ps arbitrary: bal ps' bal' es)
  case (Cons x ps)
  obtain pid r where x: "x = (pid, r)" by fastforce
  obtain r1 bal1 es1 where one: "credit_one now a names pid r bal = (r1, bal1, es1)"
    using prod_cases3 by blast
  obtain ps2 bal2 es2 where rest: "credit_packages now a names ps bal1 = (ps2, bal2, es2)"
    using prod_cases3 by blast
  from Cons.prems x one rest have out: "ps' = (pid, r1) # ps2" "bal' = bal2" "es = es1 @ es2"
    by auto
  note laws = credit_one_laws [OF one Cons.prems(2)]
  then have IH: "bt_rel credit_extends ps ps2 \<and> bt_wf bal2
     \<and> keys bal1 \<subseteq> keys bal2 \<and> keys bal2 \<subseteq> keys bal1 \<union> set names
     \<and> bt_sum bal2 = bt_sum bal1 + entry_sum es2
     \<and> (\<forall>e\<in>set es2. en_kind e = Credit
          \<and> (\<exists>(pid, r)\<in>set ps. en_package e = Some pid \<and> rec_credit r = None))"
    by (intro Cons.IH [OF rest]) simp
  have entries: "\<forall>e\<in>set es. en_kind e = Credit
      \<and> (\<exists>(pid, r)\<in>set (x # ps). en_package e = Some pid \<and> rec_credit r = None)"
    using laws IH unfolding out x by fastforce
  with laws IH show ?case
    unfolding out x by (auto simp: algebra_simps)
qed simp

section \<open>The charging passes\<close>

lemma metered_usage_defined:
  assumes "mb_name ` set ms \<subseteq> keys bs"
  obtains us where "metered_usage bs ms = Some us" "length us = length ms"
proof -
  have "\<exists>us. metered_usage bs ms = Some us \<and> length us = length ms"
    using assms
  proof (induction ms)
    case (Cons m ms)
    then obtain us u where "metered_usage bs ms = Some us" "length us = length ms"
      "bt_get bs (mb_name m) = Some u"
      by (auto simp: keys_iff_get)
    then show ?case by simp
  qed simp
  then show ?thesis using that by blast
qed

lemma unat_metered:
  "unat (fold (\<lambda>used sum. saturating_add sum used) us s)
     = min (unat s + sum_list (map unat us)) 18446744073709551615"
proof (induction us arbitrary: s)
  case Nil
  have "unat s \<le> 18446744073709551615" using unat_lt_u64 [of s] by linarith
  then show ?case by simp
next
  case (Cons u us)
  then show ?case by (simp add: unat_saturating_add)
qed

lemma metered_pos_iff:
  "0 < fold (\<lambda>used sum. saturating_add sum used) us 0 \<longleftrightarrow> (\<exists>u\<in>set us. u \<noteq> 0)"
proof -
  have "0 < fold (\<lambda>used sum. saturating_add sum used) us 0 \<longleftrightarrow> 0 < sum_list (map unat us)"
    using unat_metered [of us 0] by (auto simp: word_less_nat_alt)
  also have "\<dots> \<longleftrightarrow> (\<exists>u\<in>set us. u \<noteq> 0)"
    using total_zero_iff [of us] by (simp only: neq0_conv [symmetric]) blast
  finally show ?thesis .
qed

lemma charge_members_laws:
  assumes "bt_wf bal" "mb_name ` fst ` set xs \<subseteq> keys bal"
  obtains bal' where "charge_members xs bal = Some bal'" "bt_wf bal'" "keys bal' = keys bal"
    "bt_sum bal' = bt_sum bal - sum_list (map (\<lambda>x. signed_amount (snd x)) xs)"
proof -
  have "\<exists>bal'. charge_members xs bal = Some bal' \<and> bt_wf bal' \<and> keys bal' = keys bal
      \<and> bt_sum bal' = bt_sum bal - sum_list (map (\<lambda>x. signed_amount (snd x)) xs)"
    using assms
  proof (induction xs bal rule: charge_members.induct)
    case (2 m charge xs bal)
    have key: "mb_name m \<in> keys bal" using 2(3) by simp
    obtain bal1 where bal1: "bt_modify (mb_name m) (\<lambda>x. x - signed_amount charge) bal = Some bal1"
      "bt_wf bal1" "keys bal1 = keys bal" "bt_sum bal1 = bt_sum bal - signed_amount charge"
      by (rule bt_modify_sub [OF 2(2) key])
    with 2(3) obtain bal2 where "charge_members xs bal1 = Some bal2" "bt_wf bal2" "keys bal2 = keys bal1"
      "bt_sum bal2 = bt_sum bal1 - sum_list (map (\<lambda>x. signed_amount (snd x)) xs)"
      using "2.IH" [of bal1] by auto
    with bal1 show ?case by (simp add: diff_diff_eq)
  qed simp
  then show ?thesis using that by blast
qed

lemma set_baselines_laws:
  "bt_wf bs \<Longrightarrow> bt_wf (set_baselines ms bs)"
  "keys (set_baselines ms bs) = keys bs \<union> mb_name ` set ms"
  by (induction ms bs rule: set_baselines.induct) auto

lemma set_baselines_get:
  "distinct (map mb_name ms) \<Longrightarrow> m \<in> set ms \<Longrightarrow> bt_get (set_baselines ms bs) (mb_name m) = Some (mb_used m)"
proof (induction ms bs rule: set_baselines.induct)
  case (2 m' ms bs)
  have other: "bt_get (set_baselines xs bs) k = bt_get bs k" if "k \<notin> mb_name ` set xs" for xs bs k
    using that by (induction xs bs rule: set_baselines.induct) auto
  show ?case
    using 2 by (cases "m = m'") (auto simp: other)
qed simp

section \<open>Forfeits\<close>

lemma take_shares_laws:
  assumes "bt_wf bal" "fst ` set xs \<subseteq> keys bal"
  obtains bal' es where "take_shares now pid xs bal = Some (bal', es)" "bt_wf bal'" "keys bal' = keys bal"
    "bt_sum bal' = bt_sum bal + entry_sum es"
    "entry_sum es = - sum_list (map (\<lambda>x. signed_amount (snd x)) xs)"
    "\<forall>e\<in>set es. en_kind e = Expiry"
proof -
  have "\<exists>bal' es. take_shares now pid xs bal = Some (bal', es) \<and> bt_wf bal' \<and> keys bal' = keys bal
      \<and> bt_sum bal' = bt_sum bal + entry_sum es
      \<and> entry_sum es = - sum_list (map (\<lambda>x. signed_amount (snd x)) xs)
      \<and> (\<forall>e\<in>set es. en_kind e = Expiry)"
    using assms
  proof (induction xs arbitrary: bal)
    case (Cons x xs)
    obtain nm share where x: "x = (nm, share)" by fastforce
    have key: "nm \<in> keys bal" using Cons.prems(2) x by simp
    obtain bal1 where bal1: "bt_modify nm (\<lambda>x. x - signed_amount share) bal = Some bal1"
      "bt_wf bal1" "keys bal1 = keys bal" "bt_sum bal1 = bt_sum bal - signed_amount share"
      by (rule bt_modify_sub [OF Cons.prems(1) key])
    show ?case
    proof (cases "share = 0")
      case True
      with Cons.IH [of bal] Cons.prems x show ?thesis
        by (auto simp: signed_amount_def)
    next
      case False
      with Cons.IH [of bal1] Cons.prems x bal1 show ?thesis
        by (auto simp: algebra_simps)
    qed
  qed simp
  then show ?thesis using that by blast
qed

lemma holders_keys: "fst ` set (holders bal) \<subseteq> keys bal"
  by (auto simp: holders_def keys_eq_fst)

lemma forfeit_laws:
  assumes "bt_wf bal"
  obtains bal' es where "forfeit now fs bal = Some (bal', es)" "bt_wf bal'" "keys bal' = keys bal"
    "bt_sum bal' = bt_sum bal + entry_sum es" "\<forall>e\<in>set es. en_kind e = Expiry"
proof -
  have "\<exists>bal' es. forfeit now fs bal = Some (bal', es) \<and> bt_wf bal' \<and> keys bal' = keys bal
      \<and> bt_sum bal' = bt_sum bal + entry_sum es \<and> (\<forall>e\<in>set es. en_kind e = Expiry)"
    using assms
  proof (induction fs arbitrary: bal)
    case (Cons f fs)
    obtain pid leftover where f: "f = (pid, leftover)" by fastforce
    let ?xs = "zip (map fst (holders bal)) (split_by leftover (map snd (holders bal)))"
    have "fst ` set ?xs \<subseteq> keys bal"
      using holders_keys [of bal] by (fastforce dest: set_zip_leftD)
    then obtain bal1 es1 where one: "take_shares now pid ?xs bal = Some (bal1, es1)" "bt_wf bal1"
      "keys bal1 = keys bal" "bt_sum bal1 = bt_sum bal + entry_sum es1" "\<forall>e\<in>set es1. en_kind e = Expiry"
      by (rule take_shares_laws [OF Cons.prems])
    from Cons.IH [OF one(2)] obtain bal2 es2 where two: "forfeit now fs bal1 = Some (bal2, es2)"
      "bt_wf bal2" "keys bal2 = keys bal1" "bt_sum bal2 = bt_sum bal1 + entry_sum es2"
      "\<forall>e\<in>set es2. en_kind e = Expiry"
      by blast
    have "forfeit now (f # fs) bal = Some (bal2, es1 @ es2)"
      using one(1) two(1) by (simp add: f Let_def)
    with one two show ?case by (auto simp: algebra_simps)
  qed simp
  then show ?thesis using that by blast
qed

section \<open>What a pass does to one user\<close>

text \<open>The balance of a user, none being 0, and what a list of entries and a list of shares bring to it.\<close>

definition balance_of :: "(string, i64) btree \<Rightarrow> string \<Rightarrow> i64" where
  "balance_of bal nm = (case bt_get bal nm of None \<Rightarrow> 0 | Some v \<Rightarrow> v)"

definition user_sum :: "string \<Rightarrow> entry list \<Rightarrow> i64" where
  "user_sum nm es = entry_sum (filter (\<lambda>e. en_user e = nm) es)"

definition share_sum :: "string \<Rightarrow> (string \<times> u64) list \<Rightarrow> i64" where
  "share_sum nm xs = sum_list (map (\<lambda>(k, share). if k = nm then signed_amount share else 0) xs)"

lemma user_sum_simps [simp]:
  "user_sum nm [] = 0"
  "user_sum nm (e # es) = (if en_user e = nm then en_amount e else 0) + user_sum nm es"
  "user_sum nm (es @ es') = user_sum nm es + user_sum nm es'"
  by (simp_all add: user_sum_def)

lemma share_sum_simps [simp]:
  "share_sum nm [] = 0"
  "share_sum nm ((k, share) # xs) = (if k = nm then signed_amount share else 0) + share_sum nm xs"
  by (simp_all add: share_sum_def)

lemma balance_of_modify:
  assumes "bt_modify k f m = Some m'" "bt_wf m"
  shows "balance_of m' nm = (if nm = k then f (balance_of m k) else balance_of m nm)" "bt_wf m'"
  using assms by (auto simp: bt_modify_def balance_of_def split: option.splits)

lemma balance_of_upsert: "bt_wf m \<Longrightarrow> balance_of (bt_upsert k 0 (\<lambda>x. x + d) m) nm = balance_of m nm + (if nm = k then d else 0)"
  by (auto simp: bt_upsert_def balance_of_def split: option.splits)

text \<open>Every pass changes a balance by the entries or the shares of its user.\<close>

lemma credit_all_users: "bt_wf bal \<Longrightarrow> balance_of (credit_all xs bal) nm = balance_of bal nm + share_sum nm xs"
  by (induction xs bal rule: credit_all.induct) (auto simp: balance_of_upsert algebra_simps)

lemma user_sum_credits: "user_sum nm (map (\<lambda>(k, share). credit_entry now pid k share) xs) = share_sum nm xs"
  by (induction xs) (auto simp: credit_entry_def)

lemma credit_one_users:
  assumes "credit_one now a names pid r bal = (r', bal', es)" "bt_wf bal"
  shows "balance_of bal' nm = balance_of bal nm + user_sum nm es"
  by (cases rule: credit_one_cases [of now a names pid r bal])
    (use assms in \<open>auto simp: credit_all_users user_sum_credits\<close>)

lemma credit_packages_users:
  assumes "credit_packages now a names ps bal = (ps', bal', es)" "bt_wf bal"
  shows "balance_of bal' nm = balance_of bal nm + user_sum nm es"
  using assms
proof (induction ps arbitrary: bal ps' bal' es)
  case (Cons x ps)
  obtain pid r where x: "x = (pid, r)" by fastforce
  obtain r1 bal1 es1 where one: "credit_one now a names pid r bal = (r1, bal1, es1)" using prod_cases3 by blast
  obtain ps2 bal2 es2 where rest: "credit_packages now a names ps bal1 = (ps2, bal2, es2)" using prod_cases3 by blast
  have "bt_wf bal1" using credit_one_laws [OF one Cons.prems(2)] by blast
  from Cons.IH [OF rest this] credit_one_users [OF one Cons.prems(2), of nm] Cons.prems(1) x one rest
  show ?case by (auto simp: algebra_simps)
qed simp

lemma charge_members_users:
  assumes "charge_members xs bal = Some bal'" "bt_wf bal"
  shows "balance_of bal' nm = balance_of bal nm - share_sum nm (map (\<lambda>(m, charge). (mb_name m, charge)) xs)"
  using assms
proof (induction xs bal rule: charge_members.induct)
  case (2 m charge xs bal)
  then obtain bal1 where bal1: "bt_modify (mb_name m) (\<lambda>x. x - signed_amount charge) bal = Some bal1"
    "charge_members xs bal1 = Some bal'" by (auto simp: bind_eq_Some_conv)
  note mod = balance_of_modify [OF bal1(1) 2(3)]
  from 2(1) [OF bal1(1,2) mod(2)] mod(1) [of nm] show ?case by (auto simp: algebra_simps)
qed simp

lemma charge_members_wf: "charge_members xs bal = Some bal' \<Longrightarrow> bt_wf bal \<Longrightarrow> bt_wf bal'"
  by (induction xs bal rule: charge_members.induct) (auto simp: bind_eq_Some_conv dest: balance_of_modify(2))

lemma take_shares_users:
  assumes "take_shares now pid xs bal = Some (bal', es)" "bt_wf bal"
  shows "balance_of bal' nm = balance_of bal nm + user_sum nm es \<and> bt_wf bal'"
  using assms
proof (induction xs arbitrary: bal es)
  case (Cons x xs)
  obtain k share where x: "x = (k, share)" by fastforce
  show ?case
  proof (cases "share = 0")
    case False
    then obtain bal1 es1 where bal1: "bt_modify k (\<lambda>x. x - signed_amount share) bal = Some bal1"
      "take_shares now pid xs bal1 = Some (bal', es1)"
      "es = \<lparr> en_time = now, en_kind = Expiry, en_user = k, en_amount = - signed_amount share, en_package = Some pid, en_note = '''' \<rparr> # es1"
      using Cons.prems(1) x by (auto simp: bind_eq_Some_conv)
    note mod = balance_of_modify [OF bal1(1) Cons.prems(2)]
    from Cons.IH [OF bal1(2) mod(2)] mod(1) [of nm] bal1(3) show ?thesis by (auto simp: algebra_simps)
  qed (use Cons x in simp)
qed simp

lemma forfeit_users:
  assumes "forfeit now fs bal = Some (bal', es)" "bt_wf bal"
  shows "balance_of bal' nm = balance_of bal nm + user_sum nm es"
  using assms
proof (induction fs arbitrary: bal es)
  case (Cons f fs)
  obtain pid leftover where f: "f = (pid, leftover)" by fastforce
  then obtain bal1 es1 es2 where one: "take_shares now pid (zip (map fst (holders bal)) (split_by leftover (map snd (holders bal)))) bal = Some (bal1, es1)"
    "forfeit now fs bal1 = Some (bal', es2)" "es = es1 @ es2"
    using Cons.prems(1) by (auto simp: bind_eq_Some_conv Let_def)
  from take_shares_users [OF one(1) Cons.prems(2), of nm] Cons.IH [OF one(2)] one(3) show ?case by (simp add: algebra_simps)
qed simp

lemma join_finds:
  "bt_get (bk_baselines (join ms b)) k = (case bt_get (bk_baselines b) k of Some u \<Rightarrow> Some u | None \<Rightarrow> map_option mb_used (find_member k ms))"
  "bt_get (bk_balances (join ms b)) k = (case bt_get (bk_balances b) k of Some v \<Rightarrow> Some v | None \<Rightarrow> map_option (\<lambda>_. 0) (find_member k ms))"
  by (induction ms b rule: join.induct) (auto simp: find_member_def bt_get_or_insert split: option.splits)

lemma balance_of_join: "balance_of (bk_balances (join ms b)) nm = balance_of (bk_balances b) nm"
  by (auto simp: balance_of_def join_finds split: option.splits)

text \<open>The usage of each member since its baseline; who joins only now has none.\<close>

definition used_since :: "book \<Rightarrow> member \<Rightarrow> u64" where
  "used_since b m = saturating_sub (mb_used m)
     (case bt_get (bk_baselines b) (mb_name m) of None \<Rightarrow> mb_used m | Some baseline \<Rightarrow> baseline)"

lemma find_member_distinct: "distinct (map mb_name ms) \<Longrightarrow> m \<in> set ms \<Longrightarrow> find_member (mb_name m) ms = Some m"
  by (induction ms) (auto simp: find_member_def)

lemma metered_usage_since:
  assumes "distinct (map mb_name ms)"
  shows "metered_usage (bk_baselines (join ms b)) ms = Some (map (used_since b) ms)"
proof -
  have "metered_usage (bk_baselines (join ms b)) xs = Some (map (used_since b) xs)" if "set xs \<subseteq> set ms" for xs
    using that
    by (induction xs) (auto simp: join_finds used_since_def find_member_distinct [OF assms] split: option.split)
  then show ?thesis by simp
qed

section \<open>The whole reconciliation\<close>

text \<open>The entry of the last pass.\<close>

definition sweep_entries :: "i64 \<Rightarrow> assignments \<Rightarrow> member list \<Rightarrow> i64 \<Rightarrow> entry list" where
  "sweep_entries now a members sweep = (case members of
      [m] \<Rightarrow> if as_exclusive a \<and> sint sweep > 0 then
        [\<lparr> en_time = now, en_kind = Allocate, en_user = mb_name m, en_amount = sweep, en_package = None, en_note = '''' \<rparr>]
        else []
    | _ \<Rightarrow> [])"

lemma sweep_users:
  assumes "sweep_exclusive now a members b = Some (b', es)" "bt_wf (bk_balances b)"
  shows "es = sweep_entries now a members (unallocated b)"
    "balance_of (bk_balances b') nm = balance_of (bk_balances b) nm
       + (if as_exclusive a \<and> map mb_name members = [nm] then unallocated b else 0)"
  using assms balance_of_modify [of _ "\<lambda>x. x + unallocated b" "bk_balances b"]
  by (auto simp: sweep_exclusive_def sweep_entries_def Let_def bind_eq_Some_conv split: if_splits list.splits)

lemma sweep_entries_kinds: "\<forall>e\<in>set (sweep_entries now a members w). en_kind e = Allocate"
  by (cases members; cases "tl members") (simp_all add: sweep_entries_def)

lemma sweep_sum:
  assumes "sweep_exclusive now a members b = Some (b', es)" "bt_wf (bk_balances b)" "as_exclusive a" "length members = 1"
  shows "bt_sum (bk_balances b') = bt_sum (bk_balances b) + unallocated b" "bk_remaining b' = bk_remaining b"
proof -
  obtain m where "members = [m]" using assms(4) by (auto simp: length_Suc_conv)
  with assms(1,3) obtain bal where bal: "bt_modify (mb_name m) (\<lambda>x. x + unallocated b) (bk_balances b) = Some bal"
    "b' = b\<lparr> bk_balances := bal \<rparr>"
    by (auto simp: sweep_exclusive_def Let_def bind_eq_Some_conv)
  then have "mb_name m \<in> keys (bk_balances b)" by (auto simp: keys_iff_get bt_modify_def split: option.splits)
  from bt_modify_add [OF assms(2) this, of "unallocated b"] bal(1) have "bt_sum bal = bt_sum (bk_balances b) + unallocated b" by auto
  with bal(2) show "bt_sum (bk_balances b') = bt_sum (bk_balances b) + unallocated b" "bk_remaining b' = bk_remaining b" by simp_all
qed

lemma sweep_laws:
  assumes "book_wf b" "mb_name ` set members \<subseteq> keys (bk_balances b)"
  obtains b' es where "sweep_exclusive now a members b = Some (b', es)" "book_wf b'"
    "b' = b\<lparr> bk_balances := bk_balances b' \<rparr>" "keys (bk_balances b') = keys (bk_balances b)"
    "\<not> (as_exclusive a \<and> length members = 1) \<Longrightarrow> b' = b \<and> es = []"
    "as_exclusive a \<Longrightarrow> length members = 1
       \<Longrightarrow> bt_sum (bk_balances b') = bt_sum (bk_balances b) + unallocated b"
    "\<forall>e\<in>set es. en_kind e = Allocate"
proof (cases "as_exclusive a \<and> length members = 1")
  case True
  then obtain m where m: "members = [m]" by (auto simp: length_Suc_conv)
  have wf: "bt_wf (bk_balances b)" and key: "mb_name m \<in> keys (bk_balances b)"
    using assms m by (simp_all add: book_wf_def)
  obtain bal where bal: "bt_modify (mb_name m) (\<lambda>x. x + unallocated b) (bk_balances b) = Some bal"
    "bt_wf bal" "keys bal = keys (bk_balances b)" "bt_sum bal = bt_sum (bk_balances b) + unallocated b"
    by (rule bt_modify_add [OF wf key])
  let ?es = "if sint (unallocated b) > 0 then
      [\<lparr> en_time = now, en_kind = Allocate, en_user = mb_name m,
         en_amount = unallocated b, en_package = None, en_note = '''' \<rparr>] else []"
  have "sweep_exclusive now a members b = Some (b\<lparr> bk_balances := bal \<rparr>, ?es)"
    using True m bal(1) by (simp add: sweep_exclusive_def Let_def)
  then show thesis
    by (rule that) (use True bal assms in \<open>auto simp: book_wf_def\<close>)
next
  case False
  then have "sweep_exclusive now a members b = Some (b, [])"
    by (auto simp: sweep_exclusive_def split: list.splits)
  then show thesis by (rule that) (use False assms in auto)
qed

text \<open>The first three passes, over the packages.\<close>

lemma package_phase:
  assumes wf: "book_wf b0"
  obtains ps1 gone forfeited ps2 added ps3 bal1 credits where
    "expire_packages (fetched_map packages) (bk_packages b0) 0 = (ps1, gone, forfeited)"
    "absorb_packages packages ps1 0 = (ps2, added)"
    "credit_packages now a (map mb_name members) ps2 (bk_balances (join members b0))
       = (ps3, bal1, credits)"
    "packages_ok ps3" "bt_wf bal1" "keys bal1 = keys (bk_balances (join members b0))"
    "bt_sum bal1 = bt_sum (bk_balances b0) + entry_sum credits"
proof -
  let ?b = "join members b0"
  obtain ps1 gone forfeited where
    expire: "expire_packages (fetched_map packages) (bk_packages b0) 0 = (ps1, gone, forfeited)"
    using prod_cases3 by blast
  obtain ps2 added where absorb: "absorb_packages packages ps1 0 = (ps2, added)"
    using prod.exhaust by blast
  obtain ps3 bal1 credits where
    credit: "credit_packages now a (map mb_name members) ps2 (bk_balances ?b) = (ps3, bal1, credits)"
    using prod_cases3 by blast
  have bal_wf: "bt_wf (bk_balances ?b)" using join_wf [OF wf] by (simp add: book_wf_def)
  have rel1: "bt_rel same_credit (bk_packages b0) ps1"
    using expire_rel [of "bk_packages b0" "fetched_map packages" 0] expire by simp
  have ok0: "packages_ok (bk_packages b0)" using wf by (simp add: book_wf_packages)
  have ok1: "packages_ok ps1"
    by (rule packages_ok_rel [OF ok0 rel1]) (simp add: same_credit_def)
  have ok2: "packages_ok ps2" using absorb_ok [OF ok1, of packages 0] absorb by simp
  note laws = credit_packages_laws [OF credit bal_wf]
  have ok3: "packages_ok ps3"
    by (rule packages_ok_rel [OF ok2 conjunct1 [OF laws]]) (simp add: credit_extends_def)
  have "keys (bk_balances ?b) \<union> set (map mb_name members) = keys (bk_balances ?b)"
    by (auto simp: join_keys)
  with laws have "keys bal1 \<subseteq> keys (bk_balances ?b)" by simp
  with laws wf show thesis
    by (intro that [OF expire absorb credit ok3]) (simp_all add: join_sum book_wf_def)
qed

text \<open>The fourth pass, over the members.\<close>

definition charges :: "u64 \<Rightarrow> u64 list \<Rightarrow> i64" where
  "charges c usage = (if c > 0 \<and> fold (\<lambda>used sum. saturating_add sum used) usage 0 > 0
     then sum_list (map signed_amount (split_by c usage)) else 0)"

lemma charge_phase:
  assumes "bt_wf bal" "mb_name ` set members \<subseteq> keys bal" "length usage = length members"
  obtains bal' where
    "(if c > 0 \<and> fold (\<lambda>used sum. saturating_add sum used) usage 0 > 0
      then charge_members (zip members (split_by c usage)) bal else Some bal) = Some bal'"
    "bt_wf bal'" "keys bal' = keys bal" "bt_sum bal' = bt_sum bal - charges c usage"
proof (cases "c > 0 \<and> fold (\<lambda>used sum. saturating_add sum used) usage 0 > 0")
  case True
  let ?xs = "zip members (split_by c usage)"
  have "fst ` set ?xs \<subseteq> set members" by (auto dest: set_zip_leftD)
  then have in_keys: "mb_name ` fst ` set ?xs \<subseteq> keys bal"
    by (rule order.trans [OF image_mono assms(2)])
  have "map (\<lambda>x. signed_amount (snd x)) ?xs = map signed_amount (map snd ?xs)"
    by simp
  also have "map snd ?xs = split_by c usage"
    using assms(3) by (simp only: map_snd_zip length_split_by)
  finally have shares: "map (\<lambda>x. signed_amount (snd x)) ?xs = map signed_amount (split_by c usage)" .
  obtain bal' where "charge_members ?xs bal = Some bal'" "bt_wf bal'" "keys bal' = keys bal"
    "bt_sum bal' = bt_sum bal - sum_list (map (\<lambda>x. signed_amount (snd x)) ?xs)"
    by (rule charge_members_laws [OF assms(1) in_keys])
  then show ?thesis
    using True that [of bal'] unfolding shares by (simp add: charges_def)
next
  case False
  then show ?thesis using assms(1) that [of bal] by (auto simp: charges_def)
qed

text \<open>The fourth and the fifth pass: what was consumed is charged, what expired is forfeited.\<close>

lemma settle_phase:
  assumes "bt_wf bal" "mb_name ` set members \<subseteq> keys bal" "length usage = length members"
  obtains bal' bal'' expiries where
    "(if c > 0 \<and> fold (\<lambda>used sum. saturating_add sum used) usage 0 > 0
      then charge_members (zip members (split_by c usage)) bal else Some bal) = Some bal'"
    "forfeit now forfeited bal' = Some (bal'', expiries)" "bt_wf bal''" "keys bal'' = keys bal"
    "bt_sum bal'' = bt_sum bal - charges c usage + entry_sum expiries"
    "\<forall>e\<in>set expiries. en_kind e = Expiry"
proof (rule charge_phase [OF assms, of c])
  fix bal'
  assume charged: "(if c > 0 \<and> fold (\<lambda>used sum. saturating_add sum used) usage 0 > 0
      then charge_members (zip members (split_by c usage)) bal else Some bal) = Some bal'"
    and bal': "bt_wf bal'" "keys bal' = keys bal" "bt_sum bal' = bt_sum bal - charges c usage"
  show thesis
    by (rule forfeit_laws [OF bal'(1)], rule that [OF charged])
      (use bal'(2,3) in simp_all)
qed

lemma settled:
  assumes "(if c > 0 \<and> fold (\<lambda>used sum. saturating_add sum used) usage 0 > 0
      then charge_members (zip members (split_by c usage)) bal else Some bal) = Some bal'"
    "forfeit now forfeited bal' = Some (bal'', expiries)"
    "bt_wf bal" "mb_name ` set members \<subseteq> keys bal" "length usage = length members"
  shows "bt_wf bal'" "bt_wf bal''" "bt_sum bal'' = bt_sum bal - charges c usage + entry_sum expiries"
    "\<forall>e\<in>set expiries. en_kind e = Expiry"
proof -
  obtain x y z where run: "(if c > 0 \<and> fold (\<lambda>used sum. saturating_add sum used) usage 0 > 0
      then charge_members (zip members (split_by c usage)) bal else Some bal) = Some x"
    "forfeit now forfeited x = Some (y, z)" "bt_wf y" "bt_sum y = bt_sum bal - charges c usage + entry_sum z"
    "\<forall>e\<in>set z. en_kind e = Expiry"
    by (rule settle_phase [OF assms(3-5)])
  have "x = bal'" using run(1) unfolding assms(1) by simp
  with run(2) assms(2) have "y = bal''" "z = expiries" by simp_all
  with run show "bt_wf bal''" "bt_sum bal'' = bt_sum bal - charges c usage + entry_sum expiries"
    "\<forall>e\<in>set expiries. en_kind e = Expiry" by simp_all
  show "bt_wf bal'" using assms(1,3) charge_members_wf by (auto split: if_splits)
qed

text \<open>
  A run of the reconciliation of a migrated book, with the intermediate results named: it
  never panics, and each part obeys the laws above.
\<close>

lemma reconcile_migrated_run:
  assumes wf: "book_wf b0"
  obtains ps1 gone forfeited ps2 added ps3 bal1 credits usage bal3 expiries b' sweeps where
    "expire_packages (fetched_map packages) (bk_packages b0) 0 = (ps1, gone, forfeited)"
    "absorb_packages packages ps1 0 = (ps2, added)"
    "credit_packages now a (map mb_name members) ps2 (bk_balances (join members b0))
       = (ps3, bal1, credits)"
    "metered_usage (bk_baselines (join members b0)) members = Some usage"
    "bk_consumed b' = consumed_since previous added gone (bk_remaining b0)"
    "bk_metered b' = fold (\<lambda>used sum. saturating_add sum used) usage 0"
    "bk_remaining b' = bk_remaining b0" "bk_packages b' = ps3" "bk_migrated b' = bk_migrated b0"
    "bk_synced_at b' = bk_synced_at b0"
    "bk_baselines b' = set_baselines members (bk_baselines (join members b0))"
    "book_wf b'" "keys (bk_balances b') = keys (bk_balances b0) \<union> mb_name ` set members"
    "bt_sum bal3 = bt_sum (bk_balances b0) + entry_sum credits - charges (bk_consumed b') usage
       + entry_sum expiries"
    "\<not> (as_exclusive a \<and> length members = 1) \<longrightarrow> bk_balances b' = bal3 \<and> sweeps = []"
    "as_exclusive a \<longrightarrow> length members = 1 \<longrightarrow> bt_sum (bk_balances b') = bt_sum bal3
       + i64_saturating_sub (signed_amount (bk_remaining b0)) (bt_sum bal3)"
    "sweeps = sweep_entries now a members (i64_saturating_sub (signed_amount (bk_remaining b0)) (bt_sum bal3))"
    "\<forall>e\<in>set credits. en_kind e = Credit" "\<forall>e\<in>set expiries. en_kind e = Expiry" "\<forall>e\<in>set sweeps. en_kind e = Allocate"
    "reconcile_migrated packages members a now previous b0 = Some (b', credits @ expiries @ sweeps)"
proof -
  define b where "b = join members b0"
  have frame: "bk_packages b = bk_packages b0" "bk_remaining b = bk_remaining b0"
    by (simp_all add: b_def)
  obtain ps1 gone forfeited ps2 added ps3 bal1 credits where
    expire: "expire_packages (fetched_map packages) (bk_packages b0) 0 = (ps1, gone, forfeited)"
    and absorb: "absorb_packages packages ps1 0 = (ps2, added)"
    and credit: "credit_packages now a (map mb_name members) ps2 (bk_balances b)
      = (ps3, bal1, credits)"
    and ok3: "packages_ok ps3" and bal1: "bt_wf bal1" "keys bal1 = keys (bk_balances b)"
    "bt_sum bal1 = bt_sum (bk_balances b0) + entry_sum credits"
    unfolding b_def by (rule package_phase [OF wf])
  have names: "mb_name ` set members \<subseteq> keys (bk_balances b)" "mb_name ` set members \<subseteq> keys (bk_baselines b)"
    by (simp_all add: b_def join_keys)
  obtain usage where usage: "metered_usage (bk_baselines b) members = Some usage"
    "length usage = length members"
    by (rule metered_usage_defined [OF names(2)])
  let ?metered = "fold (\<lambda>used sum. saturating_add sum used) usage 0"
  define c where "c = consumed_since previous added gone (bk_remaining b0)"
  obtain bal2 bal3 expiries where bal2: "(if c > 0 \<and> ?metered > 0
      then charge_members (zip members (split_by c usage)) bal1 else Some bal1) = Some bal2"
    and bal3: "forfeit now forfeited bal2 = Some (bal3, expiries)" "bt_wf bal3" "keys bal3 = keys bal1"
    "bt_sum bal3 = bt_sum bal1 - charges c usage + entry_sum expiries"
    "\<forall>e\<in>set expiries. en_kind e = Expiry"
    by (rule settle_phase [OF bal1(1) names(1) [folded bal1(2)] usage(2)])
  define b3 where "b3 = b\<lparr> bk_packages := ps3, bk_balances := bal3,
      bk_baselines := set_baselines members (bk_baselines b), bk_consumed := c, bk_metered := ?metered \<rparr>"
  have keys3: "keys bal3 = keys (bk_balances b)" using bal3(3) bal1(2) by simp
  have b3: "book_wf b3"
    using join_wf [OF wf, of members] bal3(2) ok3 keys3 names
    by (auto simp: b3_def b_def book_wf_packages set_baselines_laws)
  have in_b3: "mb_name ` set members \<subseteq> keys (bk_balances b3)"
    using names keys3 by (simp add: b3_def)
  obtain b' sweeps where sweep: "sweep_exclusive now a members b3 = Some (b', sweeps)" "book_wf b'"
    "b' = b3\<lparr> bk_balances := bk_balances b' \<rparr>" "keys (bk_balances b') = keys (bk_balances b3)"
    and plain: "\<not> (as_exclusive a \<and> length members = 1) \<longrightarrow> b' = b3 \<and> sweeps = []"
    and exclusive: "as_exclusive a \<longrightarrow> length members = 1
       \<longrightarrow> bt_sum (bk_balances b') = bt_sum (bk_balances b3) + unallocated b3"
    and allocs: "\<forall>e\<in>set sweeps. en_kind e = Allocate"
    by (rule sweep_laws [OF b3 in_b3, of now a]) blast
  have result: "reconcile_migrated packages members a now previous b0
      = Some (b', credits @ expiries @ sweeps)"
    unfolding reconcile_migrated_def b_def [symmetric] Let_def frame expire prod.case absorb credit
      c_def [symmetric] usage(1)
    using bal2 bal3(1) sweep(1) by (simp add: b3_def)
  have fields: "bk_consumed b' = c" "bk_metered b' = ?metered" "bk_remaining b' = bk_remaining b0"
    "bk_packages b' = ps3" "bk_migrated b' = bk_migrated b0" "bk_synced_at b' = bk_synced_at b0"
    "bk_baselines b' = set_baselines members (bk_baselines b)"
    by (subst sweep(3), simp add: b3_def b_def)+
  show thesis
  proof (rule that [OF expire absorb credit [unfolded b_def] usage(1) [unfolded b_def]
        fields(1) [unfolded c_def] fields(2-6) fields(7) [unfolded b_def] sweep(2) _ _ _ _
        _ _ bal3(5) allocs result])
    show "keys (bk_balances b') = keys (bk_balances b0) \<union> mb_name ` set members"
      using sweep(4) keys3 by (simp add: b3_def b_def join_keys)
    show "bt_sum bal3 = bt_sum (bk_balances b0) + entry_sum credits - charges (bk_consumed b') usage
        + entry_sum expiries"
      using bal1(3) bal3(4) fields(1) by simp
    show "sweeps = sweep_entries now a members (i64_saturating_sub (signed_amount (bk_remaining b0)) (bt_sum bal3))"
      using sweep_users(1) [OF sweep(1)] bal3(2) by (simp add: b3_def unallocated_def frame)
    show "\<forall>e\<in>set credits. en_kind e = Credit"
      using credit_packages_laws [OF credit] join_wf [OF wf, of members] by (simp add: b_def book_wf_def)
    show "\<not> (as_exclusive a \<and> length members = 1) \<longrightarrow> bk_balances b' = bal3 \<and> sweeps = []"
      using plain by (simp add: b3_def)
    show "as_exclusive a \<longrightarrow> length members = 1 \<longrightarrow> bt_sum (bk_balances b') = bt_sum bal3
        + i64_saturating_sub (signed_amount (bk_remaining b0)) (bt_sum bal3)"
      using exclusive by (simp add: b3_def unallocated_def frame)
  qed
qed

lemma reconcile_migrated_split:
  assumes "reconcile_migrated packages members a now previous b0 = Some (b', es)"
  obtains ps1 gone forfeited ps2 added ps3 bal1 credits usage bal2 bal3 expiries sweeps where
    "expire_packages (fetched_map packages) (bk_packages (join members b0)) 0 = (ps1, gone, forfeited)"
    "absorb_packages packages ps1 0 = (ps2, added)"
    "credit_packages now a (map mb_name members) ps2 (bk_balances (join members b0)) = (ps3, bal1, credits)"
    "metered_usage (bk_baselines (join members b0)) members = Some usage"
    "(let c = consumed_since previous added gone (bk_remaining (join members b0)); n = fold (\<lambda>used sum. saturating_add sum used) usage 0
      in (if c > 0 \<and> n > 0 then charge_members (zip members (split_by c usage)) bal1 else Some bal1) = Some bal2
       \<and> sweep_exclusive now a members ((join members b0)\<lparr> bk_packages := ps3, bk_balances := bal3,
            bk_baselines := set_baselines members (bk_baselines (join members b0)), bk_consumed := c, bk_metered := n \<rparr>) = Some (b', sweeps))"
    "forfeit now forfeited bal2 = Some (bal3, expiries)"
    "es = credits @ expiries @ sweeps"
  using assms unfolding reconcile_migrated_def Let_def
  by (auto simp: bind_eq_Some_conv split: prod.splits)

text \<open>A run from the results of its passes, one after the other.\<close>

lemma reconcile_migrated_eval:
  assumes "join members b0 = b"
    "expire_packages (fetched_map packages) (bk_packages b) 0 = (ps1, gone, forfeited)"
    "absorb_packages packages ps1 0 = (ps2, added)"
    "credit_packages now a (map mb_name members) ps2 (bk_balances b) = (ps3, bal1, credits)"
    "consumed_since previous added gone (bk_remaining b) = c"
    "metered_usage (bk_baselines b) members = Some usage"
    "fold (\<lambda>used sum. saturating_add sum used) usage 0 = metered"
    "(if c > 0 \<and> metered > 0 then charge_members (zip members (split_by c usage)) bal1 else Some bal1) = Some bal2"
    "forfeit now forfeited bal2 = Some (bal3, expiries)"
    "sweep_exclusive now a members (b\<lparr> bk_packages := ps3, bk_balances := bal3,
       bk_baselines := set_baselines members (bk_baselines b), bk_consumed := c, bk_metered := metered \<rparr>)
       = Some (b', sweeps)"
  shows "reconcile_migrated packages members a now previous b0 = Some (b', credits @ expiries @ sweeps)"
  using assms(8-10) unfolding reconcile_migrated_def Let_def assms(1-7) prod.case by (simp add: assms(1-7))

end
