(* ===== verification/Ledger_Props.thy ===== *)
theory Ledger_Props
  imports Ledger_Laws
begin

text \<open>
  What the ledger promises to its callers: the reconciliation as a whole, its first run (the
  migration), the entries as an account of the balances, crediting at most once, the limits
  the quotas are given, transfers and allocations.
\<close>

section \<open>Migration\<close>

lemma migrate_members_laws:
  assumes "migrate_members now xs b = (b', es)" "book_wf b"
  shows "book_wf b'"
    "b' = b\<lparr> bk_balances := bk_balances b', bk_baselines := bk_baselines b' \<rparr>"
    "keys (bk_balances b') = keys (bk_balances b) \<union> mb_name ` fst ` set xs"
    "map en_user es = map (\<lambda>x. mb_name (fst x)) xs" "\<forall>e\<in>set es. en_kind e = Migration"
    "entry_sum es = sum_list (map (\<lambda>x. signed_amount (snd x)) xs)"
proof -
  have "book_wf b' \<and> b' = b\<lparr> bk_balances := bk_balances b', bk_baselines := bk_baselines b' \<rparr>
     \<and> keys (bk_balances b') = keys (bk_balances b) \<union> mb_name ` fst ` set xs
     \<and> map en_user es = map (\<lambda>x. mb_name (fst x)) xs \<and> (\<forall>e\<in>set es. en_kind e = Migration)
     \<and> entry_sum es = sum_list (map (\<lambda>x. signed_amount (snd x)) xs)"
    using assms
  proof (induction xs arbitrary: b b' es)
    case (Cons x xs)
    obtain m share where x: "x = (m, share)" by fastforce
    let ?b1 = "b\<lparr> bk_balances := bt_insert (mb_name m) (signed_amount share) (bk_balances b),
        bk_baselines := bt_insert (mb_name m) (mb_used m) (bk_baselines b) \<rparr>"
    obtain es1 where rest: "migrate_members now xs ?b1 = (b', es1)"
      using Cons.prems(1) x by (auto split: prod.splits)
    have wf1: "book_wf ?b1" using Cons.prems(2) by (auto simp: book_wf_def)
    note IH = Cons.IH [OF rest wf1]
    have "es = \<lparr> en_time = now, en_kind = Migration, en_user = mb_name m,
        en_amount = signed_amount share, en_package = None, en_note = '''' \<rparr> # es1"
      using Cons.prems(1) x rest by simp
    with IH x show ?case by (auto intro: trans)
  qed simp
  then show "book_wf b'"
    "b' = b\<lparr> bk_balances := bk_balances b', bk_baselines := bk_baselines b' \<rparr>"
    "keys (bk_balances b') = keys (bk_balances b) \<union> mb_name ` fst ` set xs"
    "map en_user es = map (\<lambda>x. mb_name (fst x)) xs" "\<forall>e\<in>set es. en_kind e = Migration"
    "entry_sum es = sum_list (map (\<lambda>x. signed_amount (snd x)) xs)"
    by blast+
qed

lemma migrate_packages_ok: "packages_ok ps \<Longrightarrow> packages_ok (migrate_packages pks ps)"
  by (induction pks ps rule: migrate_packages.induct) (simp_all add: packages_ok_insert)

lemma length_migrate_shares [simp]: "length (migrate_shares r ms) = length ms"
  by (simp add: migrate_shares_def Let_def)

lemma migrate_shares_sum:
  assumes "ms \<noteq> []" "unat r < 2 ^ 63"
  shows "sum_list (map signed_amount (migrate_shares r ms)) = r"
proof (cases "\<exists>w\<in>set (map (\<lambda>m. case mb_offline_remaining m of None \<Rightarrow> 0 | Some r \<Rightarrow> r) ms). w > 0")
  case True
  then have "\<exists>w\<in>set (map (\<lambda>m. case mb_offline_remaining m of None \<Rightarrow> 0 | Some r \<Rightarrow> r) ms). w \<noteq> 0"
    by (auto simp: word_gt_0)
  from by_weight.share_sum_signed [OF this assms(2)] True show ?thesis
    by (simp add: migrate_shares_def Let_def)
next
  case False
  with assms split_evenly_sum_signed [of "length ms" r] show ?thesis
    by (auto simp: migrate_shares_def Let_def)
qed

text \<open>Migration writes each balance once, so their sum is the sum of the entries.\<close>

lemma migrate_members_sum:
  assumes "migrate_members now xs b = (b', es)" "book_wf b"
    "distinct (map (\<lambda>x. mb_name (fst x)) xs)" "mb_name ` fst ` set xs \<inter> keys (bk_balances b) = {}"
  shows "bt_sum (bk_balances b') = bt_sum (bk_balances b) + entry_sum es"
    "\<forall>(m, share)\<in>set xs. bt_get (bk_balances b') (mb_name m) = Some (signed_amount share)
       \<and> bt_get (bk_baselines b') (mb_name m) = Some (mb_used m)"
    "\<forall>k. k \<notin> mb_name ` fst ` set xs \<longrightarrow> bt_get (bk_balances b') k = bt_get (bk_balances b) k
       \<and> bt_get (bk_baselines b') k = bt_get (bk_baselines b) k"
proof -
  have "bt_sum (bk_balances b') = bt_sum (bk_balances b) + entry_sum es
    \<and> (\<forall>(m, share)\<in>set xs. bt_get (bk_balances b') (mb_name m) = Some (signed_amount share)
       \<and> bt_get (bk_baselines b') (mb_name m) = Some (mb_used m))
    \<and> (\<forall>k. k \<notin> mb_name ` fst ` set xs \<longrightarrow> bt_get (bk_balances b') k = bt_get (bk_balances b) k
       \<and> bt_get (bk_baselines b') k = bt_get (bk_baselines b) k)"
    using assms
  proof (induction xs arbitrary: b b' es)
    case (Cons x xs)
    obtain m share where x: "x = (m, share)" by fastforce
    let ?b1 = "b\<lparr> bk_balances := bt_insert (mb_name m) (signed_amount share) (bk_balances b),
        bk_baselines := bt_insert (mb_name m) (mb_used m) (bk_baselines b) \<rparr>"
    obtain es1 where rest: "migrate_members now xs ?b1 = (b', es1)"
      and es: "es = \<lparr> en_time = now, en_kind = Migration, en_user = mb_name m,
        en_amount = signed_amount share, en_package = None, en_note = '''' \<rparr> # es1"
      using Cons.prems(1) x by (auto split: prod.splits)
    have wf1: "book_wf ?b1" using Cons.prems(2) by (auto simp: book_wf_def)
    have fresh: "mb_name m \<notin> mb_name ` fst ` set xs" "bt_get (bk_balances b) (mb_name m) = None"
      using Cons.prems(3,4) x by (auto simp: keys_iff_get image_image)
    have "mb_name ` fst ` set xs \<inter> keys (bk_balances ?b1) = {}"
      using Cons.prems(4) fresh by (auto simp: x)
    from Cons.IH [OF rest wf1 _ this] Cons.prems(2,3) x es fresh show ?case
      by (auto simp: bt_sum_insert book_wf_def algebra_simps)
  qed simp
  then show "bt_sum (bk_balances b') = bt_sum (bk_balances b) + entry_sum es"
    "\<forall>(m, share)\<in>set xs. bt_get (bk_balances b') (mb_name m) = Some (signed_amount share)
       \<and> bt_get (bk_baselines b') (mb_name m) = Some (mb_used m)"
    "\<forall>k. k \<notin> mb_name ` fst ` set xs \<longrightarrow> bt_get (bk_balances b') k = bt_get (bk_balances b) k
       \<and> bt_get (bk_baselines b') k = bt_get (bk_baselines b) k"
    by blast+
qed

lemma map_fst_zip_shares: "length ys = length ms \<Longrightarrow> fst ` set (zip ms ys) = set ms"
  by (metis list.set_map map_fst_zip)

lemma map_names_zip_shares:
  "length ys = length ms \<Longrightarrow> map (\<lambda>x. f (fst x)) (zip ms ys) = map f ms"
  by (metis (no_types, lifting) map_map map_fst_zip comp_def map_cong)

lemma map_snd_zip_shares:
  "length ys = length ms \<Longrightarrow> map (\<lambda>x. f (snd x)) (zip ms ys) = map f ys"
  by (metis (no_types, lifting) map_map map_snd_zip comp_def map_cong)

lemma migrate_run:
  assumes "book_wf b"
  obtains b1 es where "migrate_members now (zip members (migrate_shares (bk_remaining b) members)) b = (b1, es)"
    "book_wf b1" "keys (bk_balances b1) = keys (bk_balances b) \<union> mb_name ` set members"
    "map en_user es = map mb_name members" "\<forall>e\<in>set es. en_kind e = Migration"
    "entry_sum es = sum_list (map signed_amount (migrate_shares (bk_remaining b) members))"
    "bk_remaining b1 = bk_remaining b"
    "migrate packages members now b
       = (b1\<lparr> bk_packages := migrate_packages packages (bk_packages b1), bk_migrated := True \<rparr>, es)"
    "book_wf (b1\<lparr> bk_packages := migrate_packages packages (bk_packages b1), bk_migrated := True \<rparr>)"
proof -
  let ?xs = "zip members (migrate_shares (bk_remaining b) members)"
  obtain b1 es where run: "migrate_members now ?xs b = (b1, es)" by fastforce
  note laws = migrate_members_laws [OF run assms]
  have rem: "bk_remaining b1 = bk_remaining b" by (subst laws(2)) simp
  have wf: "book_wf (b1\<lparr> bk_packages := migrate_packages packages (bk_packages b1), bk_migrated := True \<rparr>)"
    using laws(1) by (simp add: book_wf_packages migrate_packages_ok)
  show thesis
    by (rule that [OF run laws(1) _ _ laws(5) _ rem _ wf])
      (use laws(3,4,6) run in \<open>simp_all add: map_fst_zip_shares map_names_zip_shares
        map_snd_zip_shares migrate_def\<close>)
qed

section \<open>Reconciliation as a whole\<close>

lemma book_wf_default [simp]: "book_wf book_default"
  by (simp add: book_wf_def book_default_def)

lemma book_wf_update [simp]:
  "book_wf (b\<lparr> bk_remaining := r \<rparr>) = book_wf b"
  "book_wf (b\<lparr> bk_synced_at := t \<rparr>) = book_wf b"
  "book_wf (b\<lparr> bk_consumed := c \<rparr>) = book_wf b"
  "book_wf (b\<lparr> bk_metered := m \<rparr>) = book_wf b"
  "book_wf (b\<lparr> bk_migrated := g \<rparr>) = book_wf b"
  by (simp_all add: book_wf_def)

lemma migrate_members_baselines:
  "bk_baselines (fst (migrate_members now xs b)) = set_baselines (map fst xs) (bk_baselines b)"
proof (induction xs arbitrary: b)
  case (Cons x xs)
  obtain m share where "x = (m, share)" by fastforce
  with Cons.IH [of "b\<lparr> bk_balances := bt_insert (mb_name m) (signed_amount share) (bk_balances b),
      bk_baselines := bt_insert (mb_name m) (mb_used m) (bk_baselines b) \<rparr>"]
  show ?case by (simp add: Let_def case_prod_beta)
qed simp

text \<open>One step of the reconciliation, whichever branch it takes.\<close>

lemma reconcile_run:
  assumes "book_wf b" "distinct (map mb_name members)"
  obtains b' es where "reconcile packages members a now b = Some (b', es)" "book_wf b'" "bk_migrated b'"
    "bk_remaining b' = effective_remaining packages" "bk_synced_at b' = now"
    "keys (bk_balances b') = keys (bk_balances b) \<union> mb_name ` set members"
    "\<And>m. m \<in> set members \<Longrightarrow> bt_get (bk_baselines b') (mb_name m) = Some (mb_used m)"
proof -
  let ?b1 = "b\<lparr> bk_remaining := effective_remaining packages, bk_synced_at := now \<rparr>"
  show thesis
  proof (cases "bk_migrated b")
    case True
    have "book_wf ?b1" using assms(1) by simp
    then obtain b' es where run: "bk_remaining b' = bk_remaining ?b1" "bk_migrated b' = bk_migrated ?b1"
      "bk_synced_at b' = bk_synced_at ?b1"
      "bk_baselines b' = set_baselines members (bk_baselines (join members ?b1))"
      "book_wf b'" "keys (bk_balances b') = keys (bk_balances ?b1) \<union> mb_name ` set members"
      "reconcile_migrated packages members a now (bk_remaining b) ?b1 = Some (b', es)"
      by (rule reconcile_migrated_run) blast
    show thesis
      by (rule that [of b' es]) (use run True assms(2) in \<open>simp_all add: reconcile_def set_baselines_get\<close>)
  next
    case False
    let ?b2 = "?b1\<lparr> bk_consumed := 0, bk_metered := 0 \<rparr>"
    have wf2: "book_wf ?b2" using assms(1) by simp
    obtain b1 es where run: "migrate_members now (zip members (migrate_shares (bk_remaining ?b2) members)) ?b2 = (b1, es)"
      "keys (bk_balances b1) = keys (bk_balances ?b2) \<union> mb_name ` set members"
      "bk_remaining b1 = bk_remaining ?b2"
      "migrate packages members now ?b2
       = (b1\<lparr> bk_packages := migrate_packages packages (bk_packages b1), bk_migrated := True \<rparr>, es)"
      "book_wf (b1\<lparr> bk_packages := migrate_packages packages (bk_packages b1), bk_migrated := True \<rparr>)"
      by (rule migrate_run [OF wf2])
    have "bk_baselines b1 = set_baselines members (bk_baselines b)"
      using migrate_members_baselines [of now "zip members (migrate_shares (bk_remaining ?b2) members)" ?b2] run(1)
      by simp
    moreover have "bk_synced_at b1 = now"
      by (subst migrate_members_laws(2) [OF run(1) wf2]) simp
    ultimately show thesis
      by (intro that [of "b1\<lparr> bk_packages := migrate_packages packages (bk_packages b1), bk_migrated := True \<rparr>" es])
        (use run False assms(2) in \<open>simp_all add: reconcile_def set_baselines_get\<close>)
  qed
qed

text \<open>C3: on a well-formed book and users with distinct names a reconciliation never panics; it
  leaves a well-formed book that records the provider's remaining traffic and the time, has a
  balance for every user, and has every user's baseline at what the user has used.\<close>

theorem reconcile_total:
  assumes "book_wf b" "distinct (map mb_name members)"
  shows "\<exists>b' es. reconcile packages members a now b = Some (b', es) \<and> book_wf b' \<and> bk_migrated b'
    \<and> bk_remaining b' = effective_remaining packages \<and> bk_synced_at b' = now
    \<and> keys (bk_balances b') = keys (bk_balances b) \<union> mb_name ` set members
    \<and> (\<forall>m\<in>set members. bt_get (bk_baselines b') (mb_name m) = Some (mb_used m))"
  by (rule reconcile_run [OF assms, of packages a now]) blast

text \<open>What was left to a user offline, nothing counting as 0; when nobody had anything left, all count alike.\<close>

definition migration_weights :: "member list \<Rightarrow> nat list" where
  "migration_weights ms = (let ws = map (\<lambda>m. case mb_offline_remaining m of None \<Rightarrow> 0 | Some r \<Rightarrow> unat r) ms
     in if sum_list ws = 0 then replicate (length ms) 1 else ws)"

lemma migrate_shares_proportional:
  assumes "ms \<noteq> []"
  shows "proportional (unat r) (migration_weights ms) (map unat (migrate_shares r ms))"
proof -
  let ?ws = "map (\<lambda>m. case mb_offline_remaining m of None \<Rightarrow> 0 | Some r \<Rightarrow> r) ms :: u64 list"
  have nat: "map (\<lambda>m. case mb_offline_remaining m of None \<Rightarrow> 0 | Some r \<Rightarrow> unat r) ms = map unat ?ws"
    by (simp split: option.split)
  show ?thesis
  proof (cases "\<exists>w\<in>set ?ws. w > 0")
    case True
    then have "\<exists>w\<in>set ?ws. w \<noteq> 0" unfolding word_gt_0 by metis
    with True split_by_proportional [OF this, of r] show ?thesis
      unfolding migration_weights_def migrate_shares_def Let_def nat using total_zero_iff [of ?ws] by auto
  next
    case False
    then have "\<forall>w\<in>set ?ws. w = 0" by (simp add: word_gt_0)
    with False split_evenly_proportional [of "length ms" r] assms show ?thesis
      unfolding migration_weights_def migrate_shares_def Let_def nat using total_zero_iff [of ?ws] by auto
  qed
qed

lemma proportional_small:
  assumes "proportional (unat r) ws (map unat xs)" "unat r < 2 ^ 63" "x \<in> set xs"
  shows "signed_amount x = word_of_nat (unat x)" "unat x < 2 ^ 63"
proof -
  have "unat x \<le> sum_list (map unat xs)" using assms(3) by (intro member_le_sum_list) auto
  then have "unat x \<le> unat r" using assms(1) by (simp add: proportional_def)
  then show "unat x < 2 ^ 63" using assms(2) by linarith
  then show "signed_amount x = word_of_nat (unat x)" by (simp add: signed_amount_def)
qed

text \<open>C12: the first reconciliation of a book gives out everything the provider reports: one
  migration entry per user, in the order of the users, and nothing is unallocated afterwards.  The
  balances split the remaining traffic in the proportion of what was left to the users offline (in
  equal parts when nothing was left to anybody): they add up to it, each is the exact proportion
  rounded down or up, and a user with nothing left gets nothing.\<close>

theorem migration_allocates_all:
  assumes "book_wf b" "\<not> bk_migrated b" "bk_balances b = []" "members \<noteq> []"
    "distinct (map mb_name members)" "unat (effective_remaining packages) < 2 ^ 63"
  shows "\<exists>b' es xs. reconcile packages members a now b = Some (b', es) \<and> unallocated b' = 0
    \<and> map en_user es = map mb_name members \<and> (\<forall>e\<in>set es. en_kind e = Migration)
    \<and> entry_sum es = effective_remaining packages
    \<and> proportional (unat (effective_remaining packages)) (migration_weights members) xs
    \<and> (\<forall>i<length members. bt_get (bk_balances b') (mb_name (members ! i)) = Some (word_of_nat (xs ! i)) \<and> xs ! i < 2 ^ 63)"
proof -
  let ?b2 = "b\<lparr> bk_remaining := effective_remaining packages, bk_synced_at := now,
      bk_consumed := 0, bk_metered := 0 \<rparr>"
  let ?shares = "migrate_shares (effective_remaining packages) members"
  let ?xs = "zip members (migrate_shares (bk_remaining ?b2) members)"
  have wf2: "book_wf ?b2" using assms(1) by simp
  obtain b1 es where run: "migrate_members now ?xs ?b2 = (b1, es)"
    "map en_user es = map mb_name members" "\<forall>e\<in>set es. en_kind e = Migration"
    "entry_sum es = sum_list (map signed_amount (migrate_shares (bk_remaining ?b2) members))"
    "bk_remaining b1 = bk_remaining ?b2"
    "migrate packages members now ?b2
     = (b1\<lparr> bk_packages := migrate_packages packages (bk_packages b1), bk_migrated := True \<rparr>, es)"
    by (rule migrate_run [OF wf2])
  have "distinct (map (\<lambda>x. mb_name (fst x)) ?xs)"
    using assms(5) by (simp add: map_names_zip_shares)
  moreover have "mb_name ` fst ` set ?xs \<inter> keys (bk_balances ?b2) = {}"
    using assms(3) by simp
  note sums = migrate_members_sum [OF run(1) wf2 calculation this]
  have sum: "entry_sum es = effective_remaining packages"
    using run(4) migrate_shares_sum [OF assms(4,6)] by simp
  note fair = migrate_shares_proportional [OF assms(4), of "effective_remaining packages"]
  have bal: "bt_get (bk_balances b1) (mb_name (members ! i)) = Some (word_of_nat (map unat ?shares ! i)) \<and> map unat ?shares ! i < 2 ^ 63"
    if "i < length members" for i
  proof -
    have "?xs ! i \<in> set ?xs" using that by (intro nth_mem) simp
    with sums(2) that have "bt_get (bk_balances b1) (mb_name (members ! i)) = Some (signed_amount (?shares ! i))" by auto
    with proportional_small [OF fair assms(6), of "?shares ! i"] that show ?thesis by simp
  qed
  have "bt_sum (bk_balances b1) = effective_remaining packages"
    using sums(1) sum assms(3) by simp
  then have "unallocated (b1\<lparr> bk_packages := migrate_packages packages (bk_packages b1), bk_migrated := True \<rparr>) = 0"
    using run(5) assms(6) by (simp add: unallocated_def signed_amount_def i64_saturating_sub_def)
  with run sum bal fair assms(2) show ?thesis
    by (intro exI [of _ "b1\<lparr> bk_packages := migrate_packages packages (bk_packages b1), bk_migrated := True \<rparr>"] exI [of _ es]
        exI [of _ "map unat ?shares"]) (simp add: reconcile_def)
qed

section \<open>The entries account for the balances\<close>

lemma charges_eq:
  assumes "unat c < 2 ^ 63"
  shows "charges c usage = (if fold (\<lambda>used sum. saturating_add sum used) usage 0 > 0 then c else 0)"
proof (cases "fold (\<lambda>used sum. saturating_add sum used) usage 0 > 0")
  case True
  then have "\<exists>u\<in>set usage. u \<noteq> 0" by (simp add: metered_pos_iff)
  from by_weight.share_sum_signed [OF this assms] True show ?thesis
    by (auto simp: charges_def word_gt_0)
qed (simp add: charges_def)

lemma reconcile_migrated_eq:
  "bk_migrated b \<Longrightarrow> reconcile packages members a now b = reconcile_migrated packages members a now
     (bk_remaining b) (b\<lparr> bk_remaining := effective_remaining packages, bk_synced_at := now \<rparr>)"
  by (simp add: reconcile_def)

text \<open>
  What a user is charged: the user's share of the provider's drop by what each user used since
  its baseline, when there is a drop and somebody used anything; and the sum of the balances
  before the last pass of exclusive mode.
\<close>

definition charge_of :: "book \<Rightarrow> member list \<Rightarrow> book \<Rightarrow> string \<Rightarrow> i64" where
  "charge_of b members b' nm =
     (if bk_consumed b' > 0 \<and> bk_metered b' > 0
      then share_sum nm (zip (map mb_name members) (split_by (bk_consumed b') (map (used_since b) members))) else 0)"

definition unswept :: "book \<Rightarrow> book \<Rightarrow> entry list \<Rightarrow> i64" where
  "unswept b b' es = bt_sum (bk_balances b) + entry_sum (filter (\<lambda>e. en_kind e \<noteq> Allocate) es)
     - (if bk_metered b' > 0 then bk_consumed b' else 0)"

lemma reconcile_sweeps:
  assumes "book_wf b" "bk_migrated b" "reconcile packages members a now b = Some (b', es)" "unat (bk_consumed b') < 2 ^ 63"
  defines "w \<equiv> i64_saturating_sub (signed_amount (effective_remaining packages)) (unswept b b' es)"
  shows "bk_remaining b' = effective_remaining packages"
    "filter (\<lambda>e. en_kind e = Allocate) es = sweep_entries now a members w"
    "entry_sum es = entry_sum (filter (\<lambda>e. en_kind e \<noteq> Allocate) es) + entry_sum (sweep_entries now a members w)"
    "bt_sum (bk_balances b') = unswept b b' es + (if as_exclusive a \<and> length members = 1 then w else 0)"
proof -
  let ?b1 = "b\<lparr> bk_remaining := effective_remaining packages, bk_synced_at := now \<rparr>"
  have wf: "book_wf ?b1" using assms(1) by simp
  have "bk_remaining b' = effective_remaining packages \<and> filter (\<lambda>e. en_kind e = Allocate) es = sweep_entries now a members w
    \<and> entry_sum es = entry_sum (filter (\<lambda>e. en_kind e \<noteq> Allocate) es) + entry_sum (sweep_entries now a members w)
    \<and> bt_sum (bk_balances b') = unswept b b' es + (if as_exclusive a \<and> length members = 1 then w else 0)"
  proof (rule reconcile_migrated_run [OF wf, of packages now a members "bk_remaining b"], goal_cases)
    case (1 ps1 gone forfeited ps2 added ps3 bal1 credits usage bal3 expiries b2 sweeps)
    have out: "b2 = b'" "es = credits @ expiries @ sweeps"
      using 1(21) assms(2,3) by (simp_all add: reconcile_migrated_eq)
    have kinds: "filter (\<lambda>e. en_kind e \<noteq> Allocate) es = credits @ expiries" "filter (\<lambda>e. en_kind e = Allocate) es = sweeps"
      using 1(18-20) by (simp_all add: out(2))
    have s: "bt_sum bal3 = unswept b b' es"
      using 1(6,14) assms(4) by (simp add: unswept_def kinds(1) out(1) charges_eq)
    have "sweeps = sweep_entries now a members w" using 1(17) by (simp add: w_def s)
    moreover have "bt_sum (bk_balances b') = unswept b b' es + (if as_exclusive a \<and> length members = 1 then w else 0)"
      using 1(15,16) by (auto simp: out(1) s w_def)
    moreover have "entry_sum es = entry_sum (credits @ expiries) + entry_sum sweeps" by (simp add: out(2))
    ultimately show ?case using 1(7) kinds out(1) by simp
  qed
  then show "bk_remaining b' = effective_remaining packages"
    "filter (\<lambda>e. en_kind e = Allocate) es = sweep_entries now a members w"
    "entry_sum es = entry_sum (filter (\<lambda>e. en_kind e \<noteq> Allocate) es) + entry_sum (sweep_entries now a members w)"
    "bt_sum (bk_balances b') = unswept b b' es + (if as_exclusive a \<and> length members = 1 then w else 0)" by blast+
qed

text \<open>A sweep that is not cut off closes the gap.\<close>

lemma sweep_closes:
  assumes "0 \<le> sint r" "sint r - sint s < 2 ^ 63"
  shows "s + i64_saturating_sub r s = r" "sint (i64_saturating_sub r s) = sint r - sint s"
proof -
  have "- 9223372036854775808 \<le> sint r - sint s" using assms(1) sint_i64_range(2) [of s] by linarith
  with assms(2) show "s + i64_saturating_sub r s = r" "sint (i64_saturating_sub r s) = sint r - sint s"
    by (simp add: i64_saturating_sub_def, simp add: sint_i64_saturating_sub)
qed


text \<open>The same, user by user.\<close>

lemma share_sum_zip: "share_sum nm (map (\<lambda>(m, charge). (mb_name m, charge)) (zip ms xs)) = share_sum nm (zip (map mb_name ms) xs)"
  by (simp add: zip_map1)

lemma reconcile_users:
  assumes "book_wf b" "bk_migrated b" "distinct (map mb_name members)" "reconcile packages members a now b = Some (b', es)"
  obtains w where "\<And>nm. balance_of (bk_balances b') nm = balance_of (bk_balances b) nm
      + user_sum nm (filter (\<lambda>e. en_kind e \<noteq> Allocate) es) - charge_of b members b' nm
      + (if as_exclusive a \<and> map mb_name members = [nm] then w else 0)"
    "filter (\<lambda>e. en_kind e = Allocate) es = sweep_entries now a members w"
    "\<And>nm. user_sum nm es = user_sum nm (filter (\<lambda>e. en_kind e \<noteq> Allocate) es) + user_sum nm (sweep_entries now a members w)"
    "as_exclusive a \<Longrightarrow> length members = 1 \<Longrightarrow> \<exists>s. bt_sum (bk_balances b') = s + w
       \<and> w = i64_saturating_sub (signed_amount (bk_remaining b')) s"
    "unat (bk_consumed b') < 2 ^ 63 \<Longrightarrow> w = i64_saturating_sub (signed_amount (bk_remaining b')) (unswept b b' es)"
    "bk_remaining b' = effective_remaining packages"
proof -
  let ?b1 = "b\<lparr> bk_remaining := effective_remaining packages, bk_synced_at := now \<rparr>"
  have wf: "book_wf ?b1" using assms(1) by simp
  have run: "reconcile_migrated packages members a now (bk_remaining b) ?b1 = Some (b', es)"
    using assms(2,4) by (simp add: reconcile_migrated_eq)
  have since: "used_since ?b1 = used_since b" by (simp add: used_since_def fun_eq_iff)
  from run show thesis
  proof (cases rule: reconcile_migrated_split)
    case (1 ps1 gone forfeited ps2 added ps3 bal1 credits usage bal2 bal3 expiries sweeps)
    have wfj: "bt_wf (bk_balances (join members ?b1))" using join_wf [OF wf, of members] by (simp add: book_wf_def)
    have usage: "usage = map (used_since b) members"
      using 1(4) metered_usage_since [OF assms(3), of ?b1] by (simp add: since)
    let ?c = "consumed_since (bk_remaining b) added gone (bk_remaining (join members ?b1))"
    let ?n = "fold (\<lambda>used sum. saturating_add sum used) usage 0"
    define b3 where "b3 = (join members ?b1)\<lparr> bk_packages := ps3, bk_balances := bal3,
      bk_baselines := set_baselines members (bk_baselines (join members ?b1)), bk_consumed := ?c, bk_metered := ?n \<rparr>"
    have charge: "(if ?c > 0 \<and> ?n > 0 then charge_members (zip members (split_by ?c usage)) bal1 else Some bal1) = Some bal2"
      and sweep: "sweep_exclusive now a members b3 = Some (b', sweeps)"
      using 1(5) unfolding Let_def b3_def by blast+
    note credits = credit_packages_laws [OF 1(3) wfj]
    have wf1: "bt_wf bal1" and kinds: "\<forall>e\<in>set credits. en_kind e = Credit"
      and keys: "keys (bk_balances (join members ?b1)) \<subseteq> keys bal1" using credits by blast+
    have names: "mb_name ` set members \<subseteq> keys bal1" using keys by (auto simp: join_keys)
    have "length usage = length members" by (simp add: usage)
    note settled = settled [OF charge 1(6) wf1 names this]
    note wf2 = settled(1) and wf3 = settled(2,4)
    have wfs: "bt_wf (bk_balances b3)" using wf3(1) by (simp add: b3_def)
    have rem: "bk_remaining b3 = effective_remaining packages" by (simp add: b3_def)
    have fields: "bk_consumed b' = ?c" "bk_metered b' = ?n" "bk_remaining b' = effective_remaining packages"
      using sweep rem by (auto simp: sweep_exclusive_def Let_def bind_eq_Some_conv b3_def split: if_splits list.splits)
    have parts: "filter (\<lambda>e. en_kind e \<noteq> Allocate) es = credits @ expiries" "filter (\<lambda>e. en_kind e = Allocate) es = sweeps"
      "sweeps = sweep_entries now a members (unallocated b3)"
      using 1(7) kinds wf3(2) sweep_users(1) [OF sweep wfs] sweep_entries_kinds [of now a members "unallocated b3"]
      by (simp_all add: filter_empty_conv filter_id_conv)
    have "balance_of bal2 nm = balance_of bal1 nm - charge_of b members b' nm" for nm
      using charge charge_members_users [OF _ wf1, of "zip members (split_by ?c usage)" bal2 nm]
      by (auto simp: charge_of_def fields usage share_sum_zip split: if_splits)
    then have bal: "balance_of (bk_balances b') nm = balance_of (bk_balances b) nm
        + user_sum nm (filter (\<lambda>e. en_kind e \<noteq> Allocate) es) - charge_of b members b' nm
        + (if as_exclusive a \<and> map mb_name members = [nm] then unallocated b3 else 0)" for nm
      using sweep_users(2) [OF sweep wfs, of nm] forfeit_users [OF 1(6) wf2, of nm]
        credit_packages_users [OF 1(3) wfj, of nm] balance_of_join [of members ?b1 nm]
      by (simp add: b3_def parts(1) algebra_simps)
    have es: "user_sum nm es = user_sum nm (filter (\<lambda>e. en_kind e \<noteq> Allocate) es) + user_sum nm (sweep_entries now a members (unallocated b3))" for nm
      using 1(7) parts(3) unfolding parts(1) by simp
    have sum: "\<exists>s. bt_sum (bk_balances b') = s + unallocated b3
        \<and> unallocated b3 = i64_saturating_sub (signed_amount (bk_remaining b')) s"
      if "as_exclusive a" "length members = 1"
      using sweep_sum [OF sweep wfs that] by (intro exI [of _ "bt_sum (bk_balances b3)"]) (simp add: unallocated_def)
    have w: "unallocated b3 = i64_saturating_sub (signed_amount (bk_remaining b')) (unswept b b' es)"
      if "unat (bk_consumed b') < 2 ^ 63"
    proof -
      have "bt_sum bal1 = bt_sum (bk_balances b) + entry_sum credits"
        using credits assms(1) by (simp add: join_sum book_wf_def)
      with settled(3) have "bt_sum (bk_balances b3) = unswept b b' es"
        using that by (simp add: b3_def unswept_def parts(1) charges_eq fields)
      then show ?thesis by (simp add: unallocated_def rem fields(3))
    qed
    have "filter (\<lambda>e. en_kind e = Allocate) es = sweep_entries now a members (unallocated b3)"
      using parts(2,3) by (rule trans)
    from that [OF bal this es sum w fields(3)] show ?thesis by blast
  qed
qed

text \<open>C6: credits, expiries, allocations and charges account for every balance, user by user: it
  changes by the entries of the user, less the user's share of the provider's drop.  The one change
  without an entry is in exclusive mode, where the balance of the only user may also be lowered by
  an amount \<open>- d\<close>, and then only so far that the balances add up to what the provider reports.
  The sum of the balances changes likewise; the charges add up to the whole drop, and there are
  none when nobody used anything.\<close>

theorem entries_account_for_balances:
  assumes "book_wf b" "bk_migrated b" "distinct (map mb_name members)" "reconcile packages members a now b = Some (b', es)"
  shows "\<exists>d. sint d \<le> 0
    \<and> (\<forall>nm. balance_of (bk_balances b') nm = balance_of (bk_balances b) nm + user_sum nm es - charge_of b members b' nm
         + (if as_exclusive a \<and> map mb_name members = [nm] then d else 0))
    \<and> (as_exclusive a \<and> length members = 1 \<and> d \<noteq> 0 \<longrightarrow> bt_sum (bk_balances b') = signed_amount (bk_remaining b'))
    \<and> (unat (bk_consumed b') < 2 ^ 63 \<longrightarrow> bt_sum (bk_balances b') = bt_sum (bk_balances b) + entry_sum es
         - (if bk_metered b' > 0 then bk_consumed b' else 0) + (if as_exclusive a \<and> length members = 1 then d else 0))"
proof (rule reconcile_users [OF assms])
  fix w :: i64
  let ?r = "signed_amount (bk_remaining b')"
  let ?d = "if sint w > 0 then 0 else w"
  assume bal: "\<And>nm. balance_of (bk_balances b') nm = balance_of (bk_balances b) nm
      + user_sum nm (filter (\<lambda>e. en_kind e \<noteq> Allocate) es) - charge_of b members b' nm
      + (if as_exclusive a \<and> map mb_name members = [nm] then w else 0)"
    and es: "\<And>nm. user_sum nm es = user_sum nm (filter (\<lambda>e. en_kind e \<noteq> Allocate) es) + user_sum nm (sweep_entries now a members w)"
    and sum: "as_exclusive a \<Longrightarrow> length members = 1 \<Longrightarrow> \<exists>s. bt_sum (bk_balances b') = s + w \<and> w = i64_saturating_sub ?r s"
    and w: "unat (bk_consumed b') < 2 ^ 63 \<Longrightarrow> w = i64_saturating_sub ?r (unswept b b' es)"
    and rem: "bk_remaining b' = effective_remaining packages"
  have sweep: "(if as_exclusive a \<and> map mb_name members = [nm] then w else 0)
      = user_sum nm (sweep_entries now a members w) + (if as_exclusive a \<and> map mb_name members = [nm] then ?d else 0)" for nm
    by (cases members; cases "tl members") (auto simp: sweep_entries_def)
  have "entry_sum (sweep_entries now a members w) + (if as_exclusive a \<and> length members = 1 then ?d else 0)
      = (if as_exclusive a \<and> length members = 1 then w else 0)"
    by (cases members; cases "tl members") (auto simp: sweep_entries_def)
  then have total: "bt_sum (bk_balances b') = bt_sum (bk_balances b) + entry_sum es
      - (if bk_metered b' > 0 then bk_consumed b' else 0) + (if as_exclusive a \<and> length members = 1 then ?d else 0)"
    if "unat (bk_consumed b') < 2 ^ 63"
    using reconcile_sweeps(3,4) [OF assms(1,2,4) that] w [OF that] by (simp add: rem unswept_def algebra_simps)
  have closed: "bt_sum (bk_balances b') = ?r" if mode: "as_exclusive a \<and> length members = 1 \<and> ?d \<noteq> 0"
  proof -
    obtain s where s: "bt_sum (bk_balances b') = s + w" "w = i64_saturating_sub ?r s" using sum mode by blast
    have "sint w \<le> 0" using mode by (simp split: if_splits)
    then have "sint ?r - sint s < 2 ^ 63" unfolding s(2) sint_i64_saturating_sub by simp
    with sweep_closes(1) [of ?r s] s show ?thesis by simp
  qed
  have each: "balance_of (bk_balances b') nm = balance_of (bk_balances b) nm + user_sum nm es - charge_of b members b' nm
      + (if as_exclusive a \<and> map mb_name members = [nm] then ?d else 0)" for nm
    using bal [of nm] es [of nm] sweep [of nm] by (simp add: algebra_simps)
  have "sint ?d \<le> 0" by simp
  with each closed total show ?thesis by blast
qed


lemma consumed_since_exact:
  assumes "int (unat remaining) + int (unat gone) \<le> int (unat previous) + int (unat added)"
    "int (unat previous) + int (unat added) - int (unat gone) - int (unat remaining) < 2 ^ 64"
  shows "consumed_since previous added gone remaining = previous + added - gone - remaining"
proof -
  have "consumed_since previous added gone remaining
      = word_of_int (int (unat previous) + int (unat added) - int (unat gone) - int (unat remaining))"
    unfolding consumed_since_def using assms
    by (intro arg_cong [where f = word_of_int]) (simp add: max_def min_def del: of_nat_unat)
  then show ?thesis by simp
qed


text \<open>C14: with the assignments in exclusive mode and a single user, a reconciliation leaves
  nothing unallocated: the balances add up to what the provider reports, and the only allocation
  it reports is one to that user of exactly what the balances fell short, if they did.  This holds
  when less than 2^63 bytes were consumed and the balances fall short by less than 2^63 bytes, so
  that no saturating operation cuts anything off; the provider's remaining traffic counts as the
  code reads it, at most the largest \<open>i64\<close>.\<close>

theorem exclusive_leaves_nothing_unallocated:
  assumes "book_wf b" "bk_migrated b" "as_exclusive a" "length members = 1"
    "reconcile packages members a now b = Some (b', es)" "unat (bk_consumed b') < 2 ^ 63"
    "sint (signed_amount (effective_remaining packages)) - sint (unswept b b' es) < 2 ^ 63"
  defines "d \<equiv> signed_amount (effective_remaining packages) - unswept b b' es"
  shows "unallocated b' = 0 \<and> bt_sum (bk_balances b') = signed_amount (effective_remaining packages)
    \<and> filter (\<lambda>e. en_kind e = Allocate) es = (if sint d > 0 then [\<lparr> en_time = now, en_kind = Allocate,
        en_user = mb_name (members ! 0), en_amount = d, en_package = None, en_note = '''' \<rparr>] else [])"
proof -
  let ?r = "signed_amount (effective_remaining packages)"
  obtain m where m: "members = [m]" using assms(4) by (auto simp: length_Suc_conv)
  note sums = reconcile_sweeps [OF assms(1,2,5,6)]
  have closes: "unswept b b' es + i64_saturating_sub ?r (unswept b b' es) = ?r"
    by (rule sweep_closes(1)) (use assms(7) in simp_all)
  then have d: "i64_saturating_sub ?r (unswept b b' es) = d" by (simp add: d_def algebra_simps)
  have sum: "bt_sum (bk_balances b') = ?r" using sums(4) assms(3,4) closes by simp
  then have "unallocated b' = 0" by (simp add: unallocated_def sums(1) i64_saturating_sub_def)
  with sum sums(2) assms(3) show ?thesis unfolding d m by (simp add: sweep_entries_def)
qed

section \<open>Steps of a book\<close>

text \<open>
  What happens to a book after it is loaded: reconciliations with whatever the provider
  reports, transfers and allocations, each over the users of that moment, in any order.
\<close>

inductive book_step :: "book \<Rightarrow> entry list \<Rightarrow> book \<Rightarrow> bool" where
  sync: "reconcile packages members a now b = Some (b', es) \<Longrightarrow> distinct (map mb_name members)
     \<Longrightarrow> book_step b es b'"
| transfer: "book_transfer members from to amount now b = Some (b', r) \<Longrightarrow> book_step b (case r of Inl _ \<Rightarrow> [] | Inr es \<Rightarrow> es) b'"
| allocate: "book_allocate members to amount now b = Some (b', r) \<Longrightarrow> book_step b (case r of Inl _ \<Rightarrow> [] | Inr es \<Rightarrow> es) b'"

inductive book_run :: "book \<Rightarrow> entry list list \<Rightarrow> book \<Rightarrow> bool" where
  start: "book_run b [] b"
| step: "book_run b ess b1 \<Longrightarrow> book_step b1 es b2 \<Longrightarrow> book_run b (ess @ [es]) b2"

inductive_cases book_stepE: "book_step b es b'"

definition book_inv :: "book \<Rightarrow> bool" where
  "book_inv b \<longleftrightarrow> book_wf b \<and> (\<not> bk_migrated b \<longrightarrow> bk_packages b = [] \<and> bk_balances b = [])"

lemma allocate_to_laws:
  assumes "bt_wf bal" "fst ` set xs \<subseteq> keys bal"
  obtains bal' es where "allocate_to now xs bal = Some (bal', es)" "bt_wf bal'" "keys bal' = keys bal"
    "bt_sum bal' = bt_sum bal + entry_sum es"
    "entry_sum es = sum_list (map (\<lambda>x. signed_amount (snd x)) xs)"
    "\<forall>e\<in>set es. en_kind e = Allocate" "map en_user es = map fst xs"
proof -
  have "\<exists>bal' es. allocate_to now xs bal = Some (bal', es) \<and> bt_wf bal' \<and> keys bal' = keys bal
      \<and> bt_sum bal' = bt_sum bal + entry_sum es
      \<and> entry_sum es = sum_list (map (\<lambda>x. signed_amount (snd x)) xs)
      \<and> (\<forall>e\<in>set es. en_kind e = Allocate) \<and> map en_user es = map fst xs"
    using assms
  proof (induction xs arbitrary: bal)
    case (Cons x xs)
    obtain nm share where x: "x = (nm, share)" by fastforce
    have key: "nm \<in> keys bal" using Cons.prems(2) x by simp
    obtain bal1 where bal1: "bt_modify nm (\<lambda>x. x + signed_amount share) bal = Some bal1"
      "bt_wf bal1" "keys bal1 = keys bal" "bt_sum bal1 = bt_sum bal + signed_amount share"
      by (rule bt_modify_add [OF Cons.prems(1) key])
    with Cons.IH [of bal1] Cons.prems x show ?case
      by (auto simp: algebra_simps)
  qed simp
  then show ?thesis using that by blast
qed

lemma find_member_Some:
  "find_member nm members = Some m \<Longrightarrow> m \<in> set members \<and> mb_name m = nm"
  by (auto simp: find_member_def find_Some_iff)

lemma find_member_None: "find_member nm members = None \<longleftrightarrow> nm \<notin> mb_name ` set members"
  by (auto simp: find_member_def find_None_iff)

text \<open>What a user may still give away: the balance less what was used since the baseline.\<close>

definition available_to :: "member list \<Rightarrow> member \<Rightarrow> book \<Rightarrow> i64" where
  "available_to members m b = (let b1 = join members b in
     i64_saturating_sub (the (bt_get (bk_balances b1) (mb_name m)))
       (signed_amount (saturating_sub (mb_used m) (the (bt_get (bk_baselines b1) (mb_name m))))))"

lemma transfer_cases:
  assumes "book_wf b" "bk_migrated b" "amount \<noteq> 0" "from \<noteq> to"
    "find_member from members = Some source" "find_member to members = Some target"
  obtains (short) "sint (signed_amount amount) > sint (available_to members source b)"
      "book_transfer members from to amount now b = Some (join members b,
         Inl (HasOnlyLeft from (if sint (available_to members source b) < 0 then 0
           else available_to members source b)))"
  | (moved) bal es where "sint (signed_amount amount) \<le> sint (available_to members source b)"
      "book_transfer members from to amount now b = Some ((join members b)\<lparr> bk_balances := bal \<rparr>, Inr es)"
      "bt_wf bal" "keys bal = keys (bk_balances (join members b))"
      "bt_sum bal = bt_sum (bk_balances b)"
      "\<And>k. bt_get bal k = map_option (\<lambda>x. if k = from then x - signed_amount amount
         else if k = to then x + signed_amount amount else x) (bt_get (bk_balances (join members b)) k)"
      "map (\<lambda>e. (en_user e, en_amount e, en_note e)) es
         = [(from, - signed_amount amount, to), (to, signed_amount amount, from)]"
      "\<forall>e\<in>set es. en_kind e = Transfer \<and> en_package e = None \<and> en_time e = now"
proof -
  let ?b1 = "join members b"
  have src: "mb_name source = from" "from \<in> mb_name ` set members" "to \<in> mb_name ` set members"
    using assms(5,6) by (auto dest!: find_member_Some)
  have wf1: "book_wf ?b1" using assms(1) by (rule join_wf)
  then have wfb: "bt_wf (bk_balances ?b1)" by (simp add: book_wf_def)
  from src have keys: "from \<in> keys (bk_balances ?b1)" "to \<in> keys (bk_balances ?b1)"
    "from \<in> keys (bk_baselines ?b1)"
    by (auto simp: join_keys)
  obtain v u where get: "bt_get (bk_balances ?b1) from = Some v" "bt_get (bk_baselines ?b1) from = Some u"
    using keys by (auto simp: keys_iff_get)
  have avail: "available_to members source b = i64_saturating_sub v (signed_amount (saturating_sub (mb_used source) u))"
    by (simp add: available_to_def src get Let_def)
  obtain bal1 where bal1: "bt_modify from (\<lambda>x. x - signed_amount amount) (bk_balances ?b1) = Some bal1"
    "bt_wf bal1" "keys bal1 = keys (bk_balances ?b1)"
    "bt_sum bal1 = bt_sum (bk_balances ?b1) - signed_amount amount"
    "\<And>j. bt_get bal1 j = map_option (\<lambda>x. if j = from then x - signed_amount amount else x)
       (bt_get (bk_balances ?b1) j)"
    by (rule bt_modify_sub [OF wfb keys(1)]) blast
  have key2: "to \<in> keys bal1" using bal1(3) keys(2) by simp
  obtain bal2 where bal2: "bt_modify to (\<lambda>x. x + signed_amount amount) bal1 = Some bal2"
    "bt_wf bal2" "keys bal2 = keys bal1" "bt_sum bal2 = bt_sum bal1 + signed_amount amount"
    "\<And>j. bt_get bal2 j = map_option (\<lambda>x. if j = to then x + signed_amount amount else x)
       (bt_get bal1 j)"
    by (rule bt_modify_add [OF bal1(2) key2]) blast
  show thesis
  proof (cases "sint (signed_amount amount) > sint (available_to members source b)")
    case True
    then show thesis
      by (intro short) (use assms get avail in \<open>simp_all add: book_transfer_def Let_def\<close>)
  next
    case False
    let ?es = "[\<lparr> en_time = now, en_kind = Transfer, en_user = from,
        en_amount = - signed_amount amount, en_package = None, en_note = to \<rparr>,
      \<lparr> en_time = now, en_kind = Transfer, en_user = to,
        en_amount = signed_amount amount, en_package = None, en_note = from \<rparr>]"
    have "book_transfer members from to amount now b = Some (?b1\<lparr> bk_balances := bal2 \<rparr>, Inr ?es)"
      using assms get avail False bal1(1) bal2(1) by (simp add: book_transfer_def Let_def)
    with False show thesis
      by (intro moved [of bal2 ?es])
        (use assms(1,4) bal1 bal2 in \<open>auto simp: join_sum book_wf_def option.map_comp comp_def
           intro!: option.map_cong\<close>)
  qed
qed

lemma transfer_InrD:
  assumes "book_transfer members from to amount now b = Some (b', Inr es)"
  obtains source target where "bk_migrated b" "amount \<noteq> 0" "from \<noteq> to"
    "find_member from members = Some source" "find_member to members = Some target"
  using assms that by (auto simp: book_transfer_def split: if_splits option.splits)

text \<open>C7: a transfer that succeeds moves the amount from one user to the other and changes
  nothing else: the sender's balance falls and the receiver's rises by the amount, and every other
  balance, every baseline, the packages, what was consumed and metered, and the time of the last
  sync stay as they were.  Users the book does not know yet join it, with a balance of 0 and the
  baseline at their usage.  The sum of all balances stays, and the two entries cancel out.\<close>

theorem transfer_conserves:
  assumes "book_wf b" "book_transfer members from to amount now b = Some (b', Inr es)"
  shows "bt_sum (bk_balances b') = bt_sum (bk_balances b) \<and> entry_sum es = 0 \<and> book_wf b'
    \<and> b' = b\<lparr> bk_balances := bk_balances b', bk_baselines := bk_baselines b' \<rparr>
    \<and> (\<forall>k. bt_get (bk_baselines b') k = (case bt_get (bk_baselines b) k of
         Some u \<Rightarrow> Some u | None \<Rightarrow> map_option mb_used (find_member k members)))
    \<and> (\<forall>k. bt_get (bk_balances b') k = map_option
         (\<lambda>x. if k = from then x - signed_amount amount else if k = to then x + signed_amount amount else x)
         (case bt_get (bk_balances b) k of Some x \<Rightarrow> Some x | None \<Rightarrow> map_option (\<lambda>_. 0) (find_member k members)))
    \<and> map (\<lambda>e. (en_user e, en_amount e, en_note e)) es
         = [(from, - signed_amount amount, to), (to, signed_amount amount, from)]"
proof -
  obtain source target where pre: "bk_migrated b" "amount \<noteq> 0" "from \<noteq> to"
    "find_member from members = Some source" "find_member to members = Some target"
    by (rule transfer_InrD [OF assms(2)])
  show ?thesis
  proof (rule transfer_cases [OF assms(1) pre, of now], goal_cases)
    case 1
    with assms(2) show ?case by simp
  next
    case (2 bal es')
    have out: "b' = (join members b)\<lparr> bk_balances := bal \<rparr>" "es' = es"
      using assms(2) 2(2) by simp_all
    have "entry_sum es = 0"
      using 2(7) by (auto simp: out entry_sum_def)
    moreover have "book_wf b'"
      using join_wf [OF assms(1), of members] 2(3,4) by (simp add: out book_wf_def)
    moreover have "b' = b\<lparr> bk_balances := bk_balances b', bk_baselines := bk_baselines b' \<rparr>"
      by (simp add: out join_same)
    ultimately show ?case
      using 2(5,6,7) by (simp add: out join_finds)
  qed
qed

text \<open>C8: a transfer on a well-formed book always answers, and it succeeds exactly when the
  book has synced, the amount is positive, the users are different and both known, and the
  sender's balance less the traffic used since the last sync covers the amount.  A refused
  transfer changes no balance of a known user and leaves the sum of the balances alone.\<close>

theorem transfer_succeeds_iff:
  assumes "book_wf b"
  shows "\<exists>b' r. book_transfer members from to amount now b = Some (b', r)
    \<and> ((\<exists>es. r = Inr es) \<longleftrightarrow> bk_migrated b \<and> amount \<noteq> 0 \<and> from \<noteq> to
         \<and> to \<in> mb_name ` set members
         \<and> (\<exists>source. find_member from members = Some source
              \<and> sint (signed_amount amount) \<le> sint (available_to members source b)))
    \<and> (\<forall>e. r = Inl e \<longrightarrow> bt_sum (bk_balances b') = bt_sum (bk_balances b)
         \<and> (\<forall>k v. bt_get (bk_balances b) k = Some v \<longrightarrow> bt_get (bk_balances b') k = Some v))"
proof (cases "bk_migrated b \<and> amount \<noteq> 0 \<and> from \<noteq> to \<and> find_member from members \<noteq> None
    \<and> find_member to members \<noteq> None")
  case False
  then have "\<exists>e. book_transfer members from to amount now b = Some (b, Inl e)"
    by (cases "find_member from members"; cases "find_member to members")
      (auto simp: book_transfer_def)
  with False find_member_None [of to members] show ?thesis by auto
next
  case True
  then obtain source target where pre: "bk_migrated b" "amount \<noteq> 0" "from \<noteq> to"
    "find_member from members = Some source" "find_member to members = Some target"
    by auto
  then have "to \<in> mb_name ` set members" by (auto dest: find_member_Some)
  with assms pre show ?thesis
    by (cases rule: transfer_cases [OF assms pre, of now])
      (auto simp: join_sum book_wf_def join_get)
qed

text \<open>A move that the available balance covers leaves the spent bytes covered.\<close>

lemma covered_move_leaves_use:
  fixes v amount spent :: u64
  assumes "amount \<noteq> 0" "sint (signed_amount amount) \<le> sint (i64_saturating_sub v (signed_amount spent))"
  shows "0 \<le> sint (v - signed_amount amount)" "unat spent \<le> unat (v - signed_amount amount)"
proof -
  let ?w = "v - signed_amount amount"
  have pos: "0 < sint (signed_amount amount)"
    using assms(1) by (simp add: sint_signed_amount unat_gt_0 del: of_nat_unat)
  with assms(2) have room: "sint (signed_amount amount) + sint (signed_amount spent) \<le> sint v"
    using sint_i64_range(2) [of v] sint_signed_amount_nonneg [of spent]
    by (simp add: sint_i64_saturating_sub)
  then have w: "sint ?w = sint v - sint (signed_amount amount)"
    using sint_i64_range(2) [of v] sint_signed_amount_nonneg [of spent] sint_signed_amount_nonneg [of amount]
    by (intro sint_diff_no_overflow) linarith+
  with room have spent: "sint (signed_amount spent) \<le> sint ?w" by simp
  then show w_pos: "0 \<le> sint ?w" using sint_signed_amount_nonneg order_trans by blast
  have "sint ?w < 9223372036854775807"
    using w pos sint_i64_range(2) [of v] by linarith
  with spent int_unat_eq_sint [OF w_pos] have "int (unat spent) \<le> int (unat ?w)"
    unfolding sint_signed_amount by linarith
  then show "unat spent \<le> unat ?w" by (simp only: of_nat_le_iff)
qed

text \<open>C9: a transfer cannot take away traffic the sender has already used: afterwards the
  sender's limit is still at least what the sender has used.\<close>

theorem transfer_limit_covers_use:
  assumes "book_wf b" "book_transfer members from to amount now b = Some (b', Inr es)"
    "find_member from members = Some source"
  shows "\<exists>l. book_limit b' from = Some l \<and> mb_used source \<le> l"
proof -
  obtain target where pre: "bk_migrated b" "amount \<noteq> 0" "from \<noteq> to"
    "find_member to members = Some target"
    by (rule transfer_InrD [OF assms(2)]) blast
  let ?b1 = "join members b"
  have src: "mb_name source = from" "from \<in> mb_name ` set members"
    using assms(3) by (auto dest: find_member_Some)
  then obtain v u where get: "bt_get (bk_balances ?b1) from = Some v" "bt_get (bk_baselines ?b1) from = Some u"
    using join_keys [of members b] keys_iff_get by fastforce
  let ?spent = "saturating_sub (mb_used source) u" and ?w = "v - signed_amount amount"
  have avail: "available_to members source b = i64_saturating_sub v (signed_amount ?spent)"
    by (simp add: available_to_def src get Let_def)
  have bal: "bt_get (bk_balances b') from = Some ?w" "bk_baselines b' = bk_baselines ?b1"
    and covered: "sint (signed_amount amount) \<le> sint (available_to members source b)"
    by (rule transfer_cases [OF assms(1) pre(1-3) assms(3) pre(4), of now];
        use assms(2) pre(3) get in simp)+
  note left = covered_move_leaves_use [OF pre(2) covered [unfolded avail]]
  then have "unat (mb_used source) - unat u \<le> unat ?w"
    by (simp add: unat_saturating_sub del: of_nat_unat)
  then have "unat (mb_used source) \<le> unat (saturating_add u ?w)"
    using unat_lt_u64 [of "mb_used source"] unfolding unat_saturating_add by linarith
  with bal get(2) left(1) show ?thesis
    by (auto simp: book_limit_def word_le_nat_alt)
qed

lemma allocate_InrD:
  assumes "book_allocate members to amount now b = Some (b', Inr es)"
  obtains names bal where "bk_migrated b" "0 < sint (unallocated b)"
    "(case amount of None \<Rightarrow> unallocated b | Some n \<Rightarrow> n) \<noteq> 0"
    "sint (signed_amount (case amount of None \<Rightarrow> unallocated b | Some n \<Rightarrow> n)) \<le> sint (unallocated b)"
    "names = (case to of None \<Rightarrow> map mb_name members | Some nm \<Rightarrow> [nm])" "names \<noteq> []"
    "set names \<subseteq> mb_name ` set members"
    "allocate_to now (zip names (split_evenly (case amount of None \<Rightarrow> unallocated b | Some n \<Rightarrow> n)
       (length names))) (bk_balances (join members b)) = Some (bal, es)"
    "b' = (join members b)\<lparr> bk_balances := bal \<rparr>"
proof -
  let ?amt = "case amount of None \<Rightarrow> unallocated b | Some n \<Rightarrow> n"
  let ?names = "case to of None \<Rightarrow> map mb_name members | Some nm \<Rightarrow> [nm]"
  have pre: "bk_migrated b" "0 < sint (unallocated b)" "?amt \<noteq> 0"
    "sint (signed_amount ?amt) \<le> sint (unallocated b)" "?names \<noteq> []"
    "set ?names \<subseteq> mb_name ` set members"
    using assms unfolding book_allocate_def Let_def
    by (simp_all split: if_splits option.splits sum.splits)
  have "\<exists>bal. allocate_to now (zip ?names (split_evenly ?amt (length ?names)))
      (bk_balances (join members b)) = Some (bal, es) \<and> b' = (join members b)\<lparr> bk_balances := bal \<rparr>"
    using assms pre unfolding book_allocate_def Let_def
    by (cases to) (auto split: if_splits bind_splits)
  then obtain bal where "allocate_to now (zip ?names (split_evenly ?amt (length ?names)))
      (bk_balances (join members b)) = Some (bal, es)" "b' = (join members b)\<lparr> bk_balances := bal \<rparr>" by blast
  with pre show thesis by (intro that) auto
qed

text \<open>C10: an allocation that succeeds takes exactly its amount out of what is unallocated, in one
  entry per receiving user that shares the amount evenly; it can never give out more than is
  unallocated.\<close>

theorem allocate_takes_from_unallocated:
  assumes "book_wf b" "book_allocate members to amount now b = Some (b', Inr es)"
    "amt = (case amount of None \<Rightarrow> unallocated b | Some n \<Rightarrow> n)" "unat amt < 2 ^ 63"
  shows "bt_sum (bk_balances b') = bt_sum (bk_balances b) + amt \<and> entry_sum es = amt
    \<and> 0 < unat amt \<and> int (unat amt) \<le> sint (unallocated b)
    \<and> map en_user es = (case to of None \<Rightarrow> map mb_name members | Some nm \<Rightarrow> [nm])
    \<and> (\<forall>e\<in>set es. en_kind e = Allocate) \<and> book_wf b' \<and> bk_packages b' = bk_packages b"
proof -
  obtain names bal where run: "amt \<noteq> 0" "sint (signed_amount amt) \<le> sint (unallocated b)"
    "names = (case to of None \<Rightarrow> map mb_name members | Some nm \<Rightarrow> [nm])" "names \<noteq> []"
    "set names \<subseteq> mb_name ` set members"
    "allocate_to now (zip names (split_evenly amt (length names))) (bk_balances (join members b)) = Some (bal, es)"
    "b' = (join members b)\<lparr> bk_balances := bal \<rparr>"
    by (rule allocate_InrD [OF assms(2), folded assms(3)]) blast
  let ?xs = "zip names (split_evenly amt (length names))"
  have wf: "bt_wf (bk_balances (join members b))"
    using join_wf [OF assms(1)] by (simp add: book_wf_def)
  have "fst ` set ?xs \<subseteq> keys (bk_balances (join members b))"
    using run(5) by (auto simp: join_keys map_fst_zip_shares)
  with wf have laws: "bt_wf bal \<and> keys bal = keys (bk_balances (join members b))
      \<and> bt_sum bal = bt_sum (bk_balances (join members b)) + entry_sum es
      \<and> entry_sum es = sum_list (map (\<lambda>x. signed_amount (snd x)) ?xs)
      \<and> (\<forall>e\<in>set es. en_kind e = Allocate) \<and> map en_user es = map fst ?xs"
    by (rule allocate_to_laws [of _ ?xs now]) (use run(6) in simp)
  have sum: "entry_sum es = amt"
    using laws split_evenly_sum_signed [of "length names" amt] run(4) assms(4)
    by (simp add: map_snd_zip_shares)
  have "bt_sum (bk_balances b') = bt_sum (bk_balances b) + amt"
    using laws sum assms(1) by (simp add: run(7) join_sum book_wf_def)
  moreover have "0 < unat amt" using run(1) by (simp add: unat_gt_0)
  moreover have "int (unat amt) \<le> sint (unallocated b)"
    using run(2) assms(4) by (simp add: sint_signed_amount del: of_nat_unat)
  moreover have "map en_user es = (case to of None \<Rightarrow> map mb_name members | Some nm \<Rightarrow> [nm])"
    using laws run(3) by simp
  moreover have "book_wf b'" "bk_packages b' = bk_packages b"
    using join_wf [OF assms(1), of members] laws by (simp_all add: run(7) book_wf_def)
  ultimately show ?thesis using sum laws by blast
qed

lemma book_transfer_total:
  assumes "book_wf b"
  shows "book_transfer members from to amt now b \<noteq> None"
proof (cases "bk_migrated b \<and> amt \<noteq> 0 \<and> from \<noteq> to \<and> find_member from members \<noteq> None \<and> find_member to members \<noteq> None")
  case True
  then obtain source target where pre: "bk_migrated b" "amt \<noteq> 0" "from \<noteq> to"
    "find_member from members = Some source" "find_member to members = Some target" by auto
  show ?thesis by (rule transfer_cases [OF assms pre, of now]) simp_all
qed (auto simp: book_transfer_def split: option.split)

lemma book_allocate_total:
  assumes "book_wf b"
  shows "book_allocate members to amt now b \<noteq> None"
proof -
  have "allocate_to now (zip names (split_evenly n (length names))) (bk_balances (join members b)) \<noteq> None"
    if "set names \<subseteq> mb_name ` set members" for names n
  proof -
    have "bt_wf (bk_balances (join members b))" using join_wf [OF assms] by (simp add: book_wf_def)
    moreover have "fst ` set (zip names (split_evenly n (length names))) \<subseteq> keys (bk_balances (join members b))"
      using that by (auto simp: join_keys map_fst_zip_shares)
    ultimately show ?thesis by (rule allocate_to_laws [where now = now]) simp
  qed
  then have "\<exists>bal es. allocate_to now (zip names (split_evenly n (length names))) (bk_balances (join members b)) = Some (bal, es)"
    if "set names \<subseteq> mb_name ` set members" for names n
    using that by fastforce
  from this [of "case to of None \<Rightarrow> map mb_name members | Some nm \<Rightarrow> [nm]" "case amt of None \<Rightarrow> unallocated b | Some n \<Rightarrow> n"]
  show ?thesis by (cases to) (auto simp: book_allocate_def Let_def)
qed

section \<open>Crediting once\<close>

definition credited :: "book \<Rightarrow> string \<Rightarrow> bool" where
  "credited b pid \<longleftrightarrow> (\<exists>r. bt_get (bk_packages b) pid = Some r \<and> rec_credit r \<noteq> None)"

definition credits_package :: "string \<Rightarrow> entry list \<Rightarrow> bool" where
  "credits_package pid es \<longleftrightarrow> (\<exists>e\<in>set es. en_kind e = Credit \<and> en_package e = Some pid)"

lemma credit_one_marks:
  "credit_one now a names pid r bal = (r', bal', es) \<Longrightarrow> es \<noteq> [] \<Longrightarrow> rec_credit r' \<noteq> None"
  by (cases rule: credit_one_cases [of now a names pid r bal]) auto

lemma credit_one_package: "e \<in> set (snd (snd (credit_one now a names pid r bal))) \<Longrightarrow> en_package e = Some pid"
  by (cases rule: credit_one_cases [of now a names pid r bal]) (auto simp: credit_entry_def)

lemma credit_packages_marks:
  assumes "credit_packages now a names ps bal = (ps', bal', es)" "e \<in> set es"
  shows "\<exists>(pid, r')\<in>set ps'. en_package e = Some pid \<and> rec_credit r' \<noteq> None"
  using assms
proof (induction ps arbitrary: bal ps' bal' es)
  case (Cons x ps)
  obtain pid r where x: "x = (pid, r)" by fastforce
  obtain r1 bal1 es1 where one: "credit_one now a names pid r bal = (r1, bal1, es1)"
    using prod_cases3 by blast
  obtain ps2 bal2 es2 where rest: "credit_packages now a names ps bal1 = (ps2, bal2, es2)"
    using prod_cases3 by blast
  from Cons.prems(1) x one rest have out: "ps' = (pid, r1) # ps2" "es = es1 @ es2" by auto
  show ?case
  proof (cases "e \<in> set es1")
    case True
    then have "es1 \<noteq> []" by auto
    with True show ?thesis
      using credit_one_marks [OF one] credit_one_package [of e now a names pid r bal] one
      by (auto simp: out)
  next
    case False
    with Cons.prems(2) Cons.IH [OF rest] show ?thesis by (auto simp: out)
  qed
qed simp

lemma reconcile_migrated_credit:
  assumes "book_wf b0" "reconcile_migrated packages members a now previous b0 = Some (b', es)"
  shows "bt_get (bk_packages b0) pid = Some r \<Longrightarrow> rec_credit r = Some c
      \<Longrightarrow> (\<exists>r'. bt_get (bk_packages b') pid = Some r' \<and> rec_credit r' = Some c) \<and> \<not> credits_package pid es"
    and "credits_package pid es \<Longrightarrow> credited b' pid"
proof -
  obtain ps1 gone forfeited ps2 added ps3 bal1 credits expiries sweeps where
    expire: "expire_packages (fetched_map packages) (bk_packages b0) 0 = (ps1, gone, forfeited)"
    and absorb: "absorb_packages packages ps1 0 = (ps2, added)"
    and credit: "credit_packages now a (map mb_name members) ps2 (bk_balances (join members b0))
       = (ps3, bal1, credits)"
    and pkgs: "bk_packages b' = ps3" and wf': "book_wf b'"
    and kinds: "\<forall>e\<in>set expiries. en_kind e = Expiry" "\<forall>e\<in>set sweeps. en_kind e = Allocate"
    and es: "es = credits @ expiries @ sweeps"
    by (rule reconcile_migrated_run [OF assms(1), of packages now a members previous])
      (use assms(2) in auto)
  have wf_bal: "bt_wf (bk_balances (join members b0))"
    using join_wf [OF assms(1)] by (simp add: book_wf_def)
  have rel1: "bt_rel same_credit (bk_packages b0) ps1"
    using expire_rel [of "bk_packages b0" "fetched_map packages" 0] expire by simp
  have ok: "packages_ok (bk_packages b0)" using assms(1) by (simp add: book_wf_packages)
  have "packages_ok ps1" by (rule packages_ok_rel [OF ok rel1]) (simp add: same_credit_def)
  with absorb have wf2: "bt_wf ps2"
    using absorb_ok [of ps1 packages 0] by (simp add: packages_ok_def)
  note laws = credit_packages_laws [OF credit wf_bal]
  have in_credits: "credits_package pid es \<longleftrightarrow> (\<exists>e\<in>set credits. en_package e = Some pid)"
    using laws kinds by (auto simp: credits_package_def es)
  show "(\<exists>r'. bt_get (bk_packages b') pid = Some r' \<and> rec_credit r' = Some c) \<and> \<not> credits_package pid es"
    if r: "bt_get (bk_packages b0) pid = Some r" "rec_credit r = Some c"
  proof -
    obtain r1 where r1: "bt_get ps1 pid = Some r1" "same_credit r r1"
      by (rule bt_rel_get_Some [OF rel1 r(1)])
    obtain r2 where r2: "bt_get ps2 pid = Some r2" "rec_credit r2 = Some c"
      using absorb_credit [OF r1(1), of packages 0] absorb r1(2) r(2) by (auto simp: same_credit_def)
    obtain r3 where "bt_get ps3 pid = Some r3" "credit_extends r2 r3"
      by (rule bt_rel_get_Some [OF conjunct1 [OF laws] r2(1)])
    moreover have "\<not> (\<exists>e\<in>set credits. en_package e = Some pid)"
      using laws r2 bt.in_iter [OF wf2] by fastforce
    ultimately show ?thesis
      using r2(2) by (auto simp: pkgs credit_extends_def in_credits)
  qed
  show "credited b' pid" if "credits_package pid es"
    using that credit_packages_marks [OF credit] wf' bt.in_iter [of ps3]
    by (fastforce simp: in_credits credited_def pkgs book_wf_def)
qed

text \<open>One step of a book keeps the invariant, the credits, and credits no package twice.\<close>

lemma migrate_no_credit: "book_wf b \<Longrightarrow> migrate packages members now b = (b', es) \<Longrightarrow> \<not> credits_package pid es"
  by (rule migrate_run [of b now members packages]) (auto simp: credits_package_def)

lemma book_step_sync:
  assumes "book_inv b" "reconcile packages members a now b = Some (b', es)" "distinct (map mb_name members)"
  shows "book_inv b'" "credited b pid \<Longrightarrow> credited b' pid \<and> \<not> credits_package pid es"
    "credits_package pid es \<Longrightarrow> credited b' pid"
proof -
  have wf: "book_wf b" using assms(1) by (simp add: book_inv_def)
  show "book_inv b'"
    by (rule reconcile_run [OF wf assms(3), of packages a now]) (use assms(2) in \<open>auto simp: book_inv_def\<close>)
  let ?b1 = "b\<lparr> bk_remaining := effective_remaining packages, bk_synced_at := now \<rparr>"
  have wf1: "book_wf ?b1" using wf by simp
  show "credited b' pid \<and> \<not> credits_package pid es" if c: "credited b pid"
  proof (cases "bk_migrated b")
    case True
    with assms(2) have "reconcile_migrated packages members a now (bk_remaining b) ?b1 = Some (b', es)"
      by (simp add: reconcile_migrated_eq)
    note keeps = reconcile_migrated_credit(1) [OF wf1 this]
    obtain r d where "bt_get (bk_packages ?b1) pid = Some r" "rec_credit r = Some d"
      using c by (auto simp: credited_def)
    from keeps [OF this] show ?thesis by (auto simp: credited_def)
  next
    case False
    with assms(1) c show ?thesis by (simp add: book_inv_def credited_def)
  qed
  show "credited b' pid" if c: "credits_package pid es"
  proof (cases "bk_migrated b")
    case True
    with assms(2) have "reconcile_migrated packages members a now (bk_remaining b) ?b1 = Some (b', es)"
      by (simp add: reconcile_migrated_eq)
    from reconcile_migrated_credit(2) [OF wf1 this c] show ?thesis .
  next
    case False
    have "book_wf (?b1\<lparr> bk_consumed := 0, bk_metered := 0 \<rparr>)" using wf by simp
    from migrate_no_credit [OF this] assms(2) False c show ?thesis
      by (auto simp: reconcile_def)
  qed
qed

lemma book_step_transfer:
  assumes "book_inv b" "book_transfer members from to amount now b = Some (b', r)"
  shows "book_inv b'" "bk_packages b' = bk_packages b"
    "\<not> credits_package pid (case r of Inl _ \<Rightarrow> [] | Inr es \<Rightarrow> es)"
proof -
  have wf: "book_wf b" using assms(1) by (simp add: book_inv_def)
  have goal: "book_inv b' \<and> bk_packages b' = bk_packages b
     \<and> \<not> credits_package pid (case r of Inl _ \<Rightarrow> [] | Inr es \<Rightarrow> es)"
  proof (cases "bk_migrated b \<and> amount \<noteq> 0 \<and> from \<noteq> to \<and> find_member from members \<noteq> None
      \<and> find_member to members \<noteq> None")
    case False
    with assms show ?thesis
      by (cases "find_member from members"; cases "find_member to members")
        (auto simp: book_transfer_def credits_package_def split: if_splits)
  next
    case True
    then obtain source target where pre: "bk_migrated b" "amount \<noteq> 0" "from \<noteq> to"
      "find_member from members = Some source" "find_member to members = Some target" by auto
    show ?thesis
      by (rule transfer_cases [OF wf pre, of now])
        (use assms(2) pre(1) join_wf [OF wf, of members] in
          \<open>auto simp: book_inv_def book_wf_def credits_package_def\<close>)
  qed
  then show "book_inv b'" "bk_packages b' = bk_packages b"
    "\<not> credits_package pid (case r of Inl _ \<Rightarrow> [] | Inr es \<Rightarrow> es)" by blast+
qed

lemma allocate_Inl: "book_allocate members to amount now b = Some (b', Inl e) \<Longrightarrow> b' = b"
  unfolding book_allocate_def Let_def
  by (cases to) (auto split: if_splits bind_splits)

lemma book_step_allocate:
  assumes "book_inv b" "book_allocate members to amount now b = Some (b', r)"
  shows "book_inv b'" "bk_packages b' = bk_packages b"
    "\<not> credits_package pid (case r of Inl _ \<Rightarrow> [] | Inr es \<Rightarrow> es)"
proof -
  have wf: "book_wf b" using assms(1) by (simp add: book_inv_def)
  have goal: "book_inv b' \<and> bk_packages b' = bk_packages b
     \<and> \<not> credits_package pid (case r of Inl _ \<Rightarrow> [] | Inr es \<Rightarrow> es)"
  proof (cases r)
    case (Inl e)
    with assms allocate_Inl show ?thesis by (fastforce simp: credits_package_def)
  next
    case (Inr es)
    obtain names bal amt where run: "bk_migrated b" "set names \<subseteq> mb_name ` set members"
      "allocate_to now (zip names (split_evenly amt (length names))) (bk_balances (join members b)) = Some (bal, es)"
      "b' = (join members b)\<lparr> bk_balances := bal \<rparr>"
      by (rule allocate_InrD [OF assms(2) [unfolded Inr]]) blast
    have wf1: "book_wf (join members b)" using wf by (rule join_wf)
    then have "bt_wf (bk_balances (join members b))" by (simp add: book_wf_def)
    moreover have "fst ` set (zip names (split_evenly amt (length names))) \<subseteq> keys (bk_balances (join members b))"
      using run(2) by (auto simp: join_keys map_fst_zip_shares)
    ultimately have "bt_wf bal \<and> keys bal = keys (bk_balances (join members b)) \<and> (\<forall>e\<in>set es. en_kind e = Allocate)"
      by (rule allocate_to_laws [where now = now]) (use run(3) in simp)
    with run wf1 show ?thesis
      by (auto simp: Inr book_inv_def book_wf_def credits_package_def)
  qed
  then show "book_inv b'" "bk_packages b' = bk_packages b"
    "\<not> credits_package pid (case r of Inl _ \<Rightarrow> [] | Inr es \<Rightarrow> es)" by blast+
qed

lemma book_step_laws:
  assumes "book_step b es b'" "book_inv b"
  shows "book_inv b'" "credited b pid \<Longrightarrow> credited b' pid \<and> \<not> credits_package pid es"
    "credits_package pid es \<Longrightarrow> credited b' pid"
proof -
  have goal: "book_inv b' \<and> (credited b pid \<longrightarrow> credited b' pid \<and> \<not> credits_package pid es)
     \<and> (credits_package pid es \<longrightarrow> credited b' pid)"
    using assms
  proof (cases rule: book_step.cases)
    case (sync packages members a now)
    with book_step_sync [OF assms(2) sync(1,2)] show ?thesis by blast
  next
    case (transfer members src dst amount now r)
    with book_step_transfer [OF assms(2) transfer(2)] show ?thesis by (auto simp: credited_def)
  next
    case (allocate members dst amount now r)
    with book_step_allocate [OF assms(2) allocate(2)] show ?thesis by (auto simp: credited_def)
  qed
  then show "book_inv b'" "credited b pid \<Longrightarrow> credited b' pid \<and> \<not> credits_package pid es"
    "credits_package pid es \<Longrightarrow> credited b' pid" by blast+
qed

lemma book_run_credits:
  assumes "book_run b ess b'" "book_inv b"
  shows "book_inv b'
    \<and> length (filter (credits_package pid) ess) \<le> (if credited b' pid then 1 else 0)"
  using assms
proof (induction rule: book_run.induct)
  case (step b ess b1 es b2)
  then have IH: "book_inv b1" "length (filter (credits_package pid) ess) \<le> (if credited b1 pid then 1 else 0)"
    by blast+
  note laws = book_step_laws(1) [OF step.hyps(2) IH(1)] book_step_laws(2,3) [OF step.hyps(2) IH(1), of pid]
  show ?case
    using IH(2) laws by (cases "credited b1 pid"; cases "credits_package pid es") auto
qed simp

lemma book_inv_default [simp]: "book_inv book_default"
  by (simp add: book_inv_def book_default_def book_wf_def)

text \<open>C4: along every history of a book that starts empty, whatever the provider reports and
  however transfers and allocations are interleaved, the book stays well-formed and no
  package is credited by more than one step.\<close>

theorem credited_at_most_once:
  assumes "book_run book_default ess b"
  shows "book_wf b \<and> length (filter (credits_package pid) ess) \<le> 1"
  using book_run_credits [OF assms book_inv_default, of pid] by (auto simp: book_inv_def split: if_splits)

section \<open>Limits\<close>

lemma book_limits_eq: "bt_wf (bk_baselines b) \<Longrightarrow> book_limits b k = book_limit b k"
proof -
  let ?f = "\<lambda>nm. map_option (Pair nm) (book_limit b nm)"
  have pick: "map_of (List.map_filter ?f ks) k = (if k \<in> set ks then book_limit b k else None)" for ks
    by (induction ks) (auto simp: map_filter_simps split: option.splits)
  show ?thesis
    unfolding book_limits_def pick by (auto simp: bt_keys_set book_limit_def split: option.splits)
qed

text \<open>C13: the limits published after a reconciliation let every user spend exactly the balance,
  and nothing when it is not positive, on top of what the user has used so far (up to the
  largest limit a 64-bit counter can hold).\<close>

theorem limits_grant_the_balance:
  assumes "book_wf b" "distinct (map mb_name members)" "m \<in> set members"
    "reconcile packages members a now b = Some (b', es)"
  shows "\<exists>l v. book_limits b' (mb_name m) = Some l \<and> bt_get (bk_balances b') (mb_name m) = Some v
    \<and> unat l = min (unat (mb_used m) + nat (sint v)) (2 ^ 64 - 1)"
proof -
  have base: "bt_get (bk_baselines b') (mb_name m) = Some (mb_used m)" and wf: "book_wf b'"
    and ks: "keys (bk_balances b') = keys (bk_balances b) \<union> mb_name ` set members"
    by (rule reconcile_run [OF assms(1,2), of packages a now]; use assms(3,4) in simp)+
  obtain v where v: "bt_get (bk_balances b') (mb_name m) = Some v"
    using ks assms(3) keys_iff_get [of "mb_name m" "bk_balances b'"] by auto
  have granted: "unat (if sint v < 0 then 0 else v) = nat (sint v)"
    using int_unat_eq_sint [of v] by (cases "sint v < 0") (simp_all del: of_nat_unat)
  have "book_limits b' (mb_name m) = Some (saturating_add (mb_used m) (if sint v < 0 then 0 else v))"
    using wf base v by (simp add: book_limits_eq book_wf_def book_limit_def)
  with v granted show ?thesis by (simp add: unat_saturating_add)
qed

section \<open>The laws at work\<close>

definition sample_package :: "string \<Rightarrow> u64 \<Rightarrow> u64 \<Rightarrow> string \<Rightarrow> package" where
  "sample_package i t available status = \<lparr> pkg_id = i, pkg_name = ''plan'', pkg_region = ''cn'',
     pkg_total = t, pkg_available = available, pkg_status = status, pkg_expiry = '''' \<rparr>"

definition sample_member :: "string \<Rightarrow> u64 \<Rightarrow> u64 option \<Rightarrow> member" where
  "sample_member nm used offline = \<lparr> mb_name = nm, mb_used = used, mb_offline_remaining = offline \<rparr>"

definition sample_assignments :: "string set \<Rightarrow> bool \<Rightarrow> assignments" where
  "sample_assignments split exclusive = \<lparr> as_split = split, as_owners = Map.empty, as_exclusive = exclusive \<rparr>"

definition sample_members :: "member list" where
  "sample_members = [sample_member ''ann'' 300 (Some 200), sample_member ''bob'' 60 (Some 400)]"

definition sample_packages :: "package list" where
  "sample_packages = [sample_package ''p1'' 1200 900 EFFECTIVE, sample_package ''p2'' 500 0 USED_UP]"

text \<open>The book after the first sync, with 60 bytes that nobody holds.\<close>

definition sample_book :: book where
  "sample_book = \<lparr> bk_migrated = True, bk_remaining = 960, bk_synced_at = 5, bk_consumed = 0,
     bk_metered = 0, bk_balances = [(''ann'', 300), (''bob'', 600)],
     bk_baselines = [(''ann'', 300), (''bob'', 60)],
     bk_packages = [(''p1'', \<lparr> rec_package = sample_package ''p1'' 1200 960 EFFECTIVE,
       rec_credit = Some CreditMigration \<rparr>)] \<rparr>"

text \<open>At the next sync ann has used 100 more, bob 50, and the package lost 150 bytes.\<close>

definition later_members :: "member list" where
  "later_members = [sample_member ''ann'' 400 None, sample_member ''bob'' 110 None]"

definition later_packages :: "package list" where
  "later_packages = [sample_package ''p1'' 1200 810 EFFECTIVE]"

definition later_book :: book where
  "later_book = \<lparr> bk_migrated = True, bk_remaining = 810, bk_synced_at = 9, bk_consumed = 150,
     bk_metered = 150, bk_balances = [(''ann'', 200), (''bob'', 550)],
     bk_baselines = [(''ann'', 400), (''bob'', 110)],
     bk_packages = [(''p1'', \<lparr> rec_package = sample_package ''p1'' 1200 810 EFFECTIVE,
       rec_credit = Some CreditMigration \<rparr>)] \<rparr>"

lemma sample_members_distinct: "distinct (map mb_name sample_members)" "distinct (map mb_name later_members)"
  by code_simp+

lemma sample_book_wf: "book_wf sample_book" "bk_migrated sample_book"
  by code_simp+

lemma later_run:
  "reconcile later_packages later_members (sample_assignments {} False) 9 sample_book = Some (later_book, [])"
proof -
  let ?b = "sample_book\<lparr> bk_remaining := effective_remaining later_packages, bk_synced_at := 9 \<rparr>"
  let ?as = "sample_assignments {} False"
  have "reconcile_migrated later_packages later_members ?as 9 (bk_remaining sample_book) ?b = Some (later_book, [] @ [] @ [])"
  proof (rule reconcile_migrated_eval)
    show "join later_members ?b = ?b" by code_simp
    show "expire_packages (fetched_map later_packages) (bk_packages ?b) 0
        = (bk_packages sample_book, 0, [])" by code_simp
    show "absorb_packages later_packages (bk_packages sample_book) 0 = (bk_packages later_book, 0)" by code_simp
    show "credit_packages 9 ?as (map mb_name later_members) (bk_packages later_book) (bk_balances ?b)
        = (bk_packages later_book, bk_balances sample_book, [])" by code_simp
    show "consumed_since (bk_remaining sample_book) 0 0 (bk_remaining ?b) = 150" by code_simp
    show "metered_usage (bk_baselines ?b) later_members = Some [100, 50]" by code_simp
    show "fold (\<lambda>used sum. saturating_add sum used) [100, 50] 0 = 150" by code_simp
    show "(if 150 > (0 :: u64) \<and> 150 > (0 :: u64)
        then charge_members (zip later_members (split_by 150 [100, 50])) (bk_balances sample_book)
        else Some (bk_balances sample_book)) = Some (bk_balances later_book)" by code_simp
    show "forfeit 9 [] (bk_balances later_book) = Some (bk_balances later_book, [])" by code_simp
    show "sweep_exclusive 9 ?as later_members (?b\<lparr> bk_packages := bk_packages later_book,
        bk_balances := bk_balances later_book, bk_baselines := set_baselines later_members (bk_baselines ?b),
        bk_consumed := 150, bk_metered := 150 \<rparr>) = Some (later_book, [])" by code_simp
  qed
  then show ?thesis using sample_book_wf(2) by (simp add: reconcile_migrated_eq)
qed

text \<open>Then the first package disappears with 810 bytes left, a new one of 100 bytes is shared
  out, and ann uses 10 bytes.\<close>

definition third_members :: "member list" where
  "third_members = [sample_member ''ann'' 410 None, sample_member ''bob'' 110 None]"

definition third_packages :: "package list" where
  "third_packages = [sample_package ''p3'' 100 90 EFFECTIVE]"

definition third_records :: "credit option \<Rightarrow> (string, package_record) btree" where
  "third_records c =
     [(''p1'', \<lparr> rec_package = sample_package ''p1'' 1200 810 ''Missing'', rec_credit = Some CreditMigration \<rparr>),
      (''p3'', \<lparr> rec_package = sample_package ''p3'' 100 90 EFFECTIVE, rec_credit = c \<rparr>)]"

definition third_credits :: "entry list" where
  "third_credits = [credit_entry 12 ''p3'' ''ann'' 50, credit_entry 12 ''p3'' ''bob'' 50]"

definition third_expiries :: "entry list" where
  "third_expiries = [\<lparr> en_time = 12, en_kind = Expiry, en_user = ''ann'', en_amount = - 231,
       en_package = Some ''p1'', en_note = '''' \<rparr>,
     \<lparr> en_time = 12, en_kind = Expiry, en_user = ''bob'', en_amount = - 579,
       en_package = Some ''p1'', en_note = '''' \<rparr>]"

definition third_book :: book where
  "third_book = \<lparr> bk_migrated = True, bk_remaining = 90, bk_synced_at = 12, bk_consumed = 10,
     bk_metered = 10, bk_balances = [(''ann'', 9), (''bob'', 21)],
     bk_baselines = [(''ann'', 410), (''bob'', 110)], bk_packages = third_records (Some CreditSplit) \<rparr>"

lemma later_book_wf: "book_wf later_book" "bk_migrated later_book"
  by code_simp+

lemma third_expire:
  "expire_packages (fetched_map third_packages) (bk_packages later_book) 0
     = (take 1 (third_records None), 810, [(''p1'', 810)])"
  by code_simp

lemma third_absorb:
  "absorb_packages third_packages (take 1 (third_records None)) 0 = (third_records None, 100)"
  by code_simp

lemma third_run:
  "reconcile third_packages third_members (sample_assignments {''p3''} False) 12 later_book
     = Some (third_book, third_credits @ third_expiries @ [])"
proof -
  let ?b = "later_book\<lparr> bk_remaining := effective_remaining third_packages, bk_synced_at := 12 \<rparr>"
  let ?as = "sample_assignments {''p3''} False"
  have "reconcile_migrated third_packages third_members ?as 12 (bk_remaining later_book) ?b
      = Some (third_book, third_credits @ third_expiries @ [])"
  proof (rule reconcile_migrated_eval)
    show "join third_members ?b = ?b" by code_simp
    show "expire_packages (fetched_map third_packages) (bk_packages ?b) 0
        = (take 1 (third_records None), 810, [(''p1'', 810)])" using third_expire by simp
    show "absorb_packages third_packages (take 1 (third_records None)) 0 = (third_records None, 100)"
      by (rule third_absorb)
    show "credit_packages 12 ?as (map mb_name third_members) (third_records None) (bk_balances ?b)
        = (third_records (Some CreditSplit), [(''ann'', 250), (''bob'', 600)], third_credits)" by code_simp
    show "consumed_since (bk_remaining later_book) 100 810 (bk_remaining ?b) = 10" by code_simp
    show "metered_usage (bk_baselines ?b) third_members = Some [10, 0]" by code_simp
    show "fold (\<lambda>used sum. saturating_add sum used) [10, 0] 0 = 10" by code_simp
    show "(if 10 > (0 :: u64) \<and> 10 > (0 :: u64)
        then charge_members (zip third_members (split_by 10 [10, 0])) [(''ann'', 250), (''bob'', 600)]
        else Some [(''ann'', 250), (''bob'', 600)]) = Some [(''ann'', 240), (''bob'', 600)]" by code_simp
    show "forfeit 12 [(''p1'', 810)] [(''ann'', 240), (''bob'', 600)]
        = Some (bk_balances third_book, third_expiries)" by code_simp
    show "sweep_exclusive 12 ?as third_members (?b\<lparr> bk_packages := third_records (Some CreditSplit),
        bk_balances := bk_balances third_book, bk_baselines := set_baselines third_members (bk_baselines ?b),
        bk_consumed := 10, bk_metered := 10 \<rparr>) = Some (third_book, [])" by code_simp
  qed
  then show ?thesis using later_book_wf(2) by (simp add: reconcile_migrated_eq)
qed

lemma third_sums: "bt_sum (bk_balances third_book) = 30" "bt_sum (bk_balances later_book) = 750"
  "entry_sum (third_credits @ third_expiries @ []) = - 710"
  by code_simp+




lemma sweep_eval:
  assumes "as_exclusive a" "members = [m]" "unallocated b = w" "bt_modify (mb_name m) (\<lambda>x. x + w) (bk_balances b) = Some bal"
  shows "sweep_exclusive now a members b = Some (b\<lparr> bk_balances := bal \<rparr>, sweep_entries now a members w)"
  using assms by (simp add: sweep_exclusive_def sweep_entries_def)





theorem reconcile_total_witness:
  "book_wf sample_book \<and> distinct (map mb_name later_members)
     \<and> (\<exists>b' es. reconcile later_packages later_members (sample_assignments {} False) 9 sample_book = Some (b', es)
          \<and> book_wf b' \<and> bk_remaining b' = effective_remaining later_packages)"
  using reconcile_total [OF sample_book_wf(1) sample_members_distinct(2),
      of later_packages "sample_assignments {} False" 9]
    sample_book_wf sample_members_distinct by blast

theorem migration_allocates_all_witness:
  "\<exists>b' es. reconcile sample_packages sample_members (sample_assignments {} False) 5 book_default = Some (b', es)
     \<and> unallocated b' = 0 \<and> map en_user es = [''ann'', ''bob''] \<and> entry_sum es = 900
     \<and> bt_get (bk_balances b') ''ann'' = Some 300 \<and> bt_get (bk_balances b') ''bob'' = Some 600"
proof -
  have eval: "effective_remaining sample_packages = 900" "map mb_name sample_members = [''ann'', ''bob'']"
    "migration_weights sample_members = [200, 400]" "length sample_members = 2" by code_simp+
  have shape: "proportional 900 [200, 400] xs \<Longrightarrow> xs = [300, 600]" for xs
    by (cases xs; cases "tl xs") (auto simp: proportional_def numeral_2_eq_2 All_less_Suc2)
  have names: "mb_name (sample_members ! 0) = ''ann''" "mb_name (sample_members ! 1) = ''bob''" by code_simp+
  obtain b' es xs where run: "reconcile sample_packages sample_members (sample_assignments {} False) 5 book_default = Some (b', es)"
    "unallocated b' = 0" "map en_user es = [''ann'', ''bob'']" "entry_sum es = 900"
    "proportional 900 [200, 400] xs"
    "\<forall>i<2. bt_get (bk_balances b') (mb_name (sample_members ! i)) = Some (word_of_nat (xs ! i)) \<and> xs ! i < 2 ^ 63"
    using migration_allocates_all [OF book_wf_default _ _ _ sample_members_distinct(1), of sample_packages
      "sample_assignments {} False" 5] unfolding eval
    by (auto simp: book_default_def sample_members_def)
  from run(6) names have "bt_get (bk_balances b') ''ann'' = Some 300" "bt_get (bk_balances b') ''bob'' = Some 600"
    unfolding shape [OF run(5)] by (auto dest: spec [of _ 0] spec [of _ 1])
  with run(1-4) show ?thesis by (intro exI conjI)
qed

theorem entries_account_for_balances_witness:
  "(\<forall>nm. balance_of (bk_balances third_book) nm = balance_of (bk_balances later_book) nm
       + user_sum nm (third_credits @ third_expiries @ []) - (if nm = ''ann'' then 10 else 0))
   \<and> bt_sum (bk_balances third_book) = bt_sum (bk_balances later_book) + entry_sum (third_credits @ third_expiries @ []) - 10"
proof -
  have "charge_of later_book third_members third_book nm = (if nm = ''ann'' then 10 else 0)" for nm
  proof -
    have "zip (map mb_name third_members) (split_by (bk_consumed third_book) (map (used_since later_book) third_members))
        = [(''ann'', 10), (''bob'', 0)]" by code_simp
    moreover have "signed_amount 10 = 10" "signed_amount 0 = 0" by code_simp+
    moreover have "bk_consumed third_book = 10" "bk_metered third_book = 10" by code_simp+
    ultimately show ?thesis by (simp add: charge_of_def)
  qed
  moreover have "bk_consumed third_book = 10" "bk_metered third_book = 10" "\<not> as_exclusive (sample_assignments {''p3''} False)"
    "distinct (map mb_name third_members)"
    by code_simp+
  ultimately show ?thesis
    using entries_account_for_balances [OF later_book_wf _ third_run] by simp
qed


theorem limits_grant_the_balance_witness:
  "\<exists>l. book_limits later_book ''ann'' = Some l \<and> unat l = 600"
proof -
  have m: "sample_member ''ann'' 400 None \<in> set later_members" by (simp add: later_members_def)
  have "bt_get (bk_balances later_book) ''ann'' = Some 200" by code_simp
  with limits_grant_the_balance [OF sample_book_wf(1) sample_members_distinct(2) m later_run]
  show ?thesis by (simp add: sample_member_def)
qed

theorem credited_at_most_once_witness:
  "\<exists>ess b. book_run book_default ess b \<and> length ess = 1 \<and> length (filter (credits_package ''p1'') ess) \<le> 1"
proof -
  obtain b es where "reconcile sample_packages sample_members (sample_assignments {} False) 5 book_default = Some (b, es)"
    by (rule reconcile_run [OF book_wf_default sample_members_distinct(1), of sample_packages
          "sample_assignments {} False" 5]) blast
  then have "book_step book_default es b" by (rule book_step.sync) (rule sample_members_distinct(1))
  from book_run.step [OF book_run.start this] have run: "book_run book_default [es] b" by simp
  from credited_at_most_once [OF run, of "''p1''"] run show ?thesis
    by (intro exI [of _ "[es]"] exI [of _ b]) simp
qed

text \<open>Ann holds 300 bytes and has used 100 of them; she gives bob 150.\<close>

definition transferred :: book where
  "transferred = sample_book\<lparr> bk_balances := [(''ann'', 150), (''bob'', 750)] \<rparr>"

definition transfer_entries :: "entry list" where
  "transfer_entries = [\<lparr> en_time = 7, en_kind = Transfer, en_user = ''ann'', en_amount = - 150,
       en_package = None, en_note = ''bob'' \<rparr>,
     \<lparr> en_time = 7, en_kind = Transfer, en_user = ''bob'', en_amount = 150,
       en_package = None, en_note = ''ann'' \<rparr>]"

lemma sample_find:
  "find_member ''ann'' later_members = Some (sample_member ''ann'' 400 None)"
  "find_member ''bob'' later_members = Some (sample_member ''bob'' 110 None)"
  by code_simp+

lemma sample_join: "join later_members sample_book = sample_book"
  by code_simp

lemma sample_available: "available_to later_members (sample_member ''ann'' 400 None) sample_book = 200"
  unfolding available_to_def sample_join Let_def
  by (simp add: sample_member_def sample_book_def bt_get_def
      saturating_sub_def signed_amount_def i64_saturating_sub_def)

lemma sample_transfer:
  "book_transfer later_members ''ann'' ''bob'' 150 7 sample_book = Some (transferred, Inr transfer_entries)"
proof -
  have avail: "i64_saturating_sub 300 (signed_amount (saturating_sub (mb_used (sample_member ''ann'' 400 None)) 300)) = 200"
    "signed_amount 150 = 150"
    by (simp_all add: i64_saturating_sub_def signed_amount_def saturating_sub_def sample_member_def)
  have maps: "bt_get (bk_baselines sample_book) ''ann'' = Some 300" "bt_get (bk_balances sample_book) ''ann'' = Some 300"
    "bt_modify ''ann'' (\<lambda>x. x - 150) (bk_balances sample_book) = Some [(''ann'', 150), (''bob'', 600)]"
    "bt_modify ''bob'' (\<lambda>x. x + 150) [(''ann'', 150), (''bob'', 600 :: i64)] = Some [(''ann'', 150), (''bob'', 750)]"
    by code_simp+
  show ?thesis
    using sample_book_wf(2)
    by (simp add: book_transfer_def sample_find sample_join Let_def maps avail transferred_def transfer_entries_def)
qed

theorem transfer_conserves_witness:
  "bt_sum (bk_balances transferred) = bt_sum (bk_balances sample_book)
     \<and> bt_get (bk_balances transferred) ''bob'' = Some 750 \<and> entry_sum transfer_entries = 0
     \<and> bt_get (bk_baselines transferred) ''ann'' = Some 300"
proof -
  have "bt_get (bk_balances sample_book) ''bob'' = Some 600" "signed_amount 150 = 150"
    "bt_get (bk_baselines sample_book) ''ann'' = Some 300" by code_simp+
  with transfer_conserves [OF sample_book_wf(1) sample_transfer] show ?thesis by simp
qed

theorem transfer_succeeds_iff_witness:
  "book_wf sample_book
     \<and> (\<exists>b' e. book_transfer later_members ''ann'' ''bob'' 201 7 sample_book = Some (b', Inl e)
          \<and> bt_sum (bk_balances b') = bt_sum (bk_balances sample_book))"
proof -
  have "\<not> sint (signed_amount 201) \<le> sint (200 :: i64)" by code_simp
  moreover obtain b' r where res: "book_transfer later_members ''ann'' ''bob'' 201 7 sample_book = Some (b', r)"
    "(\<exists>es. r = Inr es) \<longrightarrow> sint (signed_amount 201) \<le> sint (200 :: i64)"
    "\<forall>e. r = Inl e \<longrightarrow> bt_sum (bk_balances b') = bt_sum (bk_balances sample_book)"
    using transfer_succeeds_iff [OF sample_book_wf(1), of later_members "''ann''" "''bob''" 201 7]
    by (auto simp: sample_find sample_available)
  ultimately show ?thesis using sample_book_wf(1) by (cases r) auto
qed

theorem transfer_limit_covers_use_witness:
  "\<exists>l. book_limit transferred ''ann'' = Some l \<and> 400 \<le> l"
  using transfer_limit_covers_use [OF sample_book_wf(1) sample_transfer sample_find(1)]
  by (simp add: sample_member_def)

text \<open>The 60 bytes nobody holds are allocated to both users.\<close>

lemma sample_unallocated: "unallocated sample_book = 60"
  by (simp add: unallocated_def sample_book_def bt_sum_def signed_amount_def i64_saturating_sub_def)

definition allocated :: book where
  "allocated = sample_book\<lparr> bk_balances := [(''ann'', 330), (''bob'', 630)] \<rparr>"

definition allocate_entries :: "entry list" where
  "allocate_entries = map (\<lambda>nm. \<lparr> en_time = 7, en_kind = Allocate, en_user = nm, en_amount = 30,
     en_package = None, en_note = '''' \<rparr>) [''ann'', ''bob'']"

lemma sample_allocate:
  "book_allocate later_members None None 7 sample_book = Some (allocated, Inr allocate_entries)"
proof -
  have names: "map mb_name later_members = [''ann'', ''bob'']" "later_members \<noteq> []" "signed_amount 60 = 60"
    by (simp_all add: later_members_def sample_member_def signed_amount_def)
  have "allocate_to 7 (zip [''ann'', ''bob''] (split_evenly 60 (length [''ann'', ''bob'']))) (bk_balances sample_book)
      = Some (bk_balances allocated, allocate_entries)"
    by code_simp
  with names sample_book_wf(2) show ?thesis
    by (simp add: book_allocate_def sample_unallocated sample_join Let_def allocated_def)
qed

theorem allocate_takes_from_unallocated_witness:
  "bt_sum (bk_balances allocated) = bt_sum (bk_balances sample_book) + 60 \<and> entry_sum allocate_entries = 60
     \<and> map en_user allocate_entries = [''ann'', ''bob'']"
  using allocate_takes_from_unallocated [OF sample_book_wf(1) sample_allocate, of 60]
  by (simp add: sample_unallocated later_members_def sample_member_def)

text \<open>Exclusive mode with a single user: ann is charged 150 bytes and takes the 60 bytes nobody held.\<close>

definition exclusive_members :: "member list" where
  "exclusive_members = [sample_member ''ann'' 400 None]"

definition exclusive_book :: book where
  "exclusive_book = later_book\<lparr> bk_metered := 100, bk_balances := [(''ann'', 210), (''bob'', 600)],
     bk_baselines := [(''ann'', 400), (''bob'', 60)] \<rparr>"

definition exclusive_entries :: "entry list" where
  "exclusive_entries = [\<lparr> en_time = 9, en_kind = Allocate, en_user = ''ann'', en_amount = 60, en_package = None, en_note = '''' \<rparr>]"

lemma exclusive_run:
  "reconcile later_packages exclusive_members (sample_assignments {} True) 9 sample_book
     = Some (exclusive_book, [] @ [] @ exclusive_entries)"
proof -
  let ?b = "sample_book\<lparr> bk_remaining := effective_remaining later_packages, bk_synced_at := 9 \<rparr>"
  let ?as = "sample_assignments {} True"
  have mode: "as_exclusive ?as" "exclusive_members = [sample_member ''ann'' 400 None]"
    by (simp_all add: sample_assignments_def exclusive_members_def)
  have rem: "effective_remaining later_packages = 810" by code_simp
  have bal: "bt_modify (mb_name (sample_member ''ann'' 400 None)) (\<lambda>x. x + 60) [(''ann'', 150), (''bob'', 600 :: i64)]
      = Some [(''ann'', 210), (''bob'', 600)]" by code_simp
  have entries: "sweep_entries 9 ?as exclusive_members 60 = exclusive_entries"
    by (simp add: mode sweep_entries_def exclusive_entries_def sample_member_def)
  have book: "exclusive_book = ?b\<lparr> bk_packages := bk_packages later_book,
        bk_balances := [(''ann'', 210), (''bob'', 600)], bk_baselines := set_baselines exclusive_members (bk_baselines ?b),
        bk_consumed := 150, bk_metered := 100 \<rparr>" by code_simp
  have "reconcile_migrated later_packages exclusive_members ?as 9 (bk_remaining sample_book) ?b
      = Some (exclusive_book, [] @ [] @ exclusive_entries)"
  proof (rule reconcile_migrated_eval)
    show "join exclusive_members ?b = ?b" by code_simp
    show "expire_packages (fetched_map later_packages) (bk_packages ?b) 0
        = (bk_packages sample_book, 0, [])" by code_simp
    show "absorb_packages later_packages (bk_packages sample_book) 0 = (bk_packages later_book, 0)" by code_simp
    show "credit_packages 9 ?as (map mb_name exclusive_members) (bk_packages later_book) (bk_balances ?b)
        = (bk_packages later_book, bk_balances sample_book, [])" by code_simp
    show "consumed_since (bk_remaining sample_book) 0 0 (bk_remaining ?b) = 150" by code_simp
    show "metered_usage (bk_baselines ?b) exclusive_members = Some [100]" by code_simp
    show "fold (\<lambda>used sum. saturating_add sum used) [100] 0 = 100" by code_simp
    show "(if 150 > (0 :: u64) \<and> 100 > (0 :: u64)
        then charge_members (zip exclusive_members (split_by 150 [100])) (bk_balances sample_book)
        else Some (bk_balances sample_book)) = Some [(''ann'', 150), (''bob'', 600)]" by code_simp
    show "forfeit 9 [] [(''ann'', 150), (''bob'', 600)] = Some ([(''ann'', 150), (''bob'', 600)], [])" by code_simp
    have "unallocated (?b\<lparr> bk_packages := bk_packages later_book,
        bk_balances := [(''ann'', 150), (''bob'', 600)], bk_baselines := set_baselines exclusive_members (bk_baselines ?b),
        bk_consumed := 150, bk_metered := 100 \<rparr>) = 60" unfolding rem
      by (simp add: unallocated_def bt_sum_def signed_amount_def i64_saturating_sub_def)
    from sweep_eval [OF mode(1,2) this, of "[(''ann'', 210), (''bob'', 600)]" 9] bal
    show "sweep_exclusive 9 ?as exclusive_members (?b\<lparr> bk_packages := bk_packages later_book,
        bk_balances := [(''ann'', 150), (''bob'', 600)], bk_baselines := set_baselines exclusive_members (bk_baselines ?b),
        bk_consumed := 150, bk_metered := 100 \<rparr>) = Some (exclusive_book, exclusive_entries)"
      unfolding book entries by simp
  qed
  then show ?thesis using sample_book_wf(2) by (simp add: reconcile_migrated_eq)
qed

theorem exclusive_leaves_nothing_unallocated_witness:
  "unallocated exclusive_book = 0 \<and> bt_sum (bk_balances exclusive_book) = 810
     \<and> filter (\<lambda>e. en_kind e = Allocate) exclusive_entries = exclusive_entries"
proof -
  have eval: "as_exclusive (sample_assignments {} True)" "length exclusive_members = 1"
    "unat (bk_consumed exclusive_book) < 2 ^ 63"
    "unswept sample_book exclusive_book ([] @ [] @ exclusive_entries) = 750"
    "signed_amount (effective_remaining later_packages) = 810" "mb_name (exclusive_members ! 0) = ''ann''"
    by code_simp+
  from exclusive_leaves_nothing_unallocated [OF sample_book_wf eval(1,2) exclusive_run eval(3)]
  show ?thesis unfolding eval by (simp add: exclusive_entries_def)
qed

section \<open>A package that is missing from one answer\<close>

text \<open>
  A package of 1000 bytes with 400 left is held by ann.  One answer of the provider leaves it
  out, the next has it again with the same 400 bytes.
\<close>

definition solo_members :: "u64 \<Rightarrow> member list" where
  "solo_members used = [sample_member ''ann'' used None]"

definition solo_record :: "string \<Rightarrow> (string, package_record) btree" where
  "solo_record status = [(''p'', \<lparr> rec_package = sample_package ''p'' 1000 400 status,
     rec_credit = Some CreditMigration \<rparr>)]"

definition solo_book :: "u64 \<Rightarrow> i64 \<Rightarrow> u64 \<Rightarrow> u64 \<Rightarrow> i64 \<Rightarrow> u64 \<Rightarrow> string \<Rightarrow> book" where
  "solo_book remaining synced consumed metered balance baseline status =
     \<lparr> bk_migrated = True, bk_remaining = remaining, bk_synced_at = synced, bk_consumed = consumed,
       bk_metered = metered, bk_balances = [(''ann'', balance)], bk_baselines = [(''ann'', baseline)],
       bk_packages = solo_record status \<rparr>"

lemma solo_gone:
  "reconcile [] (solo_members 0) (sample_assignments {} False) 2 (solo_book 400 1 0 0 400 0 EFFECTIVE)
     = Some (solo_book 0 2 0 0 0 0 ''Missing'', [] @ [\<lparr> en_time = 2, en_kind = Expiry, en_user = ''ann'',
         en_amount = - 400, en_package = Some ''p'', en_note = '''' \<rparr>] @ [])"
proof -
  let ?b = "(solo_book 400 1 0 0 400 0 EFFECTIVE)\<lparr> bk_remaining := effective_remaining [], bk_synced_at := 2 \<rparr>"
  let ?as = "sample_assignments {} False"
  have "reconcile_migrated [] (solo_members 0) ?as 2 400 ?b
     = Some (solo_book 0 2 0 0 0 0 ''Missing'', [] @ [\<lparr> en_time = 2, en_kind = Expiry, en_user = ''ann'',
         en_amount = - 400, en_package = Some ''p'', en_note = '''' \<rparr>] @ [])"
  proof (rule reconcile_migrated_eval)
    show "join (solo_members 0) ?b = ?b" by code_simp
    show "expire_packages (fetched_map []) (bk_packages ?b) 0 = (solo_record ''Missing'', 400, [(''p'', 400)])" by code_simp
    show "absorb_packages [] (solo_record ''Missing'') 0 = (solo_record ''Missing'', 0)" by code_simp
    show "credit_packages 2 ?as (map mb_name (solo_members 0)) (solo_record ''Missing'') (bk_balances ?b)
        = (solo_record ''Missing'', [(''ann'', 400)], [])" by code_simp
    show "consumed_since 400 0 400 (bk_remaining ?b) = 0" by code_simp
    show "metered_usage (bk_baselines ?b) (solo_members 0) = Some [0]" by code_simp
    show "fold (\<lambda>used sum. saturating_add sum used) [0] 0 = 0" by code_simp
    show "(if 0 > (0 :: u64) \<and> 0 > (0 :: u64) then charge_members (zip (solo_members 0) (split_by 0 [0])) [(''ann'', 400)]
        else Some [(''ann'', 400)]) = Some [(''ann'', 400)]" by code_simp
    show "forfeit 2 [(''p'', 400)] [(''ann'', 400)] = Some ([(''ann'', 0)], [\<lparr> en_time = 2, en_kind = Expiry,
        en_user = ''ann'', en_amount = - 400, en_package = Some ''p'', en_note = '''' \<rparr>])" by code_simp
    show "sweep_exclusive 2 ?as (solo_members 0) (?b\<lparr> bk_packages := solo_record ''Missing'',
        bk_balances := [(''ann'', 0)], bk_baselines := set_baselines (solo_members 0) (bk_baselines ?b),
        bk_consumed := 0, bk_metered := 0 \<rparr>) = Some (solo_book 0 2 0 0 0 0 ''Missing'', [])" by code_simp
  qed
  then show ?thesis by (simp add: reconcile_def solo_book_def)
qed

lemma solo_back:
  "reconcile [sample_package ''p'' 1000 400 EFFECTIVE] (solo_members 1) (sample_assignments {} False) 3
     (solo_book 0 2 0 0 0 0 ''Missing'') = Some (solo_book 400 3 600 1 (- 600) 1 EFFECTIVE, [] @ [] @ [])"
proof -
  let ?p = "[sample_package ''p'' 1000 400 EFFECTIVE]"
  let ?b = "(solo_book 0 2 0 0 0 0 ''Missing'')\<lparr> bk_remaining := effective_remaining ?p, bk_synced_at := 3 \<rparr>"
  let ?as = "sample_assignments {} False"
  have "reconcile_migrated ?p (solo_members 1) ?as 3 0 ?b
      = Some (solo_book 400 3 600 1 (- 600) 1 EFFECTIVE, [] @ [] @ [])"
  proof (rule reconcile_migrated_eval)
    show "join (solo_members 1) ?b = ?b" by code_simp
    show "expire_packages (fetched_map ?p) (bk_packages ?b) 0 = (solo_record ''Missing'', 0, [])" by code_simp
    show "absorb_packages ?p (solo_record ''Missing'') 0 = (solo_record EFFECTIVE, 1000)" by code_simp
    show "credit_packages 3 ?as (map mb_name (solo_members 1)) (solo_record EFFECTIVE) (bk_balances ?b)
        = (solo_record EFFECTIVE, [(''ann'', 0)], [])" by code_simp
    show "consumed_since 0 1000 0 (bk_remaining ?b) = 600" by code_simp
    show "metered_usage (bk_baselines ?b) (solo_members 1) = Some [1]" by code_simp
    show "fold (\<lambda>used sum. saturating_add sum used) [1] 0 = 1" by code_simp
    show "(if 600 > (0 :: u64) \<and> 1 > (0 :: u64) then charge_members (zip (solo_members 1) (split_by 600 [1])) [(''ann'', 0)]
        else Some [(''ann'', 0)]) = Some [(''ann'', - 600)]" by code_simp
    show "forfeit 3 [] [(''ann'', - 600)] = Some ([(''ann'', - 600)], [])" by code_simp
    show "sweep_exclusive 3 ?as (solo_members 1) (?b\<lparr> bk_packages := solo_record EFFECTIVE,
        bk_balances := [(''ann'', - 600)], bk_baselines := set_baselines (solo_members 1) (bk_baselines ?b),
        bk_consumed := 600, bk_metered := 1 \<rparr>) = Some (solo_book 400 3 600 1 (- 600) 1 EFFECTIVE, [])" by code_simp
  qed
  then show ?thesis by (simp add: reconcile_def solo_book_def)
qed

text \<open>A package that one answer of the provider leaves out is forfeited, and when the next
  answer has it again, unchanged, it is not credited back but counted as a full new package:
  ann, who held its 400 bytes and used a single one, is charged 600 bytes she never used and
  ends 600 bytes in debt, while the provider still reports the 400 bytes.\<close>

lemma reappearing_package_is_charged:
  "\<exists>gone back es. reconcile [] (solo_members 0) (sample_assignments {} False) 2 (solo_book 400 1 0 0 400 0 EFFECTIVE)
        = Some (gone, es)
     \<and> reconcile [sample_package ''p'' 1000 400 EFFECTIVE] (solo_members 1) (sample_assignments {} False) 3 gone
        = Some (back, [])
     \<and> bk_remaining back = 400 \<and> bk_consumed back = 600
     \<and> map_option sint (bt_get (bk_balances back) ''ann'') = Some (- 600)"
proof -
  have "map_option sint (bt_get (bk_balances (solo_book 400 3 600 1 (- 600) 1 EFFECTIVE)) ''ann'') = Some (- 600)"
    "bk_remaining (solo_book 400 3 600 1 (- 600) 1 EFFECTIVE) = 400"
    "bk_consumed (solo_book 400 3 600 1 (- 600) 1 EFFECTIVE) = 600"
    by (simp_all add: solo_book_def bt_get_def)
  with solo_gone solo_back show ?thesis by fastforce
qed

section \<open>Entry kinds\<close>

text \<open>The names under which entry kinds are stored are read back as the same kinds, and no
  other text is read as a kind.\<close>

lemma entry_kind_roundtrip:
  "entry_kind_parse (entry_kind_as_str k) = Some k
     \<and> ((\<exists>k. entry_kind_parse t = Some k) \<longleftrightarrow> t \<in> range entry_kind_as_str)"
proof -
  have one: "entry_kind_parse (entry_kind_as_str k) = Some k" for k
    by (cases k) (simp_all add: entry_kind_parse_def entry_kind_as_str_def)
  have "(\<exists>k. entry_kind_parse t = Some k) \<longleftrightarrow> t \<in> range entry_kind_as_str"
  proof
    assume "\<exists>k. entry_kind_parse t = Some k"
    then show "t \<in> range entry_kind_as_str" by (auto simp: entry_kind_parse_def split: if_splits)
  qed (use one in blast)
  with one show ?thesis by blast
qed

end
