(* ===== verification/Accounting.thy ===== *)
theory Accounting
  imports State_Db Billing_Api Ledger_Props
begin

text \<open>
  The accounting engine (\<open>accounting.rs\<close>), the task that owns the book.  What it shares with the rest
  of the program is a record \<open>world\<close>: the database, the store of quotas and the set of users, the limits
  the runtime reads, and the live configuration.  Each branch of the engine's loop is one turn.  While
  a turn waits for the provider the world goes on, so a sync is given the world before and the
  world after the answer; saving the book and what follows it is one step.  The provider's answer, the
  driver, its faults and the clock are the environment of a turn.
\<close>

definition RECENT_ENTRIES :: nat where "RECENT_ENTRIES = 500"

definition RETRY_SECS :: u64 where "RETRY_SECS = 60"

record live =
  lv_config :: config
  lv_revision :: u64
  lv_from_panel :: bool

record world =
  wd_db :: "state_db option"
  wd_store :: quota_store
  wd_users :: user_set
  wd_limits :: "(string \<rightharpoonup> u64) option"
  wd_live :: live

record env =
  ev_driver :: driver
  ev_faults :: faults
  ev_fetch :: "remote_config \<Rightarrow> (billing_error + fetched) option"
  ev_attempt :: i64
  ev_now :: i64
  ev_clock :: u64

definition remote_limits_new :: "book \<Rightarrow> (string \<rightharpoonup> u64) option" where
  "remote_limits_new b = (if bk_migrated b then Some (book_limits b) else None)"

datatype engine_error =
    RemoteOff
  | WaitingForUser
  | NoEffective "string list"
  | FetchFailed billing_error
  | SaveFailed db_error
  | Refused ledger_error

datatype command =
    CmdSync
  | CmdTransfer string string u64
  | CmdAllocate "string option" "u64 option"

record status =
  st_mode :: mode
  st_provider :: "provider option"
  st_regions :: "string list"
  st_migrated :: bool
  st_last_attempt :: "i64 option"
  st_last_error :: "engine_error option"
  st_synced_at :: "i64 option"
  st_remaining :: u64
  st_unallocated :: i64
  st_consumed :: u64
  st_metered :: u64
  st_balances :: "(string, i64) btree"
  st_packages :: "package_record list"
  st_ignored :: "package list"
  st_entries :: "entry list"

definition status_default :: status where
  "status_default = \<lparr> st_mode = Offline, st_provider = None, st_regions = [], st_migrated = False,
     st_last_attempt = None, st_last_error = None, st_synced_at = None, st_remaining = 0, st_unallocated = 0,
     st_consumed = 0, st_metered = 0, st_balances = [], st_packages = [], st_ignored = [], st_entries = [] \<rparr>"

definition assignments_of :: "config \<Rightarrow> assignments" where
  "assignments_of c = \<lparr>
     as_split = (case acc_remote (cf_accounting c) of None \<Rightarrow> {} | Some r \<Rightarrow> set (rc_packages r)),
     as_owners = map_of (rev (concat (map (\<lambda>u. map (\<lambda>p. (p, uc_name u)) (uc_packages u)) (cf_users c)))),
     as_exclusive = cf_single_user c \<rparr>"

record watched =
  wt_accounting :: accounting
  wt_single_user :: bool
  wt_owners :: "(string \<times> string list) list"

definition watched_of :: "config \<Rightarrow> watched" where
  "watched_of c = \<lparr> wt_accounting = cf_accounting c, wt_single_user = cf_single_user c,
     wt_owners = map (\<lambda>u. (uc_name u, uc_packages u)) (cf_users c) \<rparr>"

record engine =
  eg_status :: status
  eg_book :: book
  eg_entries :: "entry list"
  eg_last_attempt :: "i64 option"
  eg_last_error :: "engine_error option"
  eg_ignored :: "package list"

section \<open>Operations\<close>

abbreviation world_config :: "world \<Rightarrow> config" where
  "world_config w \<equiv> lv_config (wd_live w)"

definition members_of :: "config \<Rightarrow> world \<Rightarrow> member list" where
  "members_of c w = map (\<lambda>r. let q = wd_store w ! r in
       \<lparr> mb_name = q_name q, mb_used = used q, mb_offline_remaining = remaining q \<rparr>)
     (List.map_filter (\<lambda>u. us_get (wd_users w) (uc_name u)) (cf_users c))"

definition status_of :: "config \<Rightarrow> engine \<Rightarrow> status" where
  "status_of c e =
     (let remote = acc_remote (cf_accounting c); b = eg_book e in
      \<lparr> st_mode = acc_mode (cf_accounting c), st_provider = map_option rc_provider remote,
        st_regions = (case remote of None \<Rightarrow> [] | Some r \<Rightarrow> rc_regions r),
        st_migrated = bk_migrated b, st_last_attempt = eg_last_attempt e, st_last_error = eg_last_error e,
        st_synced_at = (if bk_migrated b then Some (bk_synced_at b) else None),
        st_remaining = bk_remaining b, st_unallocated = unallocated b, st_consumed = bk_consumed b,
        st_metered = bk_metered b, st_balances = bk_balances b, st_packages = map snd (bk_packages b),
        st_ignored = eg_ignored e, st_entries = rev (eg_entries e) \<rparr>)"

definition publish_status :: "world \<Rightarrow> engine \<Rightarrow> engine" where
  "publish_status w e = e\<lparr> eg_status := status_of (world_config w) e \<rparr>"

definition book_or_used :: "book \<Rightarrow> user_quota \<Rightarrow> u64" where
  "book_or_used b q = (case book_limit b (q_name q) of Some l \<Rightarrow> l | None \<Rightarrow> used q)"

definition give_limit :: "book \<Rightarrow> user_quota \<Rightarrow> user_quota" where
  "give_limit b q = (let l = book_or_used b q in if limit_of q \<noteq> Some l then set_limit (Some l) q else q)"

definition apply_limits :: "config \<Rightarrow> engine \<Rightarrow> world \<Rightarrow> world" where
  "apply_limits c e w =
     (if \<not> bk_migrated (eg_book e) then w
      else
        let w1 = w\<lparr> wd_limits := Some (book_limits (eg_book e)) \<rparr> in
        if active_remote (cf_accounting c) = None then w1
        else w1\<lparr> wd_store := fold (\<lambda>r st. on_quota r (give_limit (eg_book e)) st)
                   (us_ordered (wd_users w)) (wd_store w) \<rparr>)"

definition push_entry :: "entry \<Rightarrow> entry list \<Rightarrow> entry list" where
  "push_entry x es = (if length es = RECENT_ENTRIES then tl es @ [x] else es @ [x])"

definition commit :: "env \<Rightarrow> book \<Rightarrow> entry list \<Rightarrow> world \<Rightarrow> engine \<Rightarrow> world \<times> engine \<times> (engine_error + unit)" where
  "commit v b entries w e =
     (case (case wd_db w of
         None \<Rightarrow> (None, Inr ())
       | Some db \<Rightarrow> (let (db', r) = save_book (ev_driver v) (ev_faults v) b entries db in (Some db', r))) of
        (db', Inl err) \<Rightarrow> (w\<lparr> wd_db := db' \<rparr>, e, Inl (SaveFailed err))
      | (db', Inr _) \<Rightarrow> (w\<lparr> wd_db := db' \<rparr>,
            e\<lparr> eg_book := b, eg_entries := fold push_entry entries (eg_entries e) \<rparr>, Inr ()))"

definition sync_with :: "env \<Rightarrow> config \<Rightarrow> remote_config \<Rightarrow> world \<Rightarrow> world \<Rightarrow> engine
    \<Rightarrow> (world \<times> engine \<times> (engine_error + unit)) option" where
  "sync_with v c remote w0 w e =
     (if \<not> bk_migrated (eg_book e) \<and> members_of c w0 = [] then Some (w, e, Inl WaitingForUser)
      else do {
        answer \<leftarrow> ev_fetch v remote;
        case answer of
          Inl err \<Rightarrow> Some (w, e, Inl (FetchFailed err))
        | Inr fetched \<Rightarrow>
            (let e1 = e\<lparr> eg_ignored := ft_ignored fetched \<rparr> in
             if \<not> bk_migrated (eg_book e) \<and> \<not> list_ex effective (ft_packages fetched)
             then Some (w, e1, Inl (NoEffective (rc_regions remote)))
             else do {
               (b, entries) \<leftarrow> reconcile (ft_packages fetched) (members_of c w) (assignments_of c) (ev_now v) (eg_book e);
               case commit v b entries w e1 of
                 (w', e2, Inl err) \<Rightarrow> Some (w', e2, Inl err)
               | (w', e2, Inr _) \<Rightarrow> Some (apply_limits c e2 w', e2, Inr ()) }) })"

definition sync :: "env \<Rightarrow> world \<Rightarrow> world \<Rightarrow> engine \<Rightarrow> (world \<times> engine \<times> (engine_error + unit)) option" where
  "sync v w0 w e =
     (let c = world_config w0 in
      do { (w', e1, result) \<leftarrow> (case active_remote (cf_accounting c) of
              Some remote \<Rightarrow> sync_with v c remote w0 w (e\<lparr> eg_last_attempt := Some (ev_attempt v) \<rparr>)
            | None \<Rightarrow> Some (w, e, Inl RemoteOff));
           let e2 = e1\<lparr> eg_last_error := (case result of Inr _ \<Rightarrow> None | Inl err \<Rightarrow> Some err) \<rparr>;
           Some (w', publish_status w' e2, result) })"

definition settle_command :: "env \<Rightarrow> (book \<times> (ledger_error + entry list)) option \<Rightarrow> world \<Rightarrow> engine
    \<Rightarrow> (world \<times> engine \<times> (engine_error + unit)) option" where
  "settle_command v outcome w e =
     do { (b, r) \<leftarrow> outcome;
          case r of
            Inl err \<Rightarrow> Some (w, e, Inl (Refused err))
          | Inr entries \<Rightarrow>
              (case commit v b entries w e of
                 (w1, e1, Inl err) \<Rightarrow> Some (w1, e1, Inl err)
               | (w1, e1, Inr _) \<Rightarrow>
                   (let w2 = apply_limits (world_config w) e1 w1 in Some (w2, publish_status w2 e1, Inr ()))) }"

definition engine_transfer :: "env \<Rightarrow> string \<Rightarrow> string \<Rightarrow> u64 \<Rightarrow> world \<Rightarrow> engine
    \<Rightarrow> (world \<times> engine \<times> (engine_error + unit)) option" where
  "engine_transfer v source target amt w e =
     settle_command v (book_transfer (members_of (world_config w) w) source target amt (ev_now v) (eg_book e)) w e"

definition engine_allocate :: "env \<Rightarrow> string option \<Rightarrow> u64 option \<Rightarrow> world \<Rightarrow> engine
    \<Rightarrow> (world \<times> engine \<times> (engine_error + unit)) option" where
  "engine_allocate v target amt w e =
     settle_command v (book_allocate (members_of (world_config w) w) target amt (ev_now v) (eg_book e)) w e"

definition next_sync :: "u64 \<Rightarrow> world \<Rightarrow> (engine_error + unit) \<Rightarrow> u64 option" where
  "next_sync now w result =
     (case active_remote (cf_accounting (world_config w)) of
        None \<Rightarrow> None
      | Some remote \<Rightarrow>
          Some (now + (case result of Inr _ \<Rightarrow> rc_interval_secs remote | Inl _ \<Rightarrow> min RETRY_SECS (rc_interval_secs remote))))"

section \<open>The loop\<close>

record run_state =
  rs_engine :: engine
  rs_watched :: watched
  rs_next :: "u64 option"

datatype engine_event = Due | LiveChanged | LiveClosed | Received command | CommandsClosed

definition run_start :: "u64 \<Rightarrow> world \<Rightarrow> engine \<Rightarrow> run_state" where
  "run_start now w e = \<lparr> rs_engine = e, rs_watched = watched_of (world_config w),
     rs_next = map_option (\<lambda>_. now) (active_remote (cf_accounting (world_config w))) \<rparr>"

definition engine_new :: "world \<Rightarrow> book \<Rightarrow> entry list \<Rightarrow> engine" where
  "engine_new w b entries =
     publish_status w \<lparr> eg_status = status_default, eg_book = b, eg_entries = entries, eg_last_attempt = None,
       eg_last_error = None, eg_ignored = [] \<rparr>"

text \<open>One turn: the new world and state, the reply to a command, or \<open>None\<close> inside when the task returns.\<close>

definition sync_turn :: "env \<Rightarrow> world \<Rightarrow> world \<Rightarrow> run_state \<Rightarrow> (world \<times> run_state \<times> (engine_error + unit)) option" where
  "sync_turn v w0 w s =
     do { (w', e, result) \<leftarrow> sync v w0 w (rs_engine s);
          Some (w', s\<lparr> rs_engine := e, rs_next := next_sync (ev_clock v) w' result \<rparr>, result) }"

definition live_turn :: "env \<Rightarrow> world \<Rightarrow> run_state \<Rightarrow> world \<times> run_state" where
  "live_turn v w s =
     (let c = world_config w;
          now = watched_of c;
          s1 = (if now \<noteq> rs_watched s
                then s\<lparr> rs_watched := now, rs_next := map_option (\<lambda>_. ev_clock v) (active_remote (cf_accounting c)) \<rparr>
                else s);
          w1 = apply_limits c (rs_engine s1) w
      in (w1, s1\<lparr> rs_engine := publish_status w1 (rs_engine s1) \<rparr>))"

definition engine_turn :: "env \<Rightarrow> engine_event \<Rightarrow> world \<Rightarrow> world \<Rightarrow> run_state
    \<Rightarrow> (world \<times> run_state \<times> (engine_error + unit) option \<times> bool) option" where
  "engine_turn v ev w0 w s = (case ev of
      Due \<Rightarrow> do { (w', s', _) \<leftarrow> sync_turn v w0 w s; Some (w', s', None, False) }
    | LiveChanged \<Rightarrow> (let (w', s') = live_turn v w s in Some (w', s', None, False))
    | LiveClosed \<Rightarrow> Some (w, s, None, True)
    | Received CmdSync \<Rightarrow> do { (w', s', r) \<leftarrow> sync_turn v w0 w s; Some (w', s', Some r, False) }
    | Received (CmdTransfer source target amt) \<Rightarrow>
        do { (w', e, r) \<leftarrow> engine_transfer v source target amt w (rs_engine s);
             Some (w', s\<lparr> rs_engine := e \<rparr>, Some r, False) }
    | Received (CmdAllocate target amt) \<Rightarrow>
        do { (w', e, r) \<leftarrow> engine_allocate v target amt w (rs_engine s);
             Some (w', s\<lparr> rs_engine := e \<rparr>, Some r, False) }
    | CommandsClosed \<Rightarrow> Some (w, s, None, True))"

text \<open>What \<open>main\<close> reads from the database before it makes the engine.\<close>

definition restore_book :: "driver \<Rightarrow> faults \<Rightarrow> state_db option \<Rightarrow> db_error + book \<times> entry list" where
  "restore_book dr fail db = (case db of
      None \<Rightarrow> Inr (book_default, [])
    | Some d \<Rightarrow>
        (case load_book dr fail d of
           Inl e \<Rightarrow> Inl e
         | Inr ob \<Rightarrow>
             (case recent_entries fail RECENT_ENTRIES d of
                Inl e \<Rightarrow> Inl e
              | Inr es \<Rightarrow> Inr (case ob of None \<Rightarrow> book_default | Some b \<Rightarrow> b, es))))"

section \<open>The engine's memory and the file agree\<close>

definition saved :: "driver \<Rightarrow> world \<Rightarrow> engine \<Rightarrow> bool" where
  "saved dr w e \<longleftrightarrow> (case wd_db w of None \<Rightarrow> True | Some db \<Rightarrow>
     (case dk_book (sd_disk db) of None \<Rightarrow> eg_book e = book_default | Some raw \<Rightarrow> dr_decode dr raw = Some (eg_book e))
     \<and> (\<exists>es. dk_entries (sd_disk db) = map entry_to_row es \<and> eg_entries e = drop (length es - RECENT_ENTRIES) es))"

lemma push_entry_window:
  "push_entry x (drop (length es - RECENT_ENTRIES) es) = drop (length (es @ [x]) - RECENT_ENTRIES) (es @ [x])"
proof (cases "RECENT_ENTRIES \<le> length es")
  case True
  let ?n = "length es - RECENT_ENTRIES"
  have "0 < RECENT_ENTRIES" by (simp add: RECENT_ENTRIES_def)
  moreover have "tl (drop ?n es) = drop (Suc ?n) es" by (simp add: drop_Suc tl_drop)
  ultimately show ?thesis using True by (simp add: push_entry_def Suc_diff_le)
qed (simp add: push_entry_def)

lemma fold_push_window:
  "fold push_entry xs (drop (length es - RECENT_ENTRIES) es) = drop (length (es @ xs) - RECENT_ENTRIES) (es @ xs)"
proof (induction xs arbitrary: es)
  case (Cons x xs)
  have "fold push_entry (x # xs) (drop (length es - RECENT_ENTRIES) es)
      = fold push_entry xs (drop (length (es @ [x]) - RECENT_ENTRIES) (es @ [x]))"
    by (simp only: fold_Cons comp_apply push_entry_window)
  also have "\<dots> = drop (length ((es @ [x]) @ xs) - RECENT_ENTRIES) ((es @ [x]) @ xs)" by (rule Cons)
  finally show ?case by simp
qed simp

lemma commit_cases:
  assumes "commit v b es w e = (w', e', r)"
  obtains (failed) err where "r = Inl (SaveFailed err)" "w' = w" "e' = e"
  | (saved) db' where "r = Inr ()" "w' = w\<lparr> wd_db := db' \<rparr>" "e' = e\<lparr> eg_book := b, eg_entries := fold push_entry es (eg_entries e) \<rparr>"
      "case wd_db w of None \<Rightarrow> db' = None | Some db \<Rightarrow> \<exists>d. db' = Some d \<and> save_book (ev_driver v) (ev_faults v) b es db = (d, Inr ())"
proof (cases "wd_db w")
  case None
  with assms saved [of None] show thesis by (auto simp: commit_def)
next
  case (Some db)
  obtain d rr where s: "save_book (ev_driver v) (ev_faults v) b es db = (d, rr)" by fastforce
  show thesis
  proof (cases rr)
    case (Inl err)
    with save_book_cases [OF s] have "d = db" by auto
    with Some s Inl assms failed show thesis by (auto simp: commit_def)
  next
    case (Inr u)
    with Some s assms saved [of "Some d"] show thesis by (auto simp: commit_def)
  qed
qed

lemma commit_keeps_saved:
  assumes "driver_ok (ev_driver v)" "saved (ev_driver v) w e" "commit v b es w e = (w', e', r)"
  shows "saved (ev_driver v) w' e'"
  using assms(3)
proof (cases rule: commit_cases)
  case failed
  with assms(2) show ?thesis by simp
next
  case (saved db')
  show ?thesis
  proof (cases "wd_db w")
    case None
    with saved show ?thesis by (simp add: Accounting.saved_def)
  next
    case (Some db)
    with saved(4) obtain d where d: "db' = Some d" "save_book (ev_driver v) (ev_faults v) b es db = (d, Inr ())" by auto
    from save_book_cases [OF d(2)] obtain json where json: "dr_encode (ev_driver v) b = Some json"
      "d = db\<lparr> sd_disk := (sd_disk db)\<lparr> dk_book := Some json, dk_entries := dk_entries (sd_disk db) @ map entry_to_row es \<rparr> \<rparr>"
      by auto
    from assms(2) Some obtain old where old: "dk_entries (sd_disk db) = map entry_to_row old"
      "eg_entries e = drop (length old - RECENT_ENTRIES) old"
      by (auto simp: Accounting.saved_def)
    have "dr_decode (ev_driver v) json = Some b" using assms(1) json(1) by (simp add: driver_ok_def)
    moreover have "eg_entries e' = drop (length (old @ es) - RECENT_ENTRIES) (old @ es)"
      unfolding saved(3) using fold_push_window [of es old] by (simp add: old(2))
    ultimately show ?thesis
      using saved d json(2) old(1) by (auto simp: Accounting.saved_def intro!: exI [of _ "old @ es"])
  qed
qed

lemma saved_frame:
  "wd_db w' = wd_db w \<Longrightarrow> eg_book e' = eg_book e \<Longrightarrow> eg_entries e' = eg_entries e \<Longrightarrow> saved dr w' e' = saved dr w e"
  unfolding saved_def by presburger

lemma publish_frame [simp]:
  "eg_book (publish_status w e) = eg_book e" "eg_entries (publish_status w e) = eg_entries e"
  by (simp_all add: publish_status_def)

lemma apply_limits_frame [simp]:
  "wd_db (apply_limits c e w) = wd_db w" "wd_users (apply_limits c e w) = wd_users w" "wd_live (apply_limits c e w) = wd_live w"
  by (simp_all add: apply_limits_def Let_def)

text \<open>The outcomes of an operation: an error that changed nothing that lasts, or a committed book.\<close>

definition untouched :: "world \<Rightarrow> engine \<Rightarrow> world \<Rightarrow> engine \<Rightarrow> bool" where
  "untouched w e w' e' \<longleftrightarrow> w' = w \<and> eg_book e' = eg_book e \<and> eg_entries e' = eg_entries e"

definition committed :: "env \<Rightarrow> book \<Rightarrow> entry list \<Rightarrow> world \<Rightarrow> engine \<Rightarrow> world \<Rightarrow> engine \<Rightarrow> bool" where
  "committed v b es w e w' e' \<longleftrightarrow> (\<exists>w1 e0 e1 c. eg_book e0 = eg_book e \<and> eg_entries e0 = eg_entries e
     \<and> commit v b es w e0 = (w1, e1, Inr ()) \<and> w' = apply_limits c e1 w1
     \<and> eg_book e' = eg_book e1 \<and> eg_entries e' = eg_entries e1)"

lemma committed_cong:
  assumes "eg_book e2 = eg_book e" "eg_entries e2 = eg_entries e" "eg_book e3 = eg_book e'" "eg_entries e3 = eg_entries e'"
  shows "committed v b es w e2 w' e3 = committed v b es w e w' e'"
  unfolding committed_def assms ..

lemma committed_keeps_saved:
  assumes "driver_ok (ev_driver v)" "saved (ev_driver v) w e" "committed v b es w e w' e'"
  shows "saved (ev_driver v) w' e'"
proof -
  obtain w1 e0 e1 c where *: "eg_book e0 = eg_book e" "eg_entries e0 = eg_entries e"
    "commit v b es w e0 = (w1, e1, Inr ())" "w' = apply_limits c e1 w1" "eg_book e' = eg_book e1" "eg_entries e' = eg_entries e1"
    using assms(3) by (auto simp: committed_def)
  have "saved (ev_driver v) w e0" using assms(2) saved_frame [OF HOL.refl *(1,2)] by simp
  from commit_keeps_saved [OF assms(1) this *(3)] show ?thesis
    using saved_frame [of w' w1 e' e1] *(4-6) by simp
qed

lemma commit_failed: "commit v b es w e = (w', e', Inl err) \<Longrightarrow> w' = w \<and> e' = e"
  by (erule commit_cases) auto

lemma settle_cases:
  assumes "settle_command v outcome w e = Some (w', e', r)"
  shows "(isl r \<and> untouched w e w' e') \<or> (r = Inr () \<and> (\<exists>b es. outcome = Some (b, Inr es) \<and> committed v b es w e w' e'))"
proof -
  obtain b o' where o: "outcome = Some (b, o')" using assms by (auto simp: settle_command_def bind_eq_Some_conv)
  show ?thesis
  proof (cases o')
    case (Inl err)
    with assms o show ?thesis by (auto simp: settle_command_def untouched_def)
  next
    case (Inr es)
    obtain w1 e1 rr where c: "commit v b es w e = (w1, e1, rr)" using prod_cases3 by blast
    show ?thesis
    proof (cases rr)
      case (Inl err)
      with assms o Inr c commit_failed [of v b es w e w1 e1 err] show ?thesis
        by (auto simp: settle_command_def untouched_def)
    next
      case ok: (Inr u)
      then have "w' = apply_limits (world_config w) e1 w1" "e' = publish_status w' e1" "r = Inr ()"
        using assms o Inr c by (auto simp: settle_command_def Let_def)
      with o Inr c ok show ?thesis unfolding committed_def by (intro disjI2 conjI exI [of _ b] exI [of _ es]) auto
    qed
  qed
qed

lemma sync_with_cases:
  assumes "sync_with v c remote w0 w e = Some (w', e', r)"
  shows "(isl r \<and> untouched w e w' e')
    \<or> (r = Inr () \<and> (\<exists>fetched b es. ev_fetch v remote = Some (Inr fetched)
        \<and> reconcile (ft_packages fetched) (members_of c w) (assignments_of c) (ev_now v) (eg_book e) = Some (b, es)
        \<and> (\<exists>e1. committed v b es w e w' e' \<and> commit v b es w (e\<lparr> eg_ignored := ft_ignored fetched \<rparr>) = (e1, e', Inr ())
             \<and> w' = apply_limits c e' e1)))"
proof (cases "\<not> bk_migrated (eg_book e) \<and> members_of c w0 = []")
  case True
  with assms show ?thesis by (auto simp: sync_with_def untouched_def)
next
  case False
  with assms obtain answer where a: "ev_fetch v remote = Some answer" by (auto simp: sync_with_def bind_eq_Some_conv)
  show ?thesis
  proof (cases answer)
    case (Inl err)
    with assms a False show ?thesis by (auto simp: sync_with_def untouched_def)
  next
    case (Inr fetched)
    let ?e1 = "e\<lparr> eg_ignored := ft_ignored fetched \<rparr>"
    show ?thesis
    proof (cases "\<not> bk_migrated (eg_book e) \<and> \<not> list_ex effective (ft_packages fetched)")
      case True
      with assms a Inr False show ?thesis by (auto simp: sync_with_def untouched_def Let_def)
    next
      case more: False
      with assms a Inr False obtain b es where rec:
        "reconcile (ft_packages fetched) (members_of c w) (assignments_of c) (ev_now v) (eg_book e) = Some (b, es)"
        by (auto simp: sync_with_def Let_def bind_eq_Some_conv)
      obtain w1 e1 rr where c: "commit v b es w ?e1 = (w1, e1, rr)" using prod_cases3 by blast
      have res: "(case rr of Inl err \<Rightarrow> (w1, e1, Inl err) | Inr _ \<Rightarrow> (apply_limits c e1 w1, e1, Inr ())) = (w', e', r)"
        using assms a Inr False more rec c by (auto simp: sync_with_def Let_def split: sum.splits)
      show ?thesis
      proof (cases rr)
        case (Inl err)
        with res c commit_failed [of v b es w ?e1 w1 e1 err] show ?thesis by (auto simp: untouched_def)
      next
        case ok: (Inr u)
        with res have w': "w' = apply_limits c e1 w1" "e' = e1" "r = Inr ()" by auto
        have "committed v b es w e w' e'"
          unfolding committed_def w' using c ok by (intro exI [of _ w1] exI [of _ ?e1] exI [of _ e1] exI [of _ c]) simp
        with a Inr rec c ok w' show ?thesis by auto
      qed
    qed
  qed
qed

lemma sync_cases:
  assumes "sync v w0 w e = Some (w', e', r)"
  shows "(isl r \<and> untouched w e w' e') \<or> (r = Inr () \<and> (\<exists>b es. committed v b es w e w' e'))"
proof -
  let ?e = "e\<lparr> eg_last_attempt := Some (ev_attempt v) \<rparr>"
  show ?thesis
  proof (cases "active_remote (cf_accounting (world_config w0))")
    case None
    with assms show ?thesis by (auto simp: sync_def untouched_def Let_def)
  next
    case (Some remote)
    with assms obtain e1 where run: "sync_with v (world_config w0) remote w0 w ?e = Some (w', e1, r)"
      and e': "eg_book e' = eg_book e1" "eg_entries e' = eg_entries e1"
      by (auto simp: sync_def Let_def bind_eq_Some_conv)
    have same: "committed v b es w e w' e' = committed v b es w ?e w' e1" for b es
      by (rule committed_cong) (simp_all add: e')
    from sync_with_cases [OF run] show ?thesis
      unfolding same by (auto simp: untouched_def e')
  qed
qed

lemma sync_turn_cases:
  assumes "sync_turn v w0 w s = Some (w', s', r)"
  shows "(isl r \<and> untouched w (rs_engine s) w' (rs_engine s'))
    \<or> (r = Inr () \<and> (\<exists>b es. committed v b es w (rs_engine s) w' (rs_engine s')))"
proof -
  obtain e where "sync v w0 w (rs_engine s) = Some (w', e, r)" "rs_engine s' = e"
    using assms by (auto simp: sync_turn_def bind_eq_Some_conv)
  with sync_cases [of v w0 w "rs_engine s" w' e r] show ?thesis by simp
qed

text \<open>A turn either leaves what lasts alone, or commits a book, or only re-applies the limits.\<close>

lemma engine_turn_cases:
  assumes "engine_turn v ev w0 w s = Some (w', s', reply, stop)"
  obtains (idle) "untouched w (rs_engine s) w' (rs_engine s')" "reply \<noteq> Some (Inr ())"
  | (commits) b es where "committed v b es w (rs_engine s) w' (rs_engine s')" "\<forall>err. reply \<noteq> Some (Inl err)"
  | (relimits) c e1 where "w' = apply_limits c e1 w" "eg_book (rs_engine s') = eg_book (rs_engine s)"
      "eg_entries (rs_engine s') = eg_entries (rs_engine s)" "reply = None"
proof -
  have sync: thesis if "sync_turn v w0 w s = Some (w', s', r)" "reply = None \<or> reply = Some r" for r
    using sync_turn_cases [OF that(1)] that(2) idle commits by (cases r) auto
  have settle: thesis if "settle_command v outcome w (rs_engine s) = Some (w', e, r)"
    "s' = s\<lparr> rs_engine := e \<rparr>" "reply = Some r" for outcome e r
    using settle_cases [OF that(1)] that(2,3) idle commits by (cases r) auto
  show thesis
  proof (cases ev)
    case Due
    with assms sync show ?thesis by (auto simp: engine_turn_def bind_eq_Some_conv)
  next
    case LiveChanged
    then have "live_turn v w s = (w', s')" "reply = None" using assms by (auto simp: engine_turn_def split: prod.splits)
    then show ?thesis
      using relimits [of "world_config w" "rs_engine s"] by (auto simp: live_turn_def Let_def split: if_splits)
  next
    case (Received cmd)
    with assms sync settle show ?thesis
      by (cases cmd) (auto simp: engine_turn_def bind_eq_Some_conv engine_transfer_def engine_allocate_def)
  qed (use assms idle in \<open>auto simp: engine_turn_def untouched_def\<close>)
qed

section \<open>Restarting\<close>

text \<open>Between turns and while one waits, anything may happen but to the ledger's tables.\<close>

definition same_ledger :: "world \<Rightarrow> world \<Rightarrow> bool" where
  "same_ledger w w' \<longleftrightarrow> rel_option (\<lambda>d d'. dk_book (sd_disk d') = dk_book (sd_disk d)
     \<and> dk_entries (sd_disk d') = dk_entries (sd_disk d)) (wd_db w) (wd_db w')"

inductive engine_run :: "driver \<Rightarrow> world \<Rightarrow> run_state \<Rightarrow> world \<Rightarrow> run_state \<Rightarrow> bool" where
  begun: "engine_run dr w s w s"
| turned: "engine_run dr w s w1 s1 \<Longrightarrow> same_ledger w1 w2 \<Longrightarrow> ev_driver v = dr
    \<Longrightarrow> engine_turn v ev w0 w2 s1 = Some (w3, s3, reply, stop) \<Longrightarrow> engine_run dr w s w3 s3"

lemma saved_same_ledger: "same_ledger w w' \<Longrightarrow> saved dr w e \<Longrightarrow> saved dr w' e"
  by (cases "wd_db w"; cases "wd_db w'") (auto simp: same_ledger_def saved_def)

lemma engine_turn_keeps_saved:
  assumes "driver_ok (ev_driver v)" "saved (ev_driver v) w (rs_engine s)"
    "engine_turn v ev w0 w s = Some (w', s', reply, stop)"
  shows "saved (ev_driver v) w' (rs_engine s')"
  using assms(3)
proof (cases rule: engine_turn_cases)
  case idle
  with assms(2) saved_frame [of w' w "rs_engine s'" "rs_engine s"] show ?thesis by (simp add: untouched_def)
next
  case (commits b es)
  then show ?thesis using committed_keeps_saved [OF assms(1,2)] by blast
next
  case (relimits c e1)
  with assms(2) saved_frame [of w' w "rs_engine s'" "rs_engine s"] show ?thesis by simp
qed

lemma engine_run_saved:
  assumes "engine_run dr w s w' s'" "driver_ok dr" "saved dr w (rs_engine s)"
  shows "saved dr w' (rs_engine s')"
  using assms
proof (induction rule: engine_run.induct)
  case (turned dr w s w1 s1 w2 v ev w0 w3 s3 reply stop)
  then have "saved (ev_driver v) w2 (rs_engine s1)" using saved_same_ledger by blast
  with engine_turn_keeps_saved [of v w2 s1 ev w0 w3 s3 reply stop] turned show ?case by simp
qed simp

lemma saved_restores:
  assumes "saved dr w e" "wd_db w = Some db"
  shows "restore_book dr no_faults (wd_db w) = Inr (eg_book e, eg_entries e)"
proof -
  obtain es where es: "dk_entries (sd_disk db) = map entry_to_row es" "eg_entries e = drop (length es - RECENT_ENTRIES) es"
    using assms by (auto simp: saved_def)
  show ?thesis
    using assms es recent_entries_last [OF es(1), of RECENT_ENTRIES]
    by (auto simp: saved_def restore_book_def load_book_def split: option.splits)
qed

lemma restored_saved:
  assumes "restore_book dr no_faults (Some db) = Inr (b, es)" "dk_entries (sd_disk db) = map entry_to_row old"
    "wd_db w = Some db"
  shows "saved dr w (engine_new w b es)"
  using assms recent_entries_last [OF assms(2), of RECENT_ENTRIES]
  by (auto simp: saved_def restore_book_def load_book_def engine_new_def publish_status_def
      split: option.splits)

text \<open>C27: a crash of the process loses nothing that the engine has answered.  Through any run of syncs,
  transfers, allocations and configuration changes, with any failures of the provider and of the
  database and anything that other tasks do, the book and the window of entries in memory are
  exactly what a restart would read from the file.\<close>

theorem restart_reads_the_engine:
  assumes "driver_ok dr" "wd_db w = Some db" "dk_entries (sd_disk db) = map entry_to_row old"
    "restore_book dr no_faults (wd_db w) = Inr (b, es)"
    "engine_run dr w (run_start now w (engine_new w b es)) w' s'"
  shows "restore_book dr no_faults (wd_db w') = Inr (eg_book (rs_engine s'), eg_entries (rs_engine s'))
    \<and> length (eg_entries (rs_engine s')) \<le> 500"
proof -
  have "saved dr w (rs_engine (run_start now w (engine_new w b es)))"
    using restored_saved [OF _ assms(3,2)] assms(2,4) by (simp add: run_start_def)
  from engine_run_saved [OF assms(5,1) this] have sv: "saved dr w' (rs_engine s')" .
  have "wd_db w' \<noteq> None"
    using assms(5,2)
  proof (induction rule: engine_run.induct)
    case (turned dr w s w1 s1 w2 v ev w0 w3 s3 reply stop)
    from turned(4) have "wd_db w2 \<noteq> None \<Longrightarrow> wd_db w3 \<noteq> None"
      by (cases rule: engine_turn_cases)
        (auto simp: untouched_def committed_def elim!: commit_cases split: option.splits)
    with turned show ?case by (auto simp: same_ledger_def option_rel_Some1)
  qed simp
  with sv saved_restores show ?thesis by (fastforce simp: saved_def RECENT_ENTRIES_def)
qed

text \<open>C29: an operation that is answered with an error has changed nothing: not the book, not the entries, not a
  user's limit, not the limits the runtime reads, and not the file.\<close>

theorem refused_operation_changes_nothing:
  assumes "engine_turn v ev w0 w s = Some (w', s', Some (Inl err), stop)"
  shows "w' = w \<and> eg_book (rs_engine s') = eg_book (rs_engine s) \<and> eg_entries (rs_engine s') = eg_entries (rs_engine s)"
  using assms by (cases rule: engine_turn_cases) (auto simp: untouched_def)

end
