(* ===== verification/Pool.thy ===== *)
theory Pool
  imports Sockets
begin

text \<open>
  The pool of prioritized targets of a rule (\<open>pool.rs\<close>) and the connection loop that the TCP
  and the UDP side run over it.  Health flips are serialized by the pool's lock, so each is one
  transformer.  An index out of range panics, which is \<open>None\<close>.  The re-arming tasks a pool with a
  cooldown spawns are the list \<open>tp_timers\<close>; a task that wakes up is \<open>timer_fires\<close>.  Time is in
  milliseconds since the pool was made.  What the connection loop needs of a pool is the locale
  \<open>failover\<close>.
\<close>

record target_pool =
  tp_user :: string
  tp_targets :: "string list"
  tp_healthy :: "bool list"
  tp_active :: nat
  tp_cooldown :: "u64 option"
  tp_timers :: "nat list"
  tp_confirmed :: "u64 list"

definition pool_new :: "string \<Rightarrow> string list \<Rightarrow> u64 option \<Rightarrow> target_pool option" where
  "pool_new user targets cooldown =
     (if targets = [] then None
      else Some \<lparr> tp_user = user, tp_targets = targets, tp_healthy = map (\<lambda>_. True) targets,
                  tp_active = 0, tp_cooldown = cooldown, tp_timers = [],
                  tp_confirmed = map (\<lambda>_. 0) targets \<rparr>)"

definition pool_len :: "target_pool \<Rightarrow> nat" where
  "pool_len p = length (tp_targets p)"

definition pool_pick :: "target_pool \<Rightarrow> (nat \<times> string) option" where
  "pool_pick p = (if tp_active p < length (tp_targets p)
     then Some (tp_active p, tp_targets p ! tp_active p) else None)"

text \<open>\<open>position(..).unwrap_or(0)\<close>\<close>

fun first_true :: "bool list \<Rightarrow> nat option" where
  "first_true [] = None"
| "first_true (h # hs) = (if h then Some 0 else map_option Suc (first_true hs))"

definition first_healthy :: "bool list \<Rightarrow> nat" where
  "first_healthy hs = (case first_true hs of None \<Rightarrow> 0 | Some i \<Rightarrow> i)"

definition update_active :: "target_pool \<Rightarrow> target_pool" where
  "update_active p = p\<lparr> tp_active := first_healthy (tp_healthy p) \<rparr>"

definition mark_down :: "nat \<Rightarrow> target_pool \<Rightarrow> target_pool option" where
  "mark_down i p =
     (if length (tp_healthy p) \<le> i then None
      else if \<not> tp_healthy p ! i then Some p
      else
        let p1 = update_active (p\<lparr> tp_healthy := (tp_healthy p)[i := False] \<rparr>)
        in Some (case tp_cooldown p of None \<Rightarrow> p1 | Some _ \<Rightarrow> p1\<lparr> tp_timers := tp_timers p1 @ [i] \<rparr>))"

definition mark_up :: "nat \<Rightarrow> target_pool \<Rightarrow> target_pool option" where
  "mark_up i p =
     (if length (tp_healthy p) \<le> i then None
      else if tp_healthy p ! i then Some p
      else Some (update_active (p\<lparr> tp_healthy := (tp_healthy p)[i := True] \<rparr>)))"

definition confirm :: "u64 \<Rightarrow> nat \<Rightarrow> target_pool \<Rightarrow> target_pool option" where
  "confirm now_ms i p =
     (if length (tp_confirmed p) \<le> i then None
      else mark_up i (p\<lparr> tp_confirmed := (tp_confirmed p)[i := now_ms] \<rparr>))"

definition timer_fires :: "nat \<Rightarrow> target_pool \<Rightarrow> target_pool option" where
  "timer_fires i p = (if i \<in> set (tp_timers p) then mark_up i (p\<lparr> tp_timers := remove1 i (tp_timers p) \<rparr>)
     else None)"

definition needs_probe :: "u64 \<Rightarrow> u64 \<Rightarrow> target_pool \<Rightarrow> nat \<Rightarrow> bool" where
  "needs_probe now_ms interval p i \<longleftrightarrow>
     \<not> tp_healthy p ! i \<or> saturating_sub now_ms (tp_confirmed p ! i) \<ge> interval"

text \<open>
  One round of \<open>probe_pool\<close>: the targets that traffic cannot vouch for are dialled and their
  outcomes applied as the tasks finish, in the order given; \<open>reachable\<close> is what dialling finds.
\<close>

definition probe_targets :: "u64 \<Rightarrow> u64 \<Rightarrow> target_pool \<Rightarrow> nat list" where
  "probe_targets now_ms interval p = filter (needs_probe now_ms interval p) [0..<pool_len p]"

fun probe_finish :: "(string \<Rightarrow> bool) \<Rightarrow> u64 \<Rightarrow> nat list \<Rightarrow> target_pool \<Rightarrow> target_pool option" where
  "probe_finish reachable now_ms [] p = Some p"
| "probe_finish reachable now_ms (i # is) p =
     do { p' \<leftarrow> (if reachable (tp_targets p ! i) then confirm now_ms i p else mark_down i p);
          probe_finish reachable now_ms is p' }"

text \<open>
  The loop of \<open>connect_active\<close>, at most \<open>n\<close> rounds: dial the active target; on success do what the
  caller does with the pool; on failure mark it down, and give up when the active index did not
  move.  The result is the connection or the last error.
\<close>

fun connect_loop :: "('p \<Rightarrow> (nat \<times> string) option) \<Rightarrow> (nat \<Rightarrow> 'p \<Rightarrow> 'p option) \<Rightarrow> (nat \<Rightarrow> 'p \<Rightarrow> 'p option)
    \<Rightarrow> (string \<Rightarrow> 'e + 'c) \<Rightarrow> nat \<Rightarrow> 'e option \<Rightarrow> 'p \<Rightarrow> ('p \<times> ('e option + nat \<times> 'c)) option" where
  "connect_loop pick down success dial 0 last_err p = Some (p, Inl last_err)"
| "connect_loop pick down success dial (Suc n) last_err p =
     do { (i, target) \<leftarrow> pick p;
          case dial target of
            Inr conn \<Rightarrow> do { p' \<leftarrow> success i p; Some (p', Inr (i, conn)) }
          | Inl e \<Rightarrow>
              do { p' \<leftarrow> down i p;
                   (j, _) \<leftarrow> pick p';
                   if j = i then Some (p', Inl (Some e))
                   else connect_loop pick down success dial n (Some e) p' } }"

section \<open>The interface\<close>

locale failover =
  fixes pick :: "'p \<Rightarrow> (nat \<times> string) option"
    and down :: "nat \<Rightarrow> 'p \<Rightarrow> 'p option"
    and targets :: "'p \<Rightarrow> string list"
    and healthy :: "'p \<Rightarrow> bool list"
    and invar :: "'p \<Rightarrow> bool"
  assumes nonempty: "invar p \<Longrightarrow> targets p \<noteq> []"
    and lengths: "invar p \<Longrightarrow> length (healthy p) = length (targets p)"
    and pick_first: "invar p \<Longrightarrow> pick p = Some (first_healthy (healthy p), targets p ! first_healthy (healthy p))"
    and down_ok: "invar p \<Longrightarrow> i < length (targets p) \<Longrightarrow>
      \<exists>p'. down i p = Some p' \<and> invar p' \<and> targets p' = targets p \<and> healthy p' = (healthy p)[i := False]"

section \<open>The first healthy target\<close>

lemma first_true_Some:
  "first_true hs = Some i \<longleftrightarrow> i < length hs \<and> hs ! i \<and> (\<forall>j<i. \<not> hs ! j)"
proof (induction hs arbitrary: i)
  case (Cons h hs)
  show ?case by (cases i) (auto simp: Cons less_Suc_eq_0_disj)
qed simp

lemma first_true_None: "first_true hs = None \<longleftrightarrow> (\<forall>i<length hs. \<not> hs ! i)"
proof (induction hs)
  case (Cons h hs)
  then show ?case by (auto simp: less_Suc_eq_0_disj)
qed simp

lemma first_healthy_less: "hs \<noteq> [] \<Longrightarrow> first_healthy hs < length hs"
  by (auto simp: first_healthy_def first_true_Some split: option.splits)

text \<open>The active index is the first healthy one, or the primary when none is.\<close>

lemma first_healthy_cases:
  assumes "hs \<noteq> []"
  obtains (up) "hs ! first_healthy hs" "\<forall>j<first_healthy hs. \<not> hs ! j"
  | (all_down) "first_healthy hs = 0" "\<forall>i<length hs. \<not> hs ! i"
proof (cases "first_true hs")
  case None
  then have "first_healthy hs = 0" by (simp add: first_healthy_def)
  moreover from None have "\<forall>i<length hs. \<not> hs ! i" by (simp only: first_true_None)
  ultimately show ?thesis by (rule all_down)
next
  case (Some i)
  then have i: "first_healthy hs = i" by (simp add: first_healthy_def)
  from Some have "hs ! i" "\<forall>j<i. \<not> hs ! j" unfolding first_true_Some by blast+
  then show ?thesis unfolding i [symmetric] by (rule up)
qed

lemma count_healthy_update:
  "k < length hs \<Longrightarrow> hs ! k \<Longrightarrow> Suc (length (filter id (hs[k := False]))) = length (filter id hs)"
proof (induction hs arbitrary: k)
  case (Cons h hs)
  then show ?case by (cases k) auto
qed simp

text \<open>What marking the active target down does to the healthy ones.\<close>

lemma count_healthy_down:
  assumes "hs \<noteq> []" "length (filter id hs) \<le> Suc n"
  shows "length (filter id (hs[first_healthy hs := False])) \<le> n"
  using assms(1)
proof (cases rule: first_healthy_cases)
  case up
  then show ?thesis
    using assms count_healthy_update [OF first_healthy_less [OF assms(1)]] by simp
next
  case all_down
  then have "\<not> hs[first_healthy hs := False] ! i" if "i < length hs" for i
    using that by (cases "i = first_healthy hs") simp_all
  then have "filter id (hs[first_healthy hs := False]) = []"
    by (auto simp: filter_empty_conv in_set_conv_nth)
  then show ?thesis by simp
qed

lemma first_healthy_stuck:
  assumes "hs \<noteq> []" "first_healthy (hs[first_healthy hs := False]) = first_healthy hs"
    "j < length hs" "hs ! j"
  shows "j = first_healthy hs"
proof (rule ccontr)
  assume other: "j \<noteq> first_healthy hs"
  let ?hs = "hs[first_healthy hs := False]"
  have "?hs \<noteq> []" using assms(1) by simp
  then show False
  proof (cases rule: first_healthy_cases)
    case up
    then show False unfolding assms(2) using first_healthy_less [OF assms(1)] by simp
  next
    case all_down
    then show False using assms(3,4) other by (auto dest!: spec [of _ j])
  qed
qed

section \<open>The connection loop over any pool with failover\<close>

context failover
begin

lemma connect_loop_runs:
  assumes "invar p" "\<And>p i. invar p \<Longrightarrow> i < length (targets p) \<Longrightarrow> success i p \<noteq> None"
  obtains p' r where "connect_loop pick down success dial n err p = Some (p', r)"
    "\<And>i c. r = Inr (i, c) \<Longrightarrow> i < length (targets p) \<and> dial (targets p ! i) = Inr c
       \<and> (\<forall>j<i. healthy p ! j \<longrightarrow> isl (dial (targets p ! j)))"
    "\<And>e. r = Inl e \<Longrightarrow> length (filter id (healthy p)) \<le> n
       \<Longrightarrow> (\<forall>j<length (targets p). healthy p ! j \<longrightarrow> isl (dial (targets p ! j)))"
proof -
  have "\<exists>p' r. connect_loop pick down success dial n err p = Some (p', r)
    \<and> (\<forall>i c. r = Inr (i, c) \<longrightarrow> i < length (targets p) \<and> dial (targets p ! i) = Inr c
       \<and> (\<forall>j<i. healthy p ! j \<longrightarrow> isl (dial (targets p ! j))))
    \<and> (\<forall>e. r = Inl e \<longrightarrow> length (filter id (healthy p)) \<le> n
       \<longrightarrow> (\<forall>j<length (targets p). healthy p ! j \<longrightarrow> isl (dial (targets p ! j))))"
    using assms(1)
  proof (induction n arbitrary: err p)
    case 0
    then show ?case by (auto simp: filter_empty_conv in_set_conv_nth lengths)
  next
    case (Suc n)
    let ?k = "first_healthy (healthy p)"
    have ne: "healthy p \<noteq> []" using nonempty [OF Suc.prems] lengths [OF Suc.prems] by auto
    then have k: "?k < length (targets p)" using first_healthy_less lengths [OF Suc.prems] by metis
    show ?case
    proof (cases "dial (targets p ! ?k)")
      case (Inr c)
      obtain p' where "success ?k p = Some p'" using assms(2) [OF Suc.prems k] by blast
      moreover have "\<forall>j<?k. \<not> healthy p ! j" using first_healthy_cases [OF ne] by fastforce
      ultimately show ?thesis using Inr k by (simp add: pick_first [OF Suc.prems])
    next
      case (Inl e)
      obtain p1 where p1: "down ?k p = Some p1" "invar p1" "targets p1 = targets p"
        "healthy p1 = (healthy p)[?k := False]"
        using down_ok [OF Suc.prems k] by blast
      let ?j = "first_healthy (healthy p1)"
      have rest: "healthy p ! j \<Longrightarrow> j = ?k \<or> healthy p1 ! j" for j by (cases "j = ?k") (simp_all add: p1(4))
      have count: "length (filter id (healthy p)) \<le> Suc n \<Longrightarrow> length (filter id (healthy p1)) \<le> n"
        unfolding p1(4) by (rule count_healthy_down [OF ne])
      show ?thesis
      proof (cases "?j = ?k")
        case True
        then have "\<forall>j<length (targets p). healthy p ! j \<longrightarrow> j = ?k"
          using first_healthy_stuck [OF ne] lengths [OF Suc.prems] by (simp add: p1(4))
        with Inl True p1 show ?thesis by (auto simp: pick_first [OF Suc.prems] pick_first [OF p1(2)])
      next
        case False
        from Suc.IH [OF p1(2), of "Some e"] obtain p' r where
          run: "connect_loop pick down success dial n (Some e) p1 = Some (p', r)"
          "\<forall>i c. r = Inr (i, c) \<longrightarrow> i < length (targets p) \<and> dial (targets p ! i) = Inr c
             \<and> (\<forall>j<i. healthy p1 ! j \<longrightarrow> isl (dial (targets p ! j)))"
          "\<forall>e. r = Inl e \<longrightarrow> length (filter id (healthy p1)) \<le> n
             \<longrightarrow> (\<forall>j<length (targets p). healthy p1 ! j \<longrightarrow> isl (dial (targets p ! j)))"
          unfolding p1(3) by blast
        have "connect_loop pick down success dial (Suc n) err p = Some (p', r)"
          using Inl False p1(1) run(1) by (simp add: pick_first [OF Suc.prems] pick_first [OF p1(2)])
        with run(2,3) rest Inl count show ?thesis by (metis isl_def)
      qed
    qed
  qed
  then show thesis using that by blast
qed

lemma connect_loop_keeps:
  assumes "invar p" "connect_loop pick down success dial n err p = Some (p', r)"
    "\<And>i p p'. invar p \<Longrightarrow> success i p = Some p' \<Longrightarrow> invar p' \<and> targets p' = targets p"
  shows "invar p' \<and> targets p' = targets p"
  using assms(1,2)
proof (induction n arbitrary: err p)
  case (Suc n)
  let ?k = "first_healthy (healthy p)"
  note pick = pick_first [OF Suc.prems(1)]
  show ?case
  proof (cases "dial (targets p ! ?k)")
    case (Inr c)
    with Suc.prems assms(3) [OF Suc.prems(1)] show ?thesis by (auto simp: pick bind_eq_Some_conv)
  next
    case (Inl e)
    have ne: "healthy p \<noteq> []" using nonempty [OF Suc.prems(1)] lengths [OF Suc.prems(1)] by auto
    then have "?k < length (targets p)" using first_healthy_less lengths [OF Suc.prems(1)] by metis
    from down_ok [OF Suc.prems(1) this] obtain p1 where p1: "down ?k p = Some p1" "invar p1" "targets p1 = targets p"
      by blast
    from Suc.prems(2) Inl p1(1) pick_first [OF p1(2)]
    have "(p' = p1 \<and> r = Inl (Some e)) \<or> connect_loop pick down success dial n (Some e) p1 = Some (p', r)"
      by (auto simp: pick split: if_splits)
    with Suc.IH [OF p1(2)] p1(2,3) show ?thesis by auto
  qed
qed simp

end

section \<open>The pool provides it\<close>

definition pool_inv :: "target_pool \<Rightarrow> bool" where
  "pool_inv p \<longleftrightarrow> tp_targets p \<noteq> [] \<and> length (tp_healthy p) = length (tp_targets p)
     \<and> length (tp_confirmed p) = length (tp_targets p) \<and> tp_active p = first_healthy (tp_healthy p)
     \<and> (\<forall>i\<in>set (tp_timers p). i < length (tp_targets p))"

lemma pool_active_less:
  assumes "pool_inv p"
  shows "tp_active p < length (tp_targets p)"
proof -
  have "tp_healthy p \<noteq> []" using assms by (auto simp: pool_inv_def)
  from first_healthy_less [OF this] assms show ?thesis by (simp add: pool_inv_def)
qed

lemma pool_new_inv: "pool_new user targets cooldown = Some p \<Longrightarrow> pool_inv p \<and> tp_healthy p = map (\<lambda>_. True) targets"
  by (cases targets) (auto simp: pool_new_def pool_inv_def first_healthy_def)

lemma mark_down_laws:
  assumes "pool_inv p" "i < pool_len p"
  shows "\<exists>p'. mark_down i p = Some p' \<and> pool_inv p' \<and> tp_targets p' = tp_targets p
    \<and> tp_healthy p' = (tp_healthy p)[i := False]"
proof (cases "tp_healthy p ! i")
  case True
  with assms show ?thesis
    by (cases "tp_cooldown p") (simp_all add: mark_down_def update_active_def pool_inv_def pool_len_def Let_def)
next
  case False
  then have "(tp_healthy p)[i := False] = tp_healthy p" by (metis list_update_id)
  with False assms show ?thesis by (simp add: mark_down_def pool_inv_def pool_len_def)
qed

lemma mark_up_laws:
  assumes "pool_inv p" "i < pool_len p"
  shows "\<exists>p'. mark_up i p = Some p' \<and> pool_inv p' \<and> tp_targets p' = tp_targets p
    \<and> tp_healthy p' = (tp_healthy p)[i := True]"
proof (cases "tp_healthy p ! i")
  case False
  with assms show ?thesis by (simp add: mark_up_def update_active_def pool_inv_def pool_len_def)
next
  case True
  then have "(tp_healthy p)[i := True] = tp_healthy p" by (metis list_update_id)
  with True assms show ?thesis by (simp add: mark_up_def pool_inv_def pool_len_def)
qed

lemma confirm_laws:
  assumes "pool_inv p" "i < pool_len p"
  shows "\<exists>p'. confirm now i p = Some p' \<and> pool_inv p' \<and> tp_targets p' = tp_targets p
    \<and> tp_healthy p' = (tp_healthy p)[i := True]"
proof -
  let ?p = "p\<lparr> tp_confirmed := (tp_confirmed p)[i := now] \<rparr>"
  have "pool_inv ?p" "i < pool_len ?p" using assms by (simp_all add: pool_inv_def pool_len_def)
  from mark_up_laws [OF this] assms show ?thesis by (simp add: confirm_def pool_inv_def pool_len_def)
qed

interpretation tp: failover pool_pick mark_down tp_targets tp_healthy pool_inv
proof unfold_locales
  fix p i assume "pool_inv p" "i < length (tp_targets p)"
  then show "\<exists>p'. mark_down i p = Some p' \<and> pool_inv p' \<and> tp_targets p' = tp_targets p
      \<and> tp_healthy p' = (tp_healthy p)[i := False]"
    using mark_down_laws [of p i] by (simp add: pool_len_def)
next
  fix p assume inv: "pool_inv p"
  then show "tp_targets p \<noteq> []" "length (tp_healthy p) = length (tp_targets p)" by (simp_all add: pool_inv_def)
  from pool_active_less [OF inv] inv
  show "pool_pick p = Some (first_healthy (tp_healthy p), tp_targets p ! first_healthy (tp_healthy p))"
    by (simp add: pool_pick_def pool_inv_def)
qed

section \<open>The life of a pool\<close>

text \<open>Flips by traffic, by probes and by re-arming tasks, in any order.\<close>

inductive pool_step :: "target_pool \<Rightarrow> target_pool \<Rightarrow> bool" where
  downed: "mark_down i p = Some p' \<Longrightarrow> pool_step p p'"
| upped: "mark_up i p = Some p' \<Longrightarrow> pool_step p p'"
| confirmed: "confirm now i p = Some p' \<Longrightarrow> pool_step p p'"
| rearmed: "timer_fires i p = Some p' \<Longrightarrow> pool_step p p'"

inductive_cases pool_stepE: "pool_step p p'"

lemma mark_up_len: "mark_up i p = Some p' \<Longrightarrow> i < length (tp_healthy p)"
  by (auto simp: mark_up_def split: if_splits)

lemma mark_down_len: "mark_down i p = Some p' \<Longrightarrow> i < length (tp_healthy p)"
  by (auto simp: mark_down_def split: if_splits)

lemma pool_step_inv:
  assumes "pool_step p p'" "pool_inv p"
  shows "pool_inv p' \<and> tp_targets p' = tp_targets p"
  using assms(1)
proof (cases rule: pool_step.cases)
  case (downed i)
  with mark_down_laws [OF assms(2), of i] mark_down_len [OF downed] assms(2) show ?thesis
    by (auto simp: pool_len_def pool_inv_def)
next
  case (upped i)
  with mark_up_laws [OF assms(2), of i] mark_up_len [OF upped] assms(2) show ?thesis
    by (auto simp: pool_len_def pool_inv_def)
next
  case (confirmed now i)
  then have "i < pool_len p" using assms(2) by (auto simp: confirm_def pool_inv_def pool_len_def split: if_splits)
  with confirm_laws [OF assms(2) this, of now] confirmed show ?thesis by auto
next
  case (rearmed i)
  let ?p = "p\<lparr> tp_timers := remove1 i (tp_timers p) \<rparr>"
  have inv: "pool_inv ?p" using assms(2) notin_set_remove1 by (fastforce simp: pool_inv_def)
  from rearmed have "mark_up i ?p = Some p'" "i < pool_len ?p"
    using assms(2) by (auto simp: timer_fires_def pool_inv_def pool_len_def split: if_splits)
  with mark_up_laws [OF inv, of i] show ?thesis by auto
qed

lemma pool_run_inv: "pool_step\<^sup>*\<^sup>* p p' \<Longrightarrow> pool_inv p \<Longrightarrow> pool_inv p' \<and> tp_targets p' = tp_targets p"
  by (induction rule: rtranclp_induct) (auto dest: pool_step_inv)

text \<open>C37: in every pool that traffic, probes and re-arming tasks can lead to, the active target is the
  healthy one of the highest priority, and the primary when every target is down; picking it
  never fails.\<close>

theorem active_is_first_healthy:
  assumes "pool_new user targets cooldown = Some p0" "pool_step\<^sup>*\<^sup>* p0 p"
  shows "\<exists>i. pool_pick p = Some (i, targets ! i) \<and> i < length targets
    \<and> (\<forall>j<i. \<not> tp_healthy p ! j)
    \<and> (tp_healthy p ! i \<or> i = 0 \<and> (\<forall>j<length targets. \<not> tp_healthy p ! j))"
proof -
  have "pool_inv p0" "tp_targets p0 = targets"
    using assms(1) pool_new_inv by (auto simp: pool_new_def split: if_splits)
  then have inv: "pool_inv p" and tg: "tp_targets p = targets" using pool_run_inv [OF assms(2)] by auto
  let ?i = "first_healthy (tp_healthy p)"
  have len: "length (tp_healthy p) = length targets" and ne: "tp_healthy p \<noteq> []"
    using inv tg by (auto simp: pool_inv_def)
  have pick: "pool_pick p = Some (?i, targets ! ?i)" using tp.pick_first [OF inv] tg by simp
  have less: "?i < length targets" using first_healthy_less [OF ne] len by simp
  from ne show ?thesis
  proof (cases rule: first_healthy_cases)
    case up
    with pick less show ?thesis by blast
  next
    case all_down
    with pick less len show ?thesis by auto
  qed
qed

section \<open>Probes\<close>

lemma probe_finish_health:
  assumes "pool_inv p" "distinct is" "\<forall>i\<in>set is. i < pool_len p"
  shows "\<exists>p'. probe_finish reachable now is p = Some p' \<and> pool_inv p' \<and> tp_targets p' = tp_targets p
    \<and> (\<forall>i<pool_len p. tp_healthy p' ! i = (if i \<in> set is then reachable (tp_targets p ! i) else tp_healthy p ! i))"
  using assms
proof (induction "is" arbitrary: p)
  case (Cons k ks)
  have k: "k < pool_len p" using Cons.prems(3) by simp
  let ?up = "reachable (tp_targets p ! k)"
  obtain p1 where p1: "(if ?up then confirm now k p else mark_down k p) = Some p1" "pool_inv p1"
    "tp_targets p1 = tp_targets p" "tp_healthy p1 = (tp_healthy p)[k := ?up]"
    using confirm_laws [OF Cons.prems(1) k, of now] mark_down_laws [OF Cons.prems(1) k] by (cases ?up) auto
  have len: "pool_len p1 = pool_len p" "length (tp_healthy p) = pool_len p"
    using p1(3) Cons.prems(1) by (simp_all add: pool_len_def pool_inv_def)
  have "distinct ks" "\<forall>i\<in>set ks. i < pool_len p1" using Cons.prems len by simp_all
  from Cons.IH [OF p1(2) this] obtain p' where rest: "probe_finish reachable now ks p1 = Some p'" "pool_inv p'"
    "tp_targets p' = tp_targets p"
    "\<forall>i<pool_len p. tp_healthy p' ! i = (if i \<in> set ks then reachable (tp_targets p ! i) else tp_healthy p1 ! i)"
    unfolding p1(3) len by blast
  have "probe_finish reachable now (k # ks) p = Some p'" using p1(1) rest(1) by simp
  moreover have "tp_healthy p1 ! i = (if i = k then ?up else tp_healthy p ! i)" if "i < pool_len p" for i
    using that len by (simp add: p1(4) nth_list_update)
  ultimately show ?case using rest(2-4) by auto
qed simp

text \<open>A round of probes leaves the pool knowing what it found, in whatever order the probes finish:
  every target that was down or not confirmed within the interval is healthy exactly when it can be
  reached, the others keep their state, and nothing panics.\<close>

lemma probe_round_learns:
  assumes "pool_inv p" "set order = set (probe_targets now interval p)" "distinct order"
  shows "\<exists>p'. probe_finish reachable later order p = Some p' \<and> pool_inv p'
    \<and> (\<forall>i<pool_len p. tp_healthy p' ! i
         = (if needs_probe now interval p i then reachable (tp_targets p ! i) else tp_healthy p ! i))"
proof -
  have "\<forall>i\<in>set order. i < pool_len p" using assms(2) by (auto simp: probe_targets_def)
  from probe_finish_health [OF assms(1,3) this, of reachable later] assms(2) show ?thesis
    by (auto simp: probe_targets_def)
qed

section \<open>The laws at work\<close>

definition sample_pool :: target_pool where
  "sample_pool = the (pool_new ''ann'' [''a:1'', ''b:2'', ''c:3''] None)"

lemma sample_pool_new: "pool_new ''ann'' [''a:1'', ''b:2'', ''c:3''] None = Some sample_pool"
  by (simp add: sample_pool_def pool_new_def)

lemma sample_pool_inv: "pool_inv sample_pool"
  using pool_new_inv [OF sample_pool_new] by blast

theorem active_is_first_healthy_witness:
  "\<exists>p i. mark_down 0 sample_pool = Some p \<and> pool_pick p = Some (i, [''a:1'', ''b:2'', ''c:3''] ! i) \<and> i = 1"
proof -
  obtain p where p: "mark_down 0 sample_pool = Some p" "tp_healthy p = [False, True, True]"
    by (simp add: sample_pool_def pool_new_def mark_down_def update_active_def)
  then have "pool_step\<^sup>*\<^sup>* sample_pool p" by (blast intro: pool_step.downed)
  from active_is_first_healthy [OF sample_pool_new this] obtain i where
    i: "pool_pick p = Some (i, [''a:1'', ''b:2'', ''c:3''] ! i)" "i < 3" "\<forall>j<i. \<not> tp_healthy p ! j"
    "tp_healthy p ! i \<or> i = 0 \<and> (\<forall>j<3. \<not> tp_healthy p ! j)" by auto
  then have "i = 1" using p(2) by (auto simp: less_Suc_eq numeral_3_eq_3)
  with p i show ?thesis by blast
qed

lemma probe_round_learns_witness:
  "\<exists>p'. probe_finish (\<lambda>t. t = ''b:2'') 9 [2, 0, 1] sample_pool = Some p' \<and> tp_healthy p' ! 1 \<and> \<not> tp_healthy p' ! 0"
proof -
  have "set [2, 0, 1] = set (probe_targets 5 5 sample_pool)" by code_simp
  from probe_round_learns [OF sample_pool_inv this, of "\<lambda>t. t = ''b:2''" 9] obtain p' where
    "probe_finish (\<lambda>t. t = ''b:2'') 9 [2, 0, 1] sample_pool = Some p'"
    "\<forall>i<pool_len sample_pool. tp_healthy p' ! i = (if needs_probe 5 5 sample_pool i
       then tp_targets sample_pool ! i = ''b:2'' else tp_healthy sample_pool ! i)" by auto
  moreover have "pool_len sample_pool = 3" "needs_probe 5 5 sample_pool 0" "needs_probe 5 5 sample_pool 1"
    "tp_targets sample_pool ! 0 \<noteq> ''b:2''" "tp_targets sample_pool ! 1 = ''b:2''" by code_simp+
  ultimately show ?thesis by simp
qed

end
