(* ===== verification/Runtime.thy ===== *)
theory Runtime
  imports Accounting Pool "HOL-Library.AList"
begin

text \<open>
  The running configuration (\<open>runtime.rs\<close>): the forwarding rules with their sockets, target pools and
  tasks, and \<open>apply\<close>, which takes the program from one configuration to the next.  Quotas and pools are
  shared objects in stores, sockets are numbers, and a spawned task is a value that says what it
  serves and whose quota it bills.  The hash map of rules is an association list, so the order in
  which old rules are visited is that of the list.  What binding a socket answers, the hour, the
  driver and its faults are the environment of an \<open>apply\<close>; a missing map entry panics, \<open>None\<close>.
\<close>

record rule_spec =
  sp_user :: string
  sp_listen :: socket_addr
  sp_protocol :: protocol
  sp_targets :: "string list"
  sp_check_secs :: u64

text \<open>What is spawned for a rule; the numbers are the socket and the quota.\<close>

datatype task =
    ProbeTask u64
  | TcpTask nat nat
  | UdpTask nat nat

record running_rule =
  rr_pool :: nat
  rr_tcp :: "nat option"
  rr_udp :: "nat option"
  rr_tasks :: "task list"

record prepared_rule =
  pr_spec :: rule_spec
  pr_tcp :: "nat option"
  pr_udp :: "nat option"

record runtime =
  rt_rules :: "(rule_spec \<times> running_rule) list"
  rt_pool_store :: "target_pool list"
  rt_pools :: "(socket_addr \<times> protocol) \<rightharpoonup> nat"
  rt_started :: bool

record apply_env =
  ae_driver :: driver
  ae_load_faults :: faults
  ae_flush_faults :: faults
  ae_bind_tcp :: "socket_addr \<Rightarrow> string + nat"
  ae_bind_udp :: "socket_addr \<Rightarrow> string + nat"
  ae_hour :: i64

datatype apply_error =
    CannotBindTcp socket_addr string
  | CannotBindUdp socket_addr string
  | CannotLoad db_error

definition runtime_new :: runtime where
  "runtime_new = \<lparr> rt_rules = [], rt_pool_store = [], rt_pools = Map.empty, rt_started = False \<rparr>"

section \<open>Sockets\<close>

definition specs_of :: "config \<Rightarrow> rule_spec list" where
  "specs_of c = concat (map (\<lambda>u. map (\<lambda>r. \<lparr> sp_user = uc_name u, sp_listen = rl_listen r,
       sp_protocol = rl_protocol r, sp_targets = rl_target r # rl_fallback r,
       sp_check_secs = rl_check_secs r \<rparr>) (filter rl_enabled (uc_rules u))) (cf_users c))"

definition removed_rules :: "rule_spec list \<Rightarrow> runtime \<Rightarrow> (rule_spec \<times> running_rule) list" where
  "removed_rules specs rt = filter (\<lambda>(spec, _). spec \<notin> set specs) (rt_rules rt)"

type_synonym spares = "socket_addr \<rightharpoonup> nat"

fun spare_sockets :: "(rule_spec \<times> running_rule) list \<Rightarrow> spares \<Rightarrow> spares \<Rightarrow> spares \<times> spares" where
  "spare_sockets [] tcp udp = (tcp, udp)"
| "spare_sockets ((spec, rule) # rs) tcp udp = spare_sockets rs
     (case rr_tcp rule of None \<Rightarrow> tcp | Some s \<Rightarrow> tcp(sp_listen spec \<mapsto> s))
     (case rr_udp rule of None \<Rightarrow> udp | Some s \<Rightarrow> udp(sp_listen spec \<mapsto> s))"

text \<open>No socket when the protocol does not want one, else the spare one, else a new one.\<close>

definition take_socket :: "bool \<Rightarrow> nat option \<Rightarrow> (string + nat) \<Rightarrow> string + nat option" where
  "take_socket wants spare answer =
     (if \<not> wants then Inr None
      else case spare of
        Some s \<Rightarrow> Inr (Some s)
      | None \<Rightarrow> (case answer of Inl e \<Rightarrow> Inl e | Inr s \<Rightarrow> Inr (Some s)))"

text \<open>Both spare sockets of the address are taken out of the maps, whether the rule wants them or not.\<close>

fun prepare_rules :: "apply_env \<Rightarrow> rule_spec set \<Rightarrow> rule_spec list \<Rightarrow> spares \<Rightarrow> spares
    \<Rightarrow> apply_error + prepared_rule list" where
  "prepare_rules v known [] tcp udp = Inr []"
| "prepare_rules v known (spec # specs) tcp udp =
     (let addr = sp_listen spec in
      if spec \<in> known then prepare_rules v known specs tcp udp
      else case take_socket (proto_tcp (sp_protocol spec)) (tcp addr) (ae_bind_tcp v addr) of
        Inl e \<Rightarrow> Inl (CannotBindTcp addr e)
      | Inr t \<Rightarrow>
          (case take_socket (proto_udp (sp_protocol spec)) (udp addr) (ae_bind_udp v addr) of
             Inl e \<Rightarrow> Inl (CannotBindUdp addr e)
           | Inr u \<Rightarrow>
               (case prepare_rules v known specs (tcp(addr := None)) (udp(addr := None)) of
                  Inl e \<Rightarrow> Inl e
                | Inr ps \<Rightarrow> Inr (\<lparr> pr_spec = spec, pr_tcp = t, pr_udp = u \<rparr> # ps))))"

section \<open>Users\<close>

definition remote_snapshot :: "config \<Rightarrow> world \<Rightarrow> (string \<rightharpoonup> u64) option" where
  "remote_snapshot c w = (case active_remote (cf_accounting c) of None \<Rightarrow> None | Some _ \<Rightarrow> wd_limits w)"

definition wanted_limit :: "config \<Rightarrow> (string \<rightharpoonup> u64) option \<Rightarrow> user_quota \<Rightarrow> u64 option option" where
  "wanted_limit c remote q = (case remote of
      Some limits \<Rightarrow> Some (Some (case limits (q_name q) of Some l \<Rightarrow> l | None \<Rightarrow> used q))
    | None \<Rightarrow> resolve_quotas c (q_name q))"

definition relimit :: "config \<Rightarrow> (string \<rightharpoonup> u64) option \<Rightarrow> user_quota \<Rightarrow> user_quota option" where
  "relimit c remote q =
     do { limit \<leftarrow> wanted_limit c remote q;
          Some (if limit_of q \<noteq> limit then set_limit limit q else q) }"

definition update_user :: "config \<Rightarrow> (string \<rightharpoonup> u64) option \<Rightarrow> user_quota \<Rightarrow> user_quota option" where
  "update_user c remote q =
     (let m = acc_metering (cf_accounting c);
          q1 = (if metering_of q \<noteq> m then set_metering m q else q)
      in relimit c remote q1)"

definition create_user :: "apply_env \<Rightarrow> config \<Rightarrow> (string \<rightharpoonup> u64) option \<Rightarrow> (string \<rightharpoonup> saved_usage) \<Rightarrow> string
    \<Rightarrow> user_quota option" where
  "create_user v c remote usage nm =
     do { limit \<leftarrow> resolve_quotas c nm;
          relimit c remote (new_metered_at nm limit (case usage nm of None \<Rightarrow> saved_default | Some s \<Rightarrow> s)
            (acc_metering (cf_accounting c)) (ae_hour v)) }"

fun next_users :: "apply_env \<Rightarrow> config \<Rightarrow> (string \<rightharpoonup> u64) option \<Rightarrow> (string \<rightharpoonup> saved_usage) \<Rightarrow> user_set
    \<Rightarrow> user_config list \<Rightarrow> quota_store \<Rightarrow> (quota_store \<times> nat list) option" where
  "next_users v c remote usage current [] st = Some (st, [])"
| "next_users v c remote usage current (u # us) st =
     do { (st1, r) \<leftarrow> (case us_get current (uc_name u) of
             Some r \<Rightarrow> do { q \<leftarrow> update_user c remote (st ! r); Some (st[r := q], r) }
           | None \<Rightarrow> do { q \<leftarrow> create_user v c remote usage (uc_name u); Some (st @ [q], length st) });
          (st2, rs) \<leftarrow> next_users v c remote usage current us st1;
          Some (st2, r # rs) }"

section \<open>Rules\<close>

definition rule_tasks :: "rule_spec \<Rightarrow> nat option \<Rightarrow> nat option \<Rightarrow> nat \<Rightarrow> task list" where
  "rule_tasks spec tcp udp quota =
     (if length (sp_targets spec) > 1 \<and> proto_tcp (sp_protocol spec) then [ProbeTask (sp_check_secs spec)] else [])
     @ (case tcp of None \<Rightarrow> [] | Some s \<Rightarrow> [TcpTask s quota])
     @ (case udp of None \<Rightarrow> [] | Some s \<Rightarrow> [UdpTask s quota])"

text \<open>The cooldown is in seconds; targets that cannot be probed recover by it.\<close>

definition start_rule :: "prepared_rule \<Rightarrow> nat \<Rightarrow> runtime \<Rightarrow> runtime option" where
  "start_rule p quota rt =
     (let spec = pr_spec p;
          cooldown = (if length (sp_targets spec) > 1 \<and> \<not> proto_tcp (sp_protocol spec) then Some (sp_check_secs spec) else None)
      in do {
        pool \<leftarrow> pool_new (sp_user spec) (sp_targets spec) cooldown;
        let rule = \<lparr> rr_pool = length (rt_pool_store rt), rr_tcp = pr_tcp p, rr_udp = pr_udp p,
              rr_tasks = rule_tasks spec (pr_tcp p) (pr_udp p) quota \<rparr>;
        Some (rt\<lparr> rt_pool_store := rt_pool_store rt @ [pool], rt_rules := AList.update spec rule (rt_rules rt) \<rparr>) })"

fun start_rules :: "prepared_rule list \<Rightarrow> user_set \<Rightarrow> runtime \<Rightarrow> runtime option" where
  "start_rules [] users rt = Some rt"
| "start_rules (p # ps) users rt =
     do { quota \<leftarrow> us_get users (sp_user (pr_spec p));
          rt1 \<leftarrow> start_rule p quota rt;
          start_rules ps users rt1 }"

definition pool_map :: "runtime \<Rightarrow> (socket_addr \<times> protocol) \<rightharpoonup> nat" where
  "pool_map rt = map_of (rev (map (\<lambda>(spec, rule). ((sp_listen spec, sp_protocol spec), rr_pool rule)) (rt_rules rt)))"

section \<open>Applying a configuration\<close>

definition load_saved :: "apply_env \<Rightarrow> config \<Rightarrow> world \<Rightarrow> db_error + (string \<rightharpoonup> saved_usage)" where
  "load_saved v c w = (case wd_db w of
      None \<Rightarrow> Inr Map.empty
    | Some db \<Rightarrow>
        if list_ex (\<lambda>u. us_get (wd_users w) (uc_name u) = None) (cf_users c)
        then load (ae_driver v) (ae_load_faults v) db else Inr Map.empty)"

definition flush_gone :: "apply_env \<Rightarrow> user_set \<Rightarrow> world \<Rightarrow> world" where
  "flush_gone v users w =
     (let gone = filter (\<lambda>r. us_get users (q_name (wd_store w ! r)) = None) (us_ordered (wd_users w)) in
      if gone = [] then w
      else case wd_db w of
        None \<Rightarrow> w
      | Some db \<Rightarrow> w\<lparr> wd_db := Some (fst (flush (ae_driver v) (ae_flush_faults v) (map (\<lambda>r. wd_store w ! r) gone) db)) \<rparr>)"

text \<open>The part after the last call that can fail.\<close>

definition commit_apply :: "apply_env \<Rightarrow> config \<Rightarrow> prepared_rule list \<Rightarrow> (string \<rightharpoonup> saved_usage) \<Rightarrow> world \<Rightarrow> runtime
    \<Rightarrow> (world \<times> runtime) option" where
  "commit_apply v c added usage w rt =
     do { (st, refs) \<leftarrow> next_users v c (remote_snapshot c w) usage (wd_users w) (cf_users c) (wd_store w);
          let users = user_set_new st refs;
          let kept = rt\<lparr> rt_rules := filter (\<lambda>(spec, _). spec \<in> set (specs_of c)) (rt_rules rt) \<rparr>;
          rt1 \<leftarrow> start_rules added users kept;
          let w1 = flush_gone v users (w\<lparr> wd_store := st \<rparr>);
          Some (w1\<lparr> wd_users := users \<rparr>, rt1\<lparr> rt_pools := pool_map rt1, rt_started := True \<rparr>) }"

definition apply_config :: "apply_env \<Rightarrow> config \<Rightarrow> world \<Rightarrow> runtime \<Rightarrow> (world \<times> runtime \<times> (apply_error + unit)) option" where
  "apply_config v c w rt =
     (let specs = specs_of c;
          (spare_tcp, spare_udp) = spare_sockets (removed_rules specs rt) Map.empty Map.empty
      in case prepare_rules v (fst ` set (rt_rules rt)) specs spare_tcp spare_udp of
        Inl e \<Rightarrow> Some (w, rt, Inl e)
      | Inr added \<Rightarrow>
          (case load_saved v c w of
             Inl e \<Rightarrow> Some (w, rt, Inl (CannotLoad e))
           | Inr usage \<Rightarrow>
               do { (w', rt') \<leftarrow> commit_apply v c added usage w rt;
                    Some (w', rt', Inr ()) }))"

section \<open>Watching the file\<close>

text \<open>One tick of \<open>watch_config\<close>: the first read, and the second after the settling pause.  The result is
  the new last text, and the text that is sent.\<close>

definition watch_tick :: "string option \<Rightarrow> string option \<Rightarrow> string \<Rightarrow> string \<times> string option" where
  "watch_tick first again current = (case first of
      None \<Rightarrow> (current, None)
    | Some raw \<Rightarrow>
        if raw = current then (current, None)
        else if again = Some raw then (raw, Some raw) else (current, None))"

section \<open>Users through a change\<close>

lemma snapshot_set [simp]:
  "snapshot (set_limit l q) = snapshot q" "snapshot (set_metering m q) = snapshot q"
  "q_name (set_limit l q) = q_name q" "q_name (set_metering m q) = q_name q"
  "q_metering (set_limit l q) = q_metering q" "q_metering (set_metering m q) = metering_code m"
  by (simp_all add: snapshot_def set_limit_def set_metering_def Let_def split: option.splits)

lemma relimit_laws:
  assumes "relimit c remote q = Some q'"
  shows "q_name q' = q_name q \<and> snapshot q' = snapshot q \<and> q_metering q' = q_metering q
    \<and> (\<exists>l. wanted_limit c remote q = Some l \<and> q_limit q' = (case l of None \<Rightarrow> NO_LIMIT | Some x \<Rightarrow> x))"
proof -
  obtain l where l: "wanted_limit c remote q = Some l" "q' = (if limit_of q \<noteq> l then set_limit l q else q)"
    using assms by (auto simp: relimit_def bind_eq_Some_conv)
  have "q_limit q' = (case l of None \<Rightarrow> NO_LIMIT | Some x \<Rightarrow> x)"
    by (auto simp: l(2) limit_of_def set_limit_def Let_def split: option.splits if_splits)
  with l show ?thesis by simp
qed

lemma wanted_limit_total: "resolve_quotas c (q_name q) \<noteq> None \<Longrightarrow> wanted_limit c remote q \<noteq> None"
  by (auto simp: wanted_limit_def split: option.splits)

lemma update_user_total:
  assumes "resolve_quotas c (q_name q) \<noteq> None"
  obtains q' where "update_user c remote q = Some q'" "q_name q' = q_name q" "snapshot q' = snapshot q"
    "metering_of q' = acc_metering (cf_accounting c)"
proof -
  let ?m = "acc_metering (cf_accounting c)"
  let ?q = "if metering_of q \<noteq> ?m then set_metering ?m q else q"
  have "wanted_limit c remote ?q \<noteq> None" using assms by (intro wanted_limit_total) simp
  then obtain q' where q': "relimit c remote ?q = Some q'" by (auto simp: relimit_def)
  have "metering_of ?q = ?m" by (simp add: metering_of_def)
  with relimit_laws [OF q'] q' that show thesis by (auto simp: update_user_def Let_def metering_of_def split: if_splits)
qed

lemma create_user_total:
  assumes "resolve_quotas c nm \<noteq> None"
  obtains q where "create_user v c remote usage nm = Some q" "q_name q = nm"
    "metering_of q = acc_metering (cf_accounting c)"
    "snapshot q = snapshot (new_metered_at nm None (case usage nm of None \<Rightarrow> saved_default | Some s \<Rightarrow> s)
       (acc_metering (cf_accounting c)) (ae_hour v))"
proof -
  obtain l where l: "resolve_quotas c nm = Some l" using assms by blast
  let ?new = "\<lambda>l. new_metered_at nm l (case usage nm of None \<Rightarrow> saved_default | Some s \<Rightarrow> s) (acc_metering (cf_accounting c)) (ae_hour v)"
  have "wanted_limit c remote (?new l) \<noteq> None" using assms by (intro wanted_limit_total) simp
  then obtain q where q: "relimit c remote (?new l) = Some q" by (auto simp: relimit_def)
  have "snapshot (?new l) = snapshot (?new None)" by (simp add: snapshot_def)
  with relimit_laws [OF q] q l that show thesis by (auto simp: create_user_def metering_of_def)
qed

lemma users_wf_update:
  assumes "users_wf st us" "q_name q = q_name (st ! r)"
  shows "users_wf (st[r := q]) us"
proof (rule names_keep [THEN conjunct1])
  have "q_name (st[r := q] ! k) = q_name (st ! k)" if "k < length st" for k
    using assms(2) that by (cases "k = r") simp_all
  then show "\<forall>k<length st. q_name (st[r := q] ! k) = q_name (st ! k)" by blast
qed (use assms(1) in simp_all)

lemma users_wf_append:
  assumes "users_wf st us"
  shows "users_wf (st @ [q]) us"
proof -
  have "(st @ [q]) ! r = st ! r" if "r \<in> set (us_ordered us)" for r
    using assms that by (simp add: users_wf_def nth_append)
  then have "map (\<lambda>r. (q_name ((st @ [q]) ! r), r)) (us_ordered us) = map (\<lambda>r. (q_name (st ! r), r)) (us_ordered us)"
    "names_of (st @ [q]) us = names_of st us"
    by (simp_all add: names_of_def)
  moreover have "\<forall>r\<in>set (us_ordered us). r < length (st @ [q])" using assms by (auto simp: users_wf_def)
  ultimately show ?thesis using assms unfolding users_wf_def by metis
qed

text \<open>What the next list of users is: known users keep their quota object, the others get a new one.\<close>

definition follows :: "apply_env \<Rightarrow> config \<Rightarrow> (string \<rightharpoonup> u64) option \<Rightarrow> (string \<rightharpoonup> saved_usage) \<Rightarrow> user_set
    \<Rightarrow> nat \<Rightarrow> quota_store \<Rightarrow> user_config \<Rightarrow> nat \<Rightarrow> bool" where
  "follows v c remote usage current n st u r \<longleftrightarrow> r < length st \<and> q_name (st ! r) = uc_name u
     \<and> (case us_get current (uc_name u) of
          Some r0 \<Rightarrow> r = r0
        | None \<Rightarrow> n \<le> r \<and> create_user v c remote usage (uc_name u) = Some (st ! r))"

lemma next_user_run:
  assumes "users_wf st current" "resolve_quotas c (uc_name u) \<noteq> None"
  obtains st' r where
    "(case us_get current (uc_name u) of
        Some r \<Rightarrow> do { q \<leftarrow> update_user c remote (st ! r); Some (st[r := q], r) }
      | None \<Rightarrow> do { q \<leftarrow> create_user v c remote usage (uc_name u); Some (st @ [q], length st) }) = Some (st', r)"
    "users_wf st' current" "length st \<le> length st'" "follows v c remote usage current (length st) st' u r"
    "r \<in> set (us_ordered current) \<union> {length st..}"
    "\<forall>k<length st. q_name (st' ! k) = q_name (st ! k) \<and> snapshot (st' ! k) = snapshot (st ! k) \<and> (k \<noteq> r \<longrightarrow> st' ! k = st ! k)"
proof (cases "us_get current (uc_name u)")
  case None
  obtain q where q: "create_user v c remote usage (uc_name u) = Some q" "q_name q = uc_name u"
    using create_user_total [OF assms(2)] by metis
  with None assms(1) show thesis
    by (intro that [of "st @ [q]" "length st"]) (simp_all add: users_wf_append follows_def nth_append)
next
  case (Some r)
  then have r: "r \<in> set (us_ordered current)" "q_name (st ! r) = uc_name u" "r < length st"
    using us_get_iff [OF assms(1)] assms(1) by (auto simp: users_wf_def)
  obtain q where q: "update_user c remote (st ! r) = Some q" "q_name q = q_name (st ! r)" "snapshot q = snapshot (st ! r)"
    using update_user_total [of c "st ! r"] assms(2) r(2) by metis
  with Some r assms(1) show thesis
    by (intro that [of "st[r := q]" r]) (simp_all add: users_wf_update follows_def nth_list_update)
qed

text \<open>What a user follows is not changed by the users after it.\<close>

lemma follows_later:
  assumes "follows v c remote usage current n st u r" "users_wf st0 current" "n = length st0"
    "length st \<le> length st'" "set rs \<subseteq> set (us_ordered current) \<union> {length st..}"
    "\<forall>k<length st. q_name (st' ! k) = q_name (st ! k) \<and> (k \<notin> set rs \<longrightarrow> st' ! k = st ! k)"
  shows "follows v c remote usage current n st' u r"
proof (cases "us_get current (uc_name u)")
  case None
  then have r: "n \<le> r" "r < length st" using assms(1) by (auto simp: follows_def)
  have "r \<notin> set (us_ordered current)" using assms(2,3) r(1) by (auto simp: users_wf_def)
  then have "r \<notin> set rs" using assms(5) r(2) by auto
  with None assms(1,4,6) r(2) show ?thesis by (auto simp: follows_def)
next
  case (Some r0)
  with assms(1,4,6) show ?thesis by (auto simp: follows_def)
qed

lemma next_users_run:
  assumes "users_wf st current" "distinct (map uc_name us)" "\<forall>u\<in>set us. resolve_quotas c (uc_name u) \<noteq> None"
  shows "\<exists>st' rs. next_users v c remote usage current us st = Some (st', rs) \<and> users_wf st' current
    \<and> length st \<le> length st' \<and> set rs \<subseteq> set (us_ordered current) \<union> {length st..}
    \<and> (\<forall>r<length st. q_name (st' ! r) = q_name (st ! r) \<and> snapshot (st' ! r) = snapshot (st ! r)
         \<and> (r \<notin> set rs \<longrightarrow> st' ! r = st ! r))
    \<and> list_all2 (follows v c remote usage current (length st) st') us rs"
  using assms
proof (induction us arbitrary: st)
  case Nil
  then show ?case by simp
next
  case (Cons u us)
  have res: "resolve_quotas c (uc_name u) \<noteq> None" using Cons.prems(3) by simp
  obtain st1 r where step: "(case us_get current (uc_name u) of
        Some r \<Rightarrow> do { q \<leftarrow> update_user c remote (st ! r); Some (st[r := q], r) }
      | None \<Rightarrow> do { q \<leftarrow> create_user v c remote usage (uc_name u); Some (st @ [q], length st) }) = Some (st1, r)"
    and one: "users_wf st1 current" "length st \<le> length st1" "follows v c remote usage current (length st) st1 u r"
    "r \<in> set (us_ordered current) \<union> {length st..}"
    "\<forall>k<length st. q_name (st1 ! k) = q_name (st ! k) \<and> snapshot (st1 ! k) = snapshot (st ! k) \<and> (k \<noteq> r \<longrightarrow> st1 ! k = st ! k)"
    by (rule next_user_run [OF Cons.prems(1) res])
  from Cons.IH [OF one(1)] Cons.prems obtain st2 rs where
    rest: "next_users v c remote usage current us st1 = Some (st2, rs)" "users_wf st2 current" "length st1 \<le> length st2"
    "set rs \<subseteq> set (us_ordered current) \<union> {length st1..}"
    "\<forall>r<length st1. q_name (st2 ! r) = q_name (st1 ! r) \<and> snapshot (st2 ! r) = snapshot (st1 ! r) \<and> (r \<notin> set rs \<longrightarrow> st2 ! r = st1 ! r)"
    "list_all2 (follows v c remote usage current (length st1) st2) us rs"
    by auto
  have "follows v c remote usage current (length st) st2 u r"
    using rest(5) by (intro follows_later [OF one(3) Cons.prems(1) refl rest(3,4)]) blast
  moreover have "list_all2 (follows v c remote usage current (length st) st2) us rs"
    using rest(6) by (rule list_all2_mono) (use one(2) in \<open>auto simp: follows_def split: option.splits\<close>)
  moreover have "next_users v c remote usage current (u # us) st = Some (st2, r # rs)" using step rest(1) by simp
  moreover have "set (r # rs) \<subseteq> set (us_ordered current) \<union> {length st..}" using rest(4) one(2,4) by auto
  ultimately show ?case using one rest(2,3,5)
    by (intro exI [of _ st2] exI [of _ "r # rs"]) auto
qed

end
