(* ===== verification/Panel.thy ===== *)
theory Panel
  imports Api Runtime
begin

text \<open>
  The administration panel (\<open>panel.rs\<close>).  The web framework routes a request to one of the handlers and
  runs \<open>guard\<close> before those of the panel's API; here a request is its handler with the body that was
  decoded for it, and \<open>panel_handle\<close> is the router.  What a handler sends to the accounting engine or to
  the main loop is its effect, and the answer to it a parameter.  Session ids are the bytes
  of the operating system's random source in hexadecimal; time is in seconds.
\<close>

definition COOKIE :: string where "COOKIE = ''ports_box_session''"
definition SESSION_TTL :: nat where "SESSION_TTL = 7 * 24 * 3600"

record config_edit =
  ce_revision :: u64
  ce_total_quota :: "u64 option"
  ce_accounting :: "accounting option"
  ce_single_user :: bool
  ce_users :: "user_config list"

definition keep_secret :: "accounting \<Rightarrow> accounting \<Rightarrow> accounting" where
  "keep_secret edited current = (case (acc_remote edited, acc_remote current) of
      (Some remote, Some previous) \<Rightarrow>
        if rc_secret_key remote = ''''
        then edited\<lparr> acc_remote := Some (remote\<lparr> rc_secret_key := rc_secret_key previous \<rparr>) \<rparr> else edited
    | _ \<Rightarrow> edited)"

record session =
  ss_expires :: nat
  ss_logged_in :: bool

type_synonym sessions = "string \<rightharpoonup> session"

section \<open>Sessions\<close>

fun split_on :: "char \<Rightarrow> string \<Rightarrow> string list" where
  "split_on c [] = [[]]"
| "split_on c (x # xs) = (if x = c then [] # split_on c xs
     else case split_on c xs of [] \<Rightarrow> [[x]] | p # ps \<Rightarrow> (x # p) # ps)"

definition cookie_values :: "headers \<Rightarrow> string list" where
  "cookie_values hs = List.map_filter to_str (map snd (filter (\<lambda>(nm, _). nm = ''cookie'') hs))"

definition cookie_id :: "string \<Rightarrow> string option" where
  "cookie_id pair = Option.bind (strip_prefix COOKIE (trim pair)) (strip_prefix ''='')"

text \<open>The first pair of the cookie headers that is the panel's.\<close>

definition session_id :: "headers \<Rightarrow> string option" where
  "session_id hs = (case List.map_filter cookie_id (concat (map (split_on CHR '';'') (cookie_values hs))) of
      [] \<Rightarrow> None | i # _ \<Rightarrow> Some i)"

definition retain_live :: "nat \<Rightarrow> sessions \<Rightarrow> sessions" where
  "retain_live now ss i = (case ss i of None \<Rightarrow> None | Some s \<Rightarrow> if ss_expires s > now then Some s else None)"

definition find_session :: "headers \<Rightarrow> nat \<Rightarrow> sessions \<Rightarrow> sessions \<times> (string \<times> bool) option" where
  "find_session hs now ss = (case session_id hs of
      None \<Rightarrow> (ss, None)
    | Some i \<Rightarrow> (let ss' = retain_live now ss in (ss', map_option (\<lambda>s. (i, ss_logged_in s)) (ss' i))))"

definition passes_gate :: "panel_config \<Rightarrow> (string \<times> bool) option \<Rightarrow> bool" where
  "passes_gate creds s \<longleftrightarrow> s \<noteq> None \<or> \<not> has_token creds"

definition open_session :: "octets \<Rightarrow> nat \<Rightarrow> bool \<Rightarrow> sessions \<Rightarrow> sessions \<times> string" where
  "open_session random now logged_in ss =
     (let i = hex random in
      (ss(i \<mapsto> \<lparr> ss_expires = now + SESSION_TTL, ss_logged_in = logged_in \<rparr>),
       COOKIE @ ''='' @ i @ ''; Path=/; HttpOnly; SameSite=Lax; Max-Age='' @ show_nat SESSION_TTL))"

section \<open>What the handlers show\<close>

record target_status =
  ts_addr :: string
  ts_healthy :: bool
  ts_active :: bool

record rule_status =
  rst_listen :: socket_addr
  rst_protocol :: protocol
  rst_tag :: "string option"
  rst_enabled :: bool
  rst_targets :: "target_status list"

record user_status =
  ust_usage :: user_usage
  ust_limit_bytes :: "u64 option"
  ust_used_bytes :: u64
  ust_upload_bytes :: u64
  ust_download_bytes :: u64
  ust_exhausted :: bool
  ust_rules :: "rule_status list"

record config_view =
  cv_revision :: u64
  cv_source :: string
  cv_total_quota :: "u64 option"
  cv_accounting :: accounting
  cv_secret_key_set :: bool
  cv_single_user :: bool
  cv_users :: "user_config list"

text \<open>Everything the handlers read.\<close>

record panel_world =
  pw_world :: world
  pw_runtime :: runtime
  pw_status :: status
  pw_hour :: i64
  pw_fetch :: "remote_config \<Rightarrow> (billing_error + fetched) option"

definition rule_status_of :: "rule \<Rightarrow> runtime \<Rightarrow> rule_status option" where
  "rule_status_of r rt =
     do { targets \<leftarrow> (case (if rl_enabled r then rt_pools rt (rl_listen r, rl_protocol r) else None) of
             Some p \<Rightarrow>
               (let pool = rt_pool_store rt ! p in
                do { (active, _) \<leftarrow> pool_pick pool;
                     Some (map (\<lambda>i. \<lparr> ts_addr = tp_targets pool ! i, ts_healthy = tp_healthy pool ! i,
                       ts_active = (i = active) \<rparr>) [0..<pool_len pool]) })
           | None \<Rightarrow> Some (map (\<lambda>addr. \<lparr> ts_addr = addr, ts_healthy = True, ts_active = False \<rparr>)
               (rl_target r # rl_fallback r)));
          Some \<lparr> rst_listen = rl_listen r, rst_protocol = rl_protocol r, rst_tag = rl_tag r,
            rst_enabled = rl_enabled r, rst_targets = targets \<rparr> }"

fun rules_status :: "rule list \<Rightarrow> runtime \<Rightarrow> rule_status list option" where
  "rules_status [] rt = Some []"
| "rules_status (r # rs) rt = do { s \<leftarrow> rule_status_of r rt; ss \<leftarrow> rules_status rs rt; Some (s # ss) }"

fun users_status :: "user_config list \<Rightarrow> user_set \<Rightarrow> runtime \<Rightarrow> i64 \<Rightarrow> quota_store
    \<Rightarrow> (quota_store \<times> user_status list) option" where
  "users_status [] users rt hour st = Some (st, [])"
| "users_status (u # us) users rt hour st = (case us_get users (uc_name u) of
      None \<Rightarrow> users_status us users rt hour st
    | Some r \<Rightarrow>
        (let (st1, usage) = user_usage_new r hour st; q = st1 ! r in
         do { rules \<leftarrow> rules_status (uc_rules u) rt;
              (st2, rest) \<leftarrow> users_status us users rt hour st1;
              Some (st2, \<lparr> ust_usage = usage, ust_limit_bytes = limit_of q, ust_used_bytes = used q,
                ust_upload_bytes = q_total_upload q, ust_download_bytes = q_total_download q,
                ust_exhausted = is_exhausted q, ust_rules = rules \<rparr> # rest) }))"

definition config_view_of :: "live \<Rightarrow> config_view" where
  "config_view_of l =
     (let c = lv_config l; acc = cf_accounting c in
      \<lparr> cv_revision = lv_revision l, cv_source = (if lv_from_panel l then ''panel'' else ''file''),
        cv_total_quota = cf_total_quota c,
        cv_accounting = acc\<lparr> acc_remote := map_option (\<lambda>r. r\<lparr> rc_secret_key := '''' \<rparr>) (acc_remote acc) \<rparr>,
        cv_secret_key_set = (case acc_remote acc of None \<Rightarrow> False | Some r \<Rightarrow> rc_secret_key r \<noteq> ''''),
        cv_single_user = cf_single_user c, cv_users = cf_users c \<rparr>)"

section \<open>Requests\<close>

text \<open>A body that could not be decoded is the text of the rejection.\<close>

datatype panel_request =
    Root
  | Dashboard
  | Login string string
  | Logout
  | Status
  | GetConfig
  | PutConfig "string + config_edit"
  | LedgerEntries
  | SyncNow
  | TransferBody "string + string \<times> string \<times> u64"
  | AllocateBody "string + string option \<times> u64 option"
  | TestRemote "string + remote_config"

datatype effect = NoEffect | SendCommand command | SendSave config_edit

datatype failure =
    BadRequest string
  | KeysRequired
  | RegionRequired
  | BadGateway billing_error

datatype panel_response =
    PNotFound
  | PUnauthorized
  | PRedirect "string option"
  | PPage
  | PNoContent "string option"
  | PStatus "user_status list" bool status bool
  | PConfig config_view
  | PEntries "entry list"
  | PTested nat u64 nat
  | PFailure failure
  | PPending

definition redirect :: "string option \<Rightarrow> panel_response" where
  "redirect cookie = PRedirect cookie"

definition enter :: "panel_config \<Rightarrow> octets \<Rightarrow> nat \<Rightarrow> (string \<times> bool) option \<Rightarrow> query \<Rightarrow> sessions
    \<Rightarrow> sessions \<times> panel_response option" where
  "enter creds random now s query ss =
     (case (if has_token creds then query ''token'' else None) of
        None \<Rightarrow> (ss, None)
      | Some given \<Rightarrow>
          if \<not> token_matches given (pn_token creds) then (ss, None)
          else if s = None
          then (let (ss', cookie) = open_session random now (\<not> has_login creds) ss in (ss', Some (redirect (Some cookie))))
          else (ss, Some (redirect None)))"

definition serve_page :: "panel_config \<Rightarrow> octets \<Rightarrow> nat \<Rightarrow> headers \<Rightarrow> query \<Rightarrow> panel_response \<Rightarrow> sessions
    \<Rightarrow> sessions \<times> panel_response" where
  "serve_page creds random now hs query page ss =
     (let (ss1, s) = find_session hs now ss in
      case enter creds random now s query ss1 of
        (ss2, Some r) \<Rightarrow> (ss2, r)
      | (ss2, None) \<Rightarrow> (ss2, if passes_gate creds s then page else PNotFound))"

text \<open>\<open>None\<close> lets the request through.\<close>

definition guard :: "panel_config \<Rightarrow> bool \<Rightarrow> headers \<Rightarrow> nat \<Rightarrow> sessions \<Rightarrow> sessions \<times> panel_response option" where
  "guard creds is_open hs now ss =
     (let (ss1, s) = find_session hs now ss;
          logged_in = (\<not> has_login creds \<or> (case s of None \<Rightarrow> False | Some (_, l) \<Rightarrow> l))
      in (ss1, if \<not> passes_gate creds s then Some PNotFound
               else if \<not> logged_in \<and> \<not> is_open then Some PUnauthorized else None))"

definition login :: "panel_config \<Rightarrow> octets \<Rightarrow> nat \<Rightarrow> headers \<Rightarrow> string \<Rightarrow> string \<Rightarrow> sessions \<Rightarrow> sessions \<times> panel_response" where
  "login creds random now hs username password ss =
     (if \<not> has_login creds then (ss, PNotFound)
      else if \<not> (token_matches username (pn_username creds) \<and> token_matches password (pn_password creds))
      then (ss, PUnauthorized)
      else
        let (ss1, s) = find_session hs now ss;
            ss2 = (case s of None \<Rightarrow> ss1 | Some (i, _) \<Rightarrow> ss1(i := None));
            (ss3, cookie) = open_session random now True ss2
        in (ss3, PNoContent (Some cookie)))"

definition logout :: "panel_config \<Rightarrow> nat \<Rightarrow> headers \<Rightarrow> sessions \<Rightarrow> sessions \<times> panel_response" where
  "logout creds now hs ss =
     (let (ss1, s) = find_session hs now ss in
      (case s of
         None \<Rightarrow> ss1
       | Some (i, _) \<Rightarrow>
           if \<not> has_login creds then ss1(i := None)
           else (case ss1 i of None \<Rightarrow> ss1 | Some sess \<Rightarrow> ss1(i \<mapsto> sess\<lparr> ss_logged_in := False \<rparr>)),
       PNoContent None))"

definition test_remote :: "remote_config \<Rightarrow> panel_world \<Rightarrow> panel_response option" where
  "test_remote given w =
     (let remote = (case acc_remote (cf_accounting (world_config (pw_world w))) of
            Some current \<Rightarrow> if rc_secret_key given = '''' then given\<lparr> rc_secret_key := rc_secret_key current \<rparr> else given
          | None \<Rightarrow> given)
      in if rc_access_key remote = '''' \<or> rc_secret_key remote = '''' then Some (PFailure KeysRequired)
         else if rc_regions remote = [] then Some (PFailure RegionRequired)
         else do {
           answer \<leftarrow> pw_fetch w remote;
           Some (case answer of
               Inl e \<Rightarrow> PFailure (BadGateway e)
             | Inr f \<Rightarrow> (let eff = filter effective (ft_packages f) in
                 PTested (length eff) (sum_list (map pkg_available eff)) (length (ft_ignored f)))) })"

text \<open>The handlers behind the guard: the store, the response and the effect.\<close>

definition api_endpoint :: "panel_config \<Rightarrow> panel_request \<Rightarrow> panel_world
    \<Rightarrow> (quota_store \<times> panel_response \<times> effect) option" where
  "api_endpoint creds rq w =
     (let st = wd_store (pw_world w); l = wd_live (pw_world w) in
      case rq of
        Status \<Rightarrow>
          do { (st', us) \<leftarrow> users_status (cf_users (lv_config l)) (wd_users (pw_world w)) (pw_runtime w) (pw_hour w) st;
               Some (st', PStatus us (cf_single_user (lv_config l)) (pw_status w) (has_token creds \<or> has_login creds), NoEffect) }
      | GetConfig \<Rightarrow> Some (st, PConfig (config_view_of l), NoEffect)
      | LedgerEntries \<Rightarrow> Some (st, PEntries (st_entries (pw_status w)), NoEffect)
      | SyncNow \<Rightarrow> Some (st, PPending, SendCommand CmdSync)
      | TransferBody (Inl e) \<Rightarrow> Some (st, PFailure (BadRequest e), NoEffect)
      | TransferBody (Inr (source, target, amt)) \<Rightarrow> Some (st, PPending, SendCommand (CmdTransfer source target amt))
      | AllocateBody (Inl e) \<Rightarrow> Some (st, PFailure (BadRequest e), NoEffect)
      | AllocateBody (Inr (target, amt)) \<Rightarrow> Some (st, PPending, SendCommand (CmdAllocate target amt))
      | PutConfig (Inl e) \<Rightarrow> Some (st, PFailure (BadRequest e), NoEffect)
      | PutConfig (Inr edit) \<Rightarrow> Some (st, PPending, SendSave edit)
      | TestRemote (Inl e) \<Rightarrow> Some (st, PFailure (BadRequest e), NoEffect)
      | TestRemote (Inr remote) \<Rightarrow> do { r \<leftarrow> test_remote remote w; Some (st, r, NoEffect) }
      | _ \<Rightarrow> Some (st, PNotFound, NoEffect))"

record panel_event =
  pe_request :: panel_request
  pe_headers :: headers
  pe_query :: query
  pe_now :: nat
  pe_random :: octets

definition panel_handle :: "panel_config \<Rightarrow> panel_event \<Rightarrow> panel_world \<Rightarrow> sessions
    \<Rightarrow> (sessions \<times> quota_store \<times> panel_response \<times> effect) option" where
  "panel_handle creds e w ss =
     (let st = wd_store (pw_world w); hs = pe_headers e; now = pe_now e; rq = pe_request e in
      case rq of
        Root \<Rightarrow> (let (ss', r) = serve_page creds (pe_random e) now hs (pe_query e) (redirect None) ss in Some (ss', st, r, NoEffect))
      | Dashboard \<Rightarrow> (let (ss', r) = serve_page creds (pe_random e) now hs (pe_query e) PPage ss in Some (ss', st, r, NoEffect))
      | _ \<Rightarrow>
          (case guard creds (case rq of Login _ _ \<Rightarrow> True | Logout \<Rightarrow> True | _ \<Rightarrow> False) hs now ss of
             (ss1, Some r) \<Rightarrow> Some (ss1, st, r, NoEffect)
           | (ss1, None) \<Rightarrow>
               (case rq of
                  Login u p \<Rightarrow> (let (ss2, r) = login creds (pe_random e) now hs u p ss1 in Some (ss2, st, r, NoEffect))
                | Logout \<Rightarrow> (let (ss2, r) = logout creds now hs ss1 in Some (ss2, st, r, NoEffect))
                | _ \<Rightarrow> do { (st', r, eff) \<leftarrow> api_endpoint creds rq w; Some (ss1, st', r, eff) })))"

section \<open>Answers to effects\<close>

datatype ('e, 'a) reply = Gone | Answered "'e + 'a"

datatype save_error = Conflict | Invalid config_error | InvalidApply apply_error | SaveIo string | PanelDisabled

datatype final_response = NoContent | Revision u64 | ShuttingDown | CommandRefused engine_error | SaveConflict
  | SaveInvalid save_error | SaveBroken save_error

definition command_answer :: "(engine_error, unit) reply \<Rightarrow> final_response" where
  "command_answer r = (case r of
      Gone \<Rightarrow> ShuttingDown | Answered (Inr _) \<Rightarrow> NoContent | Answered (Inl e) \<Rightarrow> CommandRefused e)"

definition put_config_answer :: "(save_error, u64) reply \<Rightarrow> final_response" where
  "put_config_answer r = (case r of
      Gone \<Rightarrow> ShuttingDown
    | Answered (Inr n) \<Rightarrow> Revision n
    | Answered (Inl Conflict) \<Rightarrow> SaveConflict
    | Answered (Inl (Invalid e)) \<Rightarrow> SaveInvalid (Invalid e)
    | Answered (Inl (InvalidApply e)) \<Rightarrow> SaveInvalid (InvalidApply e)
    | Answered (Inl e) \<Rightarrow> SaveBroken e)"

section \<open>Who has a session\<close>

text \<open>The request that may open a session, and whether the session may count as logged in.\<close>

definition shows_credentials :: "panel_config \<Rightarrow> panel_event \<Rightarrow> bool \<Rightarrow> bool" where
  "shows_credentials creds e logged_in \<longleftrightarrow>
     has_login creds \<and> pe_request e = Login (pn_username creds) (pn_password creds)
     \<or> has_token creds \<and> (pe_request e = Root \<or> pe_request e = Dashboard)
        \<and> pe_query e ''token'' = Some (pn_token creds) \<and> \<not> (logged_in \<and> has_login creds)"

text \<open>
  Who was let in by the token: a page request that showed it, or a login that carried the cookie of a
  session, not yet expired, of a request that was let in before it.
\<close>

inductive vouched :: "panel_config \<Rightarrow> panel_event list \<Rightarrow> panel_event \<Rightarrow> bool" for creds where
  token: "e \<in> set evs \<Longrightarrow> has_token creds \<Longrightarrow> pe_request e = Root \<or> pe_request e = Dashboard
     \<Longrightarrow> pe_query e ''token'' = Some (pn_token creds) \<Longrightarrow> vouched creds evs e"
| login: "vouched creds evs e1 \<Longrightarrow> has_login creds \<Longrightarrow> pe_request e = Login (pn_username creds) (pn_password creds)
     \<Longrightarrow> session_id (pe_headers e) = Some (hex (pe_random e1)) \<Longrightarrow> pe_now e < pe_now e1 + SESSION_TTL
     \<Longrightarrow> vouched creds (evs @ e # later) e"

lemma vouched_later: "vouched creds evs e \<Longrightarrow> vouched creds (evs @ later) e"
  by (induction rule: vouched.induct) (auto intro: vouched.intros)

definition backed :: "panel_config \<Rightarrow> panel_event list \<Rightarrow> sessions \<Rightarrow> bool" where
  "backed creds evs ss \<longleftrightarrow> (\<forall>i s. ss i = Some s \<longrightarrow> (\<exists>e\<in>set evs. hex (pe_random e) = i
     \<and> ss_expires s = pe_now e + SESSION_TTL \<and> shows_credentials creds e (ss_logged_in s)
     \<and> (has_token creds \<longrightarrow> vouched creds evs e)))"

lemma backed_mono:
  assumes "backed creds evs ss" "ss' \<subseteq>\<^sub>m ss"
  shows "backed creds (evs @ later) ss'"
  unfolding backed_def
proof (intro allI impI)
  fix i s assume "ss' i = Some s"
  with assms(2) have "ss i = Some s" by (metis domI map_le_def)
  with assms(1) obtain e where "e \<in> set evs" "hex (pe_random e) = i" "ss_expires s = pe_now e + SESSION_TTL"
    "shows_credentials creds e (ss_logged_in s)" "has_token creds \<longrightarrow> vouched creds evs e"
    unfolding backed_def by blast
  then show "\<exists>e\<in>set (evs @ later). hex (pe_random e) = i \<and> ss_expires s = pe_now e + SESSION_TTL
      \<and> shows_credentials creds e (ss_logged_in s) \<and> (has_token creds \<longrightarrow> vouched creds (evs @ later) e)"
    using vouched_later by auto
qed

lemmas backed_less = backed_mono [where later = "[]", unfolded append_Nil2]

lemma retain_live_le: "retain_live now ss \<subseteq>\<^sub>m ss"
  by (auto simp: retain_live_def map_le_def split: option.splits if_splits)

lemma find_session_laws:
  assumes "find_session hs now ss = (ss', s)"
  shows "ss' \<subseteq>\<^sub>m ss" "s = Some (i, l) \<Longrightarrow> session_id hs = Some i \<and> (\<exists>x. ss i = Some x \<and> ss_logged_in x = l \<and> now < ss_expires x)"
proof -
  show "ss' \<subseteq>\<^sub>m ss" using assms retain_live_le by (auto simp: find_session_def Let_def split: option.splits)
  assume "s = Some (i, l)"
  with assms show "session_id hs = Some i \<and> (\<exists>x. ss i = Some x \<and> ss_logged_in x = l \<and> now < ss_expires x)"
    by (auto simp: find_session_def Let_def retain_live_def split: option.splits if_splits)
qed

lemma drop_le: "ss(i := None) \<subseteq>\<^sub>m ss"
  by (simp add: map_le_def)

lemma backed_open:
  assumes "backed creds evs ss" "shows_credentials creds e l" "has_token creds \<longrightarrow> vouched creds (evs @ [e]) e"
    "open_session (pe_random e) (pe_now e) l ss = (ss', cookie)"
  shows "backed creds (evs @ [e]) ss'"
proof -
  have ss': "ss' = ss(hex (pe_random e) \<mapsto> \<lparr> ss_expires = pe_now e + SESSION_TTL, ss_logged_in = l \<rparr>)"
    using assms(4) by (simp add: open_session_def Let_def)
  have old: "backed creds (evs @ [e]) ss" using backed_mono [OF assms(1) map_le_refl] .
  show ?thesis
    unfolding backed_def
  proof (intro allI impI)
    fix i s assume "ss' i = Some s"
    then have "i = hex (pe_random e) \<and> s = \<lparr> ss_expires = pe_now e + SESSION_TTL, ss_logged_in = l \<rparr> \<or> ss i = Some s"
      by (auto simp: ss' split: if_splits)
    then show "\<exists>x\<in>set (evs @ [e]). hex (pe_random x) = i \<and> ss_expires s = pe_now x + SESSION_TTL
        \<and> shows_credentials creds x (ss_logged_in s) \<and> (has_token creds \<longrightarrow> vouched creds (evs @ [e]) x)"
      using assms(2,3) old unfolding backed_def by (elim disjE) simp_all
  qed
qed

lemma backed_logged_out:
  assumes "backed creds evs ss" "ss i = Some s"
  shows "backed creds evs (ss(i \<mapsto> s\<lparr> ss_logged_in := False \<rparr>))"
proof -
  have "shows_credentials creds e l \<Longrightarrow> shows_credentials creds e False" for e l
    by (auto simp: shows_credentials_def)
  with assms show ?thesis unfolding backed_def by (auto split: if_splits) blast
qed

lemma enter_backed:
  assumes "backed creds evs ss" "enter creds (pe_random e) (pe_now e) s (pe_query e) ss = (ss', r)"
    "pe_request e = Root \<or> pe_request e = Dashboard"
  shows "backed creds (evs @ [e]) ss'"
proof (cases "ss' = ss")
  case True
  with assms(1) show ?thesis by (simp add: backed_mono)
next
  case False
  with assms(2) obtain cookie where tok: "has_token creds" "pe_query e ''token'' = Some (pn_token creds)"
    and op: "open_session (pe_random e) (pe_now e) (\<not> has_login creds) ss = (ss', cookie)"
    by (auto simp: enter_def token_matches_iff Let_def split: option.splits if_splits prod.splits)
  have "shows_credentials creds e (\<not> has_login creds)" using tok assms(3) by (simp add: shows_credentials_def)
  moreover have "vouched creds (evs @ [e]) e" using tok assms(3) by (intro vouched.token) simp_all
  ultimately show ?thesis using backed_open [OF assms(1) _ _ op] by blast
qed

lemma serve_page_backed:
  assumes "backed creds evs ss" "serve_page creds (pe_random e) (pe_now e) hs (pe_query e) page ss = (ss', r)"
    "pe_request e = Root \<or> pe_request e = Dashboard"
  shows "backed creds (evs @ [e]) ss'"
proof -
  obtain ss1 s where f: "find_session hs (pe_now e) ss = (ss1, s)" by fastforce
  obtain ss2 r2 where en: "enter creds (pe_random e) (pe_now e) s (pe_query e) ss1 = (ss2, r2)" by fastforce
  have "backed creds evs ss1" using backed_less [OF assms(1) find_session_laws(1) [OF f]] .
  from enter_backed [OF this en assms(3)] show ?thesis
    using assms(2) by (simp add: serve_page_def f en split: option.splits)
qed

text \<open>A login comes behind the guard, which has asked for a session when there is a token.\<close>

lemma guard_frame:
  assumes "guard creds op hs now ss = (ss1, r)" "backed creds evs ss"
  shows "backed creds evs ss1"
    "r = None \<Longrightarrow> has_token creds \<Longrightarrow> \<exists>e1. vouched creds evs e1 \<and> session_id hs = Some (hex (pe_random e1))
       \<and> now < pe_now e1 + SESSION_TTL"
proof -
  obtain ss' s where f: "find_session hs now ss = (ss', s)" by fastforce
  then have "ss1 = ss'" using assms(1) by (simp add: guard_def)
  with backed_less [OF assms(2) find_session_laws(1) [OF f]] show "backed creds evs ss1" by simp
  assume "r = None" "has_token creds"
  with assms(1) obtain i l where s: "s = Some (i, l)"
    by (auto simp: guard_def f passes_gate_def split: if_splits)
  from find_session_laws(2) [OF f s] obtain x where "session_id hs = Some i" "ss i = Some x" "now < ss_expires x" by blast
  with assms(2) \<open>has_token creds\<close> show "\<exists>e1. vouched creds evs e1 \<and> session_id hs = Some (hex (pe_random e1))
      \<and> now < pe_now e1 + SESSION_TTL"
    unfolding backed_def by fastforce
qed

lemma login_backed:
  assumes "guard creds op (pe_headers e) (pe_now e) ss0 = (ss, None)" "backed creds evs ss0"
    "login creds (pe_random e) (pe_now e) (pe_headers e) u p ss = (ss', r)" "pe_request e = Login u p"
  shows "backed creds (evs @ [e]) ss'"
proof (cases "has_login creds \<and> u = pn_username creds \<and> p = pn_password creds")
  case False
  then have "ss' = ss" using assms(3) by (auto simp: login_def token_matches_iff split: if_splits)
  with guard_frame(1) [OF assms(1,2)] show ?thesis by (simp add: backed_mono)
next
  case True
  obtain ss1 s where f: "find_session (pe_headers e) (pe_now e) ss = (ss1, s)" by fastforce
  let ?ss2 = "case s of None \<Rightarrow> ss1 | Some (i, _) \<Rightarrow> ss1(i := None)"
  have "?ss2 \<subseteq>\<^sub>m ss1" by (auto simp: drop_le split: option.splits)
  then have "backed creds evs ?ss2"
    by (rule backed_less [OF guard_frame(1) [OF assms(1,2)] map_le_trans [OF _ find_session_laws(1) [OF f]]])
  moreover have "shows_credentials creds e True" using True assms(4) by (simp add: shows_credentials_def)
  moreover have "has_token creds \<longrightarrow> vouched creds (evs @ [e]) e"
    using guard_frame(2) [OF assms(1,2) refl] vouched.login [of creds evs _ e "[]"] True assms(4) by blast
  moreover obtain cookie where "open_session (pe_random e) (pe_now e) True ?ss2 = (ss', cookie)"
    using assms(3) True by (auto simp: login_def token_matches_iff f split: prod.splits)
  ultimately show ?thesis by (rule backed_open)
qed

lemma logout_backed:
  assumes "backed creds evs ss" "logout creds now hs ss = (ss', r)"
  shows "backed creds evs ss'"
proof -
  obtain ss1 s where f: "find_session hs now ss = (ss1, s)" by fastforce
  have b: "backed creds evs ss1" using backed_less [OF assms(1) find_session_laws(1) [OF f]] .
  have "backed creds evs (ss1(i := None))" for i by (rule backed_less [OF b drop_le])
  note dropped = this
  show ?thesis
  proof (cases s)
    case None
    with assms(2) b show ?thesis by (simp add: logout_def f)
  next
    case (Some p)
    then obtain i l where p: "s = Some (i, l)" by (cases p) simp
    show ?thesis
    proof (cases "has_login creds")
      case False
      with assms(2) p dropped show ?thesis by (auto simp: logout_def f)
    next
      case True
      then show ?thesis
        using assms(2) p b backed_logged_out [OF b] by (cases "ss1 i") (auto simp: logout_def f)
    qed
  qed
qed

section \<open>A history of requests\<close>

inductive panel_trace :: "panel_config \<Rightarrow> panel_event list \<Rightarrow> sessions \<Rightarrow> bool" where
  no_request: "panel_trace creds [] Map.empty"
| one_more: "panel_trace creds evs ss \<Longrightarrow> panel_handle creds e w ss = Some (ss', st, r, eff) \<Longrightarrow> panel_trace creds (evs @ [e]) ss'"

definition is_page :: "panel_request \<Rightarrow> bool" where
  "is_page rq \<longleftrightarrow> rq = Root \<or> rq = Dashboard"

definition is_login :: "panel_request \<Rightarrow> bool" where
  "is_login rq = (case rq of Login _ _ \<Rightarrow> True | Logout \<Rightarrow> True | _ \<Rightarrow> False)"

text \<open>The router, case by case.\<close>

lemma panel_handle_page:
  assumes "is_page (pe_request e)" "panel_handle creds e w ss = Some (ss', st, r, eff)"
  shows "\<exists>page. serve_page creds (pe_random e) (pe_now e) (pe_headers e) (pe_query e) page ss = (ss', r)"
  using assms by (auto simp: panel_handle_def is_page_def Let_def split: prod.splits)

lemma panel_handle_api:
  assumes "\<not> is_page (pe_request e)" "panel_handle creds e w ss = Some (ss', st, r, eff)"
  obtains (stopped) "guard creds (is_login (pe_request e)) (pe_headers e) (pe_now e) ss = (ss', Some r)"
      "st = wd_store (pw_world w)" "eff = NoEffect"
  | (passed) ss1 where "guard creds (is_login (pe_request e)) (pe_headers e) (pe_now e) ss = (ss1, None)"
      "(case pe_request e of
          Login u p \<Rightarrow> login creds (pe_random e) (pe_now e) (pe_headers e) u p ss1 = (ss', r)
        | Logout \<Rightarrow> logout creds (pe_now e) (pe_headers e) ss1 = (ss', r)
        | _ \<Rightarrow> ss' = ss1)"
proof -
  obtain ss1 g where g: "guard creds (is_login (pe_request e)) (pe_headers e) (pe_now e) ss = (ss1, g)" by fastforce
  show thesis
  proof (cases g)
    case (Some x)
    then have "ss' = ss1 \<and> r = x \<and> st = wd_store (pw_world w) \<and> eff = NoEffect"
      using assms g by (cases "pe_request e") (auto simp: panel_handle_def is_page_def is_login_def Let_def)
    with g Some stopped show thesis by simp
  next
    case None
    with assms g passed show thesis
      by (cases "pe_request e")
        (auto simp: panel_handle_def is_page_def is_login_def Let_def bind_eq_Some_conv split: prod.splits)
  qed
qed

lemma panel_handle_backed:
  assumes "backed creds evs ss" "panel_handle creds e w ss = Some (ss', st, r, eff)"
  shows "backed creds (evs @ [e]) ss'"
proof (cases "is_page (pe_request e)")
  case True
  then show ?thesis
    using panel_handle_page [OF True assms(2)] serve_page_backed [OF assms(1)] by (auto simp: is_page_def)
next
  case False
  from this assms(2) show ?thesis
  proof (cases rule: panel_handle_api)
    case stopped
    then show ?thesis using guard_frame(1) [OF _ assms(1)] backed_mono map_le_refl by blast
  next
    case (passed ss1)
    have b: "backed creds evs ss1" by (rule guard_frame(1) [OF passed(1) assms(1)])
    have "backed creds (evs @ [e]) ss1" by (rule backed_mono [OF b map_le_refl])
    moreover have "logout creds (pe_now e) (pe_headers e) ss1 = (ss', r) \<Longrightarrow> backed creds (evs @ [e]) ss'"
      by (drule logout_backed [OF b]) (rule backed_mono [OF _ map_le_refl])
    ultimately show ?thesis
      using passed(2) login_backed [OF passed(1) assms(1)] by (cases "pe_request e") simp_all
  qed
qed

lemma panel_trace_backed: "panel_trace creds evs ss \<Longrightarrow> backed creds evs ss"
proof (induction rule: panel_trace.induct)
  case (one_more creds evs ss e w ss' st r eff)
  then show ?case using panel_handle_backed [of creds evs ss e w ss' st r eff] by simp
qed (simp add: backed_def)

text \<open>C18: nobody administers the panel without its credentials.  When a token or a login is configured, a request
  to the panel's API that is served carries the cookie of a session that an earlier request of this history
  opened less than a week before.  When a login is configured, that earlier request was a login with the right
  user name and password.  When a token is configured, that earlier request was let in by it: it showed the token
  itself, or it was such a login that carried the cookie of a session, not yet expired then, whose own opening
  request had been let in by the token before.  A request that is turned away changes no quota and sends
  nothing to the engine or the main loop.\<close>

theorem panel_needs_credentials:
  assumes "panel_trace creds evs ss" "panel_handle creds e w ss = Some (ss', st, r, eff)"
    "\<not> is_page (pe_request e)" "\<not> is_login (pe_request e)"
  shows "(r = PNotFound \<or> r = PUnauthorized) \<and> st = wd_store (pw_world w) \<and> eff = NoEffect
    \<or> \<not> has_login creds \<and> \<not> has_token creds
    \<or> (\<exists>i e0. session_id (pe_headers e) = Some i \<and> e0 \<in> set evs \<and> hex (pe_random e0) = i
         \<and> pe_now e < pe_now e0 + SESSION_TTL
         \<and> (if has_login creds then pe_request e0 = Login (pn_username creds) (pn_password creds)
            else pe_query e0 ''token'' = Some (pn_token creds))
         \<and> (has_token creds \<longrightarrow> vouched creds evs e0))"
proof -
  have b: "backed creds evs ss" by (rule panel_trace_backed [OF assms(1)])
  obtain ss1 s where f: "find_session (pe_headers e) (pe_now e) ss = (ss1, s)" by fastforce
  from assms(3,2) show ?thesis
  proof (cases rule: panel_handle_api)
    case stopped
    then have "r = PNotFound \<or> r = PUnauthorized" by (auto simp: guard_def f split: if_splits)
    with stopped show ?thesis by blast
  next
    case (passed ss2)
    then have gate: "passes_gate creds s" and logged: "has_login creds \<longrightarrow> (\<exists>i. s = Some (i, True))"
      using assms(4) by (auto simp: guard_def f split: if_splits option.splits)
    show ?thesis
    proof (cases "has_login creds \<or> has_token creds")
      case True
      then obtain i l where s: "s = Some (i, l)" "has_login creds \<longrightarrow> l"
        using gate logged by (auto simp: passes_gate_def)
      from find_session_laws(2) [OF f s(1)] obtain x where x: "session_id (pe_headers e) = Some i" "ss i = Some x"
        "ss_logged_in x = l" "pe_now e < ss_expires x" by blast
      with b obtain e0 where e0: "e0 \<in> set evs" "hex (pe_random e0) = i" "ss_expires x = pe_now e0 + SESSION_TTL"
        "shows_credentials creds e0 l" "has_token creds \<longrightarrow> vouched creds evs e0" unfolding backed_def by blast
      with x s(2) show ?thesis by (auto simp: shows_credentials_def)
    qed blast
  qed
qed

text \<open>What the panel shows of the provider's account never includes the secret, and editing what was shown
  keeps it.\<close>

lemma config_view_hides_secret:
  "acc_remote (cv_accounting (config_view_of l)) = Some r \<Longrightarrow> rc_secret_key r = ''''"
  by (auto simp: config_view_of_def Let_def)

lemma keep_secret_restores: "keep_secret (cv_accounting (config_view_of l)) (cf_accounting (lv_config l)) = cf_accounting (lv_config l)"
  by (cases "acc_remote (cf_accounting (lv_config l))") (auto simp: config_view_of_def keep_secret_def Let_def)

section \<open>A visit\<close>

text \<open>The panel has both a token and a login: the page with the token opens the session ab01, the login with
  its cookie the session ab02, and the configuration is shown to that one.\<close>

definition visit_creds :: panel_config where
  "visit_creds = \<lparr> pn_enabled = True, pn_listen = default_panel_listen, pn_token = ''key'', pn_username = ''root'',
     pn_password = ''secret'', pn_path = ''panel.json'' \<rparr>"

definition visit_world :: panel_world where
  "visit_world = \<lparr> pw_world = \<lparr> wd_db = None, wd_store = [], wd_users = user_set_empty, wd_limits = None,
       wd_live = \<lparr> lv_config = sample_users_config, lv_revision = 4, lv_from_panel = False \<rparr> \<rparr>,
     pw_runtime = runtime_new, pw_status = status_default, pw_hour = 0, pw_fetch = (\<lambda>_. None) \<rparr>"

definition visit_page :: panel_event where
  "visit_page = \<lparr> pe_request = Dashboard, pe_headers = [], pe_query = [''token'' \<mapsto> ''key''], pe_now = 5, pe_random = [171, 1] \<rparr>"

definition visit_login :: panel_event where
  "visit_login = \<lparr> pe_request = Login ''root'' ''secret'', pe_headers = [(''cookie'', ''ports_box_session=ab01'')],
     pe_query = Map.empty, pe_now = 20, pe_random = [171, 2] \<rparr>"

definition visit_config :: panel_event where
  "visit_config = \<lparr> pe_request = GetConfig, pe_headers = [(''cookie'', ''a=b; ports_box_session=ab02'')], pe_query = Map.empty,
     pe_now = 60, pe_random = [] \<rparr>"

lemma visit_facts:
  "has_login visit_creds" "has_token visit_creds" "pn_token visit_creds = ''key''"
  "pn_username visit_creds = ''root''" "pn_password visit_creds = ''secret''"
  "hex [171, 1] = ''ab01''" "hex [171, 2] = ''ab02''" "session_id [] = None"
  "session_id (pe_headers visit_login) = Some ''ab01''" "session_id (pe_headers visit_config) = Some ''ab02''"
  by code_simp+

lemma visit_page_run:
  "\<exists>r. panel_handle visit_creds visit_page visit_world Map.empty
     = Some ([''ab01'' \<mapsto> \<lparr> ss_expires = 5 + SESSION_TTL, ss_logged_in = False \<rparr>], [], r, NoEffect)"
  by (simp add: panel_handle_def visit_page_def visit_world_def serve_page_def find_session_def
      enter_def token_matches_iff open_session_def Let_def visit_facts)

lemma visit_login_run:
  "\<exists>ss r. panel_handle visit_creds visit_login visit_world [''ab01'' \<mapsto> \<lparr> ss_expires = 5 + SESSION_TTL, ss_logged_in = False \<rparr>]
     = Some (ss, [], r, NoEffect) \<and> ss ''ab02'' = Some \<lparr> ss_expires = 20 + SESSION_TTL, ss_logged_in = True \<rparr>"
proof -
  have "pe_request visit_login = Login ''root'' ''secret''" "pe_now visit_login = 20" "pe_random visit_login = [171, 2]"
    by (simp_all add: visit_login_def)
  then show ?thesis
    by (simp add: panel_handle_def visit_world_def guard_def find_session_def passes_gate_def login_def token_matches_iff
        open_session_def Let_def visit_facts retain_live_def SESSION_TTL_def) blast
qed

theorem panel_needs_credentials_witness:
  "\<exists>ss ss' st r eff. panel_trace visit_creds [visit_page, visit_login] ss
     \<and> panel_handle visit_creds visit_config visit_world ss = Some (ss', st, r, eff)
     \<and> r = PConfig (config_view_of (wd_live (pw_world visit_world)))
     \<and> (\<exists>e0\<in>{visit_page, visit_login}. pe_request e0 = Login (pn_username visit_creds) (pn_password visit_creds)
          \<and> vouched visit_creds [visit_page, visit_login] e0)"
proof -
  obtain r1 ss r2 where page: "panel_handle visit_creds visit_page visit_world Map.empty
      = Some ([''ab01'' \<mapsto> \<lparr> ss_expires = 5 + SESSION_TTL, ss_logged_in = False \<rparr>], [], r1, NoEffect)"
    and login: "panel_handle visit_creds visit_login visit_world [''ab01'' \<mapsto> \<lparr> ss_expires = 5 + SESSION_TTL, ss_logged_in = False \<rparr>]
      = Some (ss, [], r2, NoEffect)" and ss: "ss ''ab02'' = Some \<lparr> ss_expires = 20 + SESSION_TTL, ss_logged_in = True \<rparr>"
    using visit_page_run visit_login_run by blast
  from panel_trace.one_more [OF panel_trace.one_more [OF panel_trace.no_request page] login]
  have trace: "panel_trace visit_creds [visit_page, visit_login] ss" by simp
  have now: "pe_now visit_config = 60" by (simp add: visit_config_def)
  have "retain_live 60 ss ''ab02'' = ss ''ab02''" by (simp add: retain_live_def ss SESSION_TTL_def)
  then have g: "guard visit_creds False (pe_headers visit_config) (pe_now visit_config) ss = (retain_live 60 ss, None)"
    by (simp add: guard_def find_session_def visit_facts passes_gate_def Let_def now ss) blast
  then have h: "panel_handle visit_creds visit_config visit_world ss
      = Some (retain_live 60 ss, wd_store (pw_world visit_world), PConfig (config_view_of (wd_live (pw_world visit_world))), NoEffect)"
    by (simp add: panel_handle_def visit_config_def api_endpoint_def Let_def)
  have "\<not> is_page (pe_request visit_config)" "\<not> is_login (pe_request visit_config)"
    by (simp_all add: visit_config_def is_page_def is_login_def)
  from panel_needs_credentials [OF trace h this] trace h visit_facts(1,2) show ?thesis by auto
qed

end
