(* ===== verification/Documents.thy ===== *)
theory Documents
  imports Config
begin

text \<open>
  What the fields of users and rules are written as, and what they are read back from: the attributes
  and the serializers of \<open>config.rs\<close> that stand between the values and the JSON text.  A field that is
  skipped is absent (\<open>None\<close>) and comes back as its default; a quota is written as a byte size
  (\<open>bytesize_serialize\<close>), which is text when a unit divides it.  A document is what the JSON
  library is given and gives back; its text is not modelled here.
\<close>

definition skip_if :: "('a \<Rightarrow> bool) \<Rightarrow> 'a \<Rightarrow> 'a option" where
  "skip_if p x = (if p x then None else Some x)"

definition default_to :: "'a \<Rightarrow> 'a option \<Rightarrow> 'a" where
  "default_to d x = (case x of None \<Rightarrow> d | Some v \<Rightarrow> v)"

lemma default_to_skip_if [simp]: "default_to d (skip_if p x) = (if p x then d else x)"
  by (simp add: skip_if_def default_to_def)

definition is_true :: "bool \<Rightarrow> bool" where
  "is_true b = b"

definition is_both :: "protocol \<Rightarrow> bool" where
  "is_both p \<longleftrightarrow> p = Both"

definition is_default_check_secs :: "u64 \<Rightarrow> bool" where
  "is_default_check_secs secs \<longleftrightarrow> secs = default_check_secs"

section \<open>Rules\<close>

record rule_doc =
  rd_listen :: socket_addr
  rd_target :: string
  rd_fallback :: "targets_value option"
  rd_check_secs :: "u64 option"
  rd_protocol :: "protocol option"
  rd_enabled :: "bool option"
  rd_tag :: "string option"

definition rule_write :: "rule \<Rightarrow> rule_doc" where
  "rule_write r = \<lparr> rd_listen = rl_listen r, rd_target = rl_target r,
     rd_fallback = map_option TargetSeq (skip_if (\<lambda>ts. ts = []) (rl_fallback r)),
     rd_check_secs = skip_if is_default_check_secs (rl_check_secs r),
     rd_protocol = skip_if is_both (rl_protocol r), rd_enabled = skip_if is_true (rl_enabled r), rd_tag = rl_tag r \<rparr>"

definition rule_read :: "rule_doc \<Rightarrow> rule" where
  "rule_read d = \<lparr> rl_listen = rd_listen d, rl_target = rd_target d,
     rl_fallback = default_to [] (map_option string_or_strings (rd_fallback d)),
     rl_check_secs = default_to default_check_secs (rd_check_secs d),
     rl_protocol = default_to Both (rd_protocol d), rl_enabled = default_to True (rd_enabled d), rl_tag = rd_tag d \<rparr>"

lemma rule_reads_back [simp]: "rule_read (rule_write r) = r"
proof -
  have "default_to [] (map_option string_or_strings (map_option TargetSeq (skip_if (\<lambda>ts. ts = []) ts))) = ts" for ts
    by (simp add: skip_if_def default_to_def string_or_strings_def)
  then show ?thesis
    by (simp add: rule_read_def rule_write_def is_default_check_secs_def is_both_def is_true_def)
qed

section \<open>Users\<close>

record user_doc =
  ud_name :: string
  ud_quota :: "size_value option"
  ud_packages :: "string list option"
  ud_rules :: "rule_doc list"

text \<open>A byte size that may be absent; one that cannot be read spoils the document.\<close>

definition size_read :: "size_value option \<Rightarrow> u64 option option" where
  "size_read x = (case x of
      None \<Rightarrow> Some None
    | Some v \<Rightarrow> (case bytesize_deserialize v of Inl _ \<Rightarrow> None | Inr n \<Rightarrow> Some (Some n)))"

definition user_write :: "user_config \<Rightarrow> user_doc" where
  "user_write u = \<lparr> ud_name = uc_name u, ud_quota = map_option bytesize_serialize (uc_quota u),
     ud_packages = skip_if (\<lambda>ps. ps = []) (uc_packages u), ud_rules = map rule_write (uc_rules u) \<rparr>"

definition user_read :: "user_doc \<Rightarrow> user_config option" where
  "user_read d = do {
     quota \<leftarrow> size_read (ud_quota d);
     Some \<lparr> uc_name = ud_name d, uc_quota = quota, uc_packages = default_to [] (ud_packages d),
       uc_rules = map rule_read (ud_rules d) \<rparr> }"

fun users_read :: "user_doc list \<Rightarrow> user_config list option" where
  "users_read [] = Some []"
| "users_read (d # ds) = do { u \<leftarrow> user_read d; us \<leftarrow> users_read ds; Some (u # us) }"

text \<open>Sizes below \<open>2 ^ 63\<close> are read back as they were written, and with them the users.\<close>

definition small_size :: "u64 option \<Rightarrow> bool" where
  "small_size q \<longleftrightarrow> (case q of None \<Rightarrow> True | Some n \<Rightarrow> unat n < 2 ^ 63)"

lemma size_reads_back: "small_size q \<Longrightarrow> size_read (map_option bytesize_serialize q) = Some q"
  by (simp add: size_read_def small_size_def bytesize_reads_back split: option.splits)

lemma user_reads_back: "small_size (uc_quota u) \<Longrightarrow> user_read (user_write u) = Some u"
  by (simp add: user_read_def user_write_def size_reads_back comp_def)

lemma users_read_back: "\<forall>u\<in>set us. small_size (uc_quota u) \<Longrightarrow> users_read (map user_write us) = Some us"
  by (induction us) (simp_all add: user_reads_back)

end
