(* ===== verification/Control.thy ===== *)
theory Control
  imports Panel Documents
begin

text \<open>
  The main program (\<open>main.rs\<close>): starting, the loop that reloads the configuration file and saves the
  panel's edits, and the panel's store on disk (\<open>panel.rs\<close>).  The store is the content of one file,
  written through a second file that is renamed over it.  The calls of the file system fail as the
  environment says; the JSON text of the store's document and the readers of the configuration are
  parameters, the document itself is what \<open>config.rs\<close> writes (\<open>Documents\<close>).
  The process around this loop is \<open>Program\<close>.
\<close>

section \<open>The panel's store\<close>

record store =
  so_base :: string
  so_total_quota :: "u64 option"
  so_accounting :: "accounting option"
  so_single_user :: "bool option"
  so_users :: "user_config list"

record store_doc =
  dc_base :: string
  dc_total_quota :: "size_value option"
  dc_accounting :: "accounting option"
  dc_single_user :: "bool option"
  dc_users :: "user_doc list"

definition store_write :: "store \<Rightarrow> store_doc" where
  "store_write s = \<lparr> dc_base = so_base s, dc_total_quota = map_option bytesize_serialize (so_total_quota s),
     dc_accounting = so_accounting s, dc_single_user = so_single_user s, dc_users = map user_write (so_users s) \<rparr>"

definition store_read :: "store_doc \<Rightarrow> store option" where
  "store_read d = do {
     total \<leftarrow> size_read (dc_total_quota d);
     users \<leftarrow> users_read (dc_users d);
     Some \<lparr> so_base = dc_base d, so_total_quota = total, so_accounting = dc_accounting d,
       so_single_user = dc_single_user d, so_users = users \<rparr> }"

record files =
  fl_store :: "string option"
  fl_partial :: "string option"

datatype io_call = ReadStore | CreateParent | OpenPartial | WritePartial | FlushPartial | Rename | WriteBack | Remove

record control_env =
  ce_apply :: apply_env
  ce_io :: "io_call \<Rightarrow> string option"
  ce_cut :: nat
  ce_encode :: "store_doc \<Rightarrow> string option"
  ce_decode :: "string \<Rightarrow> store_doc option"
  ce_yaml :: "string \<Rightarrow> string + config"
  ce_json5 :: "string \<Rightarrow> string + config"

definition load_store :: "control_env \<Rightarrow> files \<Rightarrow> store option" where
  "load_store v f = (case ce_io v ReadStore of
      Some _ \<Rightarrow> None
    | None \<Rightarrow> Option.bind (fl_store f) (\<lambda>raw. Option.bind (ce_decode v raw) store_read))"

text \<open>A write that fails leaves the part of the text that was written, of \<open>ce_cut\<close> bytes, in the partial file.\<close>

definition write_store :: "control_env \<Rightarrow> store \<Rightarrow> files \<Rightarrow> files \<times> (string + unit)" where
  "write_store v s f = (case ce_encode v (store_write s) of
      None \<Rightarrow> (f, Inl ''encode'')
    | Some json \<Rightarrow>
        (case ce_io v CreateParent of
           Some e \<Rightarrow> (f, Inl e)
         | None \<Rightarrow> (case ce_io v OpenPartial of
             Some e \<Rightarrow> (f, Inl e)
           | None \<Rightarrow> (case ce_io v WritePartial of
               Some e \<Rightarrow> (f\<lparr> fl_partial := Some (take (ce_cut v) json) \<rparr>, Inl e)
             | None \<Rightarrow> (case ce_io v FlushPartial of
                 Some e \<Rightarrow> (f\<lparr> fl_partial := Some json \<rparr>, Inl e)
               | None \<Rightarrow> (case ce_io v Rename of
                   Some e \<Rightarrow> (f\<lparr> fl_partial := Some json \<rparr>, Inl e)
                 | None \<Rightarrow> (f\<lparr> fl_store := Some json, fl_partial := None \<rparr>, Inr ())))))))"

definition remove_store :: "control_env \<Rightarrow> files \<Rightarrow> files" where
  "remove_store v f = (case ce_io v Remove of Some _ \<Rightarrow> f | None \<Rightarrow> f\<lparr> fl_store := None \<rparr>)"

text \<open>The edits that were saved, if they were made on this very configuration file.\<close>

definition stored_config :: "config \<Rightarrow> store \<Rightarrow> config" where
  "stored_config file s = file\<lparr> cf_total_quota := so_total_quota s,
     cf_accounting := (case so_accounting s of None \<Rightarrow> cf_accounting file | Some a \<Rightarrow> a),
     cf_single_user := (case so_single_user s of None \<Rightarrow> cf_single_user file | Some b \<Rightarrow> b),
     cf_users := so_users s \<rparr>"

definition restore :: "control_env \<Rightarrow> config \<Rightarrow> string \<Rightarrow> files \<Rightarrow> files \<times> config option" where
  "restore v file raw f = (case load_store v f of
      None \<Rightarrow> (f, None)
    | Some s \<Rightarrow>
        if so_base s \<noteq> raw then (remove_store v f, None)
        else (case check_config (stored_config file s) of
            Inr c \<Rightarrow> (f, Some c)
          | Inl _ \<Rightarrow> (remove_store v f, None)))"

section \<open>The loop\<close>

record control =
  ct_world :: world
  ct_runtime :: runtime
  ct_files :: files
  ct_file_raw :: string
  ct_store_path :: "string option"
  ct_path :: string

definition publish :: "config \<Rightarrow> bool \<Rightarrow> control \<Rightarrow> control" where
  "publish c from_panel s =
     (let l = wd_live (ct_world s) in
      s\<lparr> ct_world := (ct_world s)\<lparr> wd_live := \<lparr> lv_config = c, lv_revision = lv_revision l + 1, lv_from_panel = from_panel \<rparr> \<rparr> \<rparr>)"

definition apply_to :: "control_env \<Rightarrow> config \<Rightarrow> control \<Rightarrow> (control \<times> (apply_error + unit)) option" where
  "apply_to v c s =
     do { (w, rt, r) \<leftarrow> apply_config (ce_apply v) c (ct_world s) (ct_runtime s);
          Some (s\<lparr> ct_world := w, ct_runtime := rt \<rparr>, r) }"

definition reload :: "control_env \<Rightarrow> string \<Rightarrow> control \<Rightarrow> (control \<times> config option) option" where
  "reload v raw s = (case parse_config (ce_yaml v) (ce_json5 v) raw (ct_path s) of
      Inl _ \<Rightarrow> Some (s, None)
    | Inr next \<Rightarrow>
        do { (s', r) \<leftarrow> apply_to v next s;
             Some (s', case r of Inl _ \<Rightarrow> None | Inr _ \<Rightarrow> Some next) })"

definition edited_store :: "string \<Rightarrow> config_edit \<Rightarrow> config \<Rightarrow> store" where
  "edited_store raw edit current =
     \<lparr> so_base = raw, so_total_quota = ce_total_quota edit,
       so_accounting = Some (keep_secret (case ce_accounting edit of None \<Rightarrow> cf_accounting current | Some a \<Rightarrow> a)
         (cf_accounting current)),
       so_single_user = Some (ce_single_user edit), so_users = ce_users edit \<rparr>"

definition put_back :: "control_env \<Rightarrow> string option \<Rightarrow> files \<Rightarrow> files" where
  "put_back v previous f = (case previous of
      Some bytes \<Rightarrow> (case ce_io v WriteBack of None \<Rightarrow> f\<lparr> fl_store := Some bytes \<rparr> | Some _ \<Rightarrow> f)
    | None \<Rightarrow> remove_store v f)"

definition save :: "control_env \<Rightarrow> config_edit \<Rightarrow> control \<Rightarrow> (control \<times> (save_error + u64)) option" where
  "save v edit s =
     (let l = wd_live (ct_world s); current = lv_config l in
      if ce_revision edit \<noteq> lv_revision l then Some (s, Inl Conflict)
      else
        let st = edited_store (ct_file_raw s) edit current in
        case check_config (stored_config current st) of
          Inl e \<Rightarrow> Some (s, Inl (Invalid e))
        | Inr next \<Rightarrow>
            (let previous = (case ce_io v ReadStore of None \<Rightarrow> fl_store (ct_files s) | Some _ \<Rightarrow> None) in
             case write_store v st (ct_files s) of
               (f, Inl e) \<Rightarrow> Some (s\<lparr> ct_files := f \<rparr>, Inl (SaveIo e))
             | (f, Inr _) \<Rightarrow>
                 do { (s', r) \<leftarrow> apply_to v next (s\<lparr> ct_files := f \<rparr>);
                      case r of
                        Inl e \<Rightarrow> Some (s'\<lparr> ct_files := put_back v previous f \<rparr>, Inl (InvalidApply e))
                      | Inr _ \<Rightarrow> (let s2 = publish next True s' in Some (s2, Inr (lv_revision (wd_live (ct_world s2))))) }))"

datatype control_event = FileChanged string | SaveRequested config_edit

definition control_turn :: "control_env \<Rightarrow> control_event \<Rightarrow> control \<Rightarrow> (control \<times> (save_error + u64) option) option" where
  "control_turn v ev s = (case ev of
      FileChanged raw \<Rightarrow>
        do { (s1, r) \<leftarrow> reload v raw (s\<lparr> ct_file_raw := raw \<rparr>);
             Some (case r of
                 None \<Rightarrow> (s1, None)
               | Some next \<Rightarrow>
                   (let s2 = (if ct_store_path s1 \<noteq> None \<and> lv_from_panel (wd_live (ct_world s1))
                              then s1\<lparr> ct_files := remove_store v (ct_files s1) \<rparr> else s1)
                    in (publish next False s2, None))) }
    | SaveRequested edit \<Rightarrow>
        (if ct_store_path s = None then Some (s, Some (Inl PanelDisabled))
         else do { (s', r) \<leftarrow> save v edit s; Some (s', Some r) }))"

section \<open>Starting\<close>

datatype boot_error =
    BadConfig config_error
  | BadDb db_error
  | BadApply apply_error
  | CannotBindService socket_addr string

record boot_env =
  be_control :: control_env
  be_faults :: faults
  be_disk :: disk
  be_files :: files
  be_bind :: "socket_addr \<Rightarrow> string option"
  be_clock :: u64

definition open_state :: "boot_env \<Rightarrow> config \<Rightarrow> db_error + state_db option" where
  "open_state b c = (case cf_state_file c of
      None \<Rightarrow> Inr None
    | Some sf \<Rightarrow>
        if sf_enabled sf
        then (case snd (open_db (be_faults b) (be_disk b)) of Inl e \<Rightarrow> Inl e | Inr db \<Rightarrow> Inr (Some db))
        else Inr None)"

definition bind_api :: "boot_env \<Rightarrow> config \<Rightarrow> boot_error + unit" where
  "bind_api b c = (case cf_api c of
      None \<Rightarrow> Inr ()
    | Some a \<Rightarrow> (case be_bind b (ap_listen a) of None \<Rightarrow> Inr () | Some e \<Rightarrow> Inl (CannotBindService (ap_listen a) e)))"

definition bind_panel :: "boot_env \<Rightarrow> config \<Rightarrow> boot_error + unit" where
  "bind_panel b c = (case config_panel c of
      None \<Rightarrow> Inr ()
    | Some p \<Rightarrow> (case be_bind b (pn_listen p) of None \<Rightarrow> Inr () | Some e \<Rightarrow> Inl (CannotBindService (pn_listen p) e)))"

definition boot :: "boot_env \<Rightarrow> string \<Rightarrow> string \<Rightarrow> (boot_error + control \<times> run_state) option" where
  "boot b path raw =
     (let v = be_control b in
      case parse_config (ce_yaml v) (ce_json5 v) raw path of
        Inl e \<Rightarrow> Some (Inl (BadConfig e))
      | Inr c \<Rightarrow>
          (case open_state b c of
             Inl e \<Rightarrow> Some (Inl (BadDb e))
           | Inr db \<Rightarrow>
               (let store_path = map_option pn_path (config_panel c);
                    (f, stored) = (if store_path = None then (be_files b, None) else restore v c raw (be_files b));
                    effective_config = (case stored of None \<Rightarrow> c | Some e \<Rightarrow> e)
                in case restore_book (ae_driver (ce_apply v)) (be_faults b) db of
                  Inl e \<Rightarrow> Some (Inl (BadDb e))
                | Inr (bk, entries) \<Rightarrow>
                    (let live = \<lparr> lv_config = effective_config, lv_revision = 0, lv_from_panel = (stored \<noteq> None) \<rparr>;
                         w0 = \<lparr> wd_db = db, wd_store = [], wd_users = user_set_empty,
                                wd_limits = remote_limits_new bk, wd_live = live \<rparr>
                     in do {
                       (w, rt, r) \<leftarrow> apply_config (ce_apply v) effective_config w0 runtime_new;
                       Some (case r of
                           Inl e \<Rightarrow> Inl (BadApply e)
                         | Inr _ \<Rightarrow>
                             (case (case bind_api b c of Inl e \<Rightarrow> Inl e | Inr _ \<Rightarrow> bind_panel b c) of
                                Inl e \<Rightarrow> Inl e
                              | Inr _ \<Rightarrow> Inr (\<lparr> ct_world = w, ct_runtime = rt, ct_files = f, ct_file_raw = raw,
                                    ct_store_path = store_path, ct_path = path \<rparr>,
                                  run_start (be_clock b) w (engine_new w bk entries)))) }))))"

end
