(* ===== verification/Tcp.thy ===== *)
theory Tcp
  imports Pool Quota
begin

text \<open>
  The TCP side: the splice pipes and their idle list (\<open>pipe.rs\<close>), and \<open>connect_active\<close>, the
  lease on a pipe and the counted copy loop (\<open>tcp.rs\<close>).  The kernel's answers are inputs: what a
  read or a splice delivers, how much a write takes, what \<open>F_SETPIPE_SZ\<close> says.  A pipe has its
  contents, so that it can be said what a pipe on the idle list holds.  The connection's other
  ways to end (quota watch, rule removed) cancel the copy wherever it waits and drop the lease.
\<close>

type_synonym bytes = "8 word list"

section \<open>Pipes\<close>

definition MIN_CAPACITY :: nat where "MIN_CAPACITY = 65536"
definition MAX_CAPACITY :: nat where "MAX_CAPACITY = 262144"
definition GROW_AFTER :: nat where "GROW_AFTER = 4"
definition MAX_IDLE :: nat where "MAX_IDLE = 16"

record pipe =
  pp_data :: bytes
  pp_capacity :: nat
  pp_busy :: nat

text \<open>\<open>create\<close>: the kernel's answer is the capacity of a new pipe, or \<open>None\<close> when there is none.\<close>

definition pipe_create :: "nat option \<Rightarrow> pipe option" where
  "pipe_create answer = (case answer of
      None \<Rightarrow> None
    | Some capacity \<Rightarrow> if capacity < MIN_CAPACITY then None
        else Some \<lparr> pp_data = [], pp_capacity = capacity, pp_busy = 0 \<rparr>)"

definition pipe_acquire :: "nat option \<Rightarrow> pipe list \<Rightarrow> pipe option \<times> pipe list" where
  "pipe_acquire answer idle =
     (if idle = [] then (pipe_create answer, []) else (Some (last idle), butlast idle))"

definition pipe_release :: "pipe \<Rightarrow> pipe list \<Rightarrow> pipe list" where
  "pipe_release p idle = (if length idle < MAX_IDLE then idle @ [p\<lparr> pp_busy := 0 \<rparr>] else idle)"

definition pipe_grow :: "int \<Rightarrow> pipe \<Rightarrow> pipe" where
  "pipe_grow size_answer p =
     (if size_answer > 0 \<and> nat size_answer > pp_capacity p then p\<lparr> pp_capacity := nat size_answer \<rparr> else p)"

text \<open>\<open>fill_from\<close>, when the splice delivered \<open>d\<close>; the busy counter is an \<open>u8\<close> that saturates.\<close>

definition pipe_fill :: "bytes \<Rightarrow> int \<Rightarrow> pipe \<Rightarrow> pipe" where
  "pipe_fill d size_answer p =
     (let p1 = p\<lparr> pp_data := pp_data p @ d \<rparr> in
      if d = [] then p1
      else
        let p2 = p1\<lparr> pp_busy := min 255 (pp_busy p1 + 1) \<rparr> in
        if pp_busy p2 = GROW_AFTER \<and> pp_capacity p2 < MAX_CAPACITY then pipe_grow size_answer p2 else p2)"

section \<open>Connecting\<close>

definition tcp_connect_active :: "(string \<Rightarrow> 'e + 'c) \<Rightarrow> u64 \<Rightarrow> target_pool
    \<Rightarrow> (target_pool \<times> ('e option + nat \<times> 'c)) option" where
  "tcp_connect_active dial now_ms p = connect_loop pool_pick mark_down (confirm now_ms) dial (pool_len p) None p"

datatype accept_error = ConnectionRefused | ConnectionAborted | ConnectionReset | OtherAcceptError

definition is_connection_error :: "accept_error \<Rightarrow> bool" where
  "is_connection_error e \<longleftrightarrow> e = ConnectionRefused \<or> e = ConnectionAborted \<or> e = ConnectionReset"

datatype accept_result = Accepted | AcceptFailed accept_error

datatype accept_action = Spawn | Reject | Retry | Backoff

text \<open>One turn of \<open>serve\<close>.\<close>

definition serve_accept :: "accept_result \<Rightarrow> user_quota \<Rightarrow> accept_action" where
  "serve_accept r q = (case r of
      AcceptFailed e \<Rightarrow> if is_connection_error e then Retry else Backoff
    | Accepted \<Rightarrow> if is_exhausted q then Reject else Spawn)"

section \<open>Copying\<close>

definition COPY_BUF :: nat where "COPY_BUF = 65536"

record copy_state =
  cp_pipe :: "pipe option"
  cp_buffered :: nat
  cp_can_splice :: bool
  cp_idle :: "pipe list"
  cp_quota :: user_quota
  cp_written :: bytes

definition give_back :: "copy_state \<Rightarrow> copy_state" where
  "give_back s = (case cp_pipe s of
      None \<Rightarrow> s\<lparr> cp_buffered := 0 \<rparr>
    | Some p \<Rightarrow> s\<lparr> cp_pipe := None, cp_buffered := 0,
        cp_idle := (if cp_buffered s = 0 then pipe_release p (cp_idle s) else cp_idle s) \<rparr>)"

text \<open>The answers of one turn: a new pipe, the read, the new pipe size, the hour, the writes.\<close>

datatype read_answer = ReadBytes bytes | WouldBlock | ReadFailed

datatype write_answer = Sent nat | SendFailed

record turn =
  tn_create :: "nat option"
  tn_read :: read_answer
  tn_size :: int
  tn_hour :: i64
  tn_writes :: "write_answer list"

datatype copy_status = Running | Finished | Failed | Cancelled

text \<open>
  The write loop, of the drained pipe or of \<open>write_all\<close>: what was written, what is left, and how
  it ended; a write of nothing is an error, and answers that run out mean the task was cancelled.
\<close>

fun write_out :: "write_answer list \<Rightarrow> bytes \<Rightarrow> bytes \<times> bytes \<times> copy_status" where
  "write_out as [] = ([], [], Running)"
| "write_out [] d = ([], d, Cancelled)"
| "write_out (SendFailed # as) d = ([], d, Failed)"
| "write_out (Sent k # as) d =
     (if k = 0 then ([], d, Failed)
      else let (w, left, st) = write_out as (drop k d) in (take k d @ w, left, st))"

definition lease_pipe :: "turn \<Rightarrow> copy_state \<Rightarrow> copy_state" where
  "lease_pipe t s =
     (if cp_pipe s = None \<and> cp_can_splice s
      then let (p, idle) = pipe_acquire (tn_create t) (cp_idle s)
           in s\<lparr> cp_pipe := p, cp_idle := idle, cp_can_splice := (p \<noteq> None) \<rparr>
      else s)"

definition forward_chunk :: "direction \<Rightarrow> turn \<Rightarrow> bytes \<Rightarrow> copy_state \<Rightarrow> copy_state \<times> copy_status" where
  "forward_chunk dir t d s =
     (if d = [] then (s, Finished)
      else
        let (q, ok) = try_consume_at (word_of_nat (length d)) dir (tn_hour t) (cp_quota s);
            s1 = s\<lparr> cp_quota := q \<rparr>
        in if \<not> ok then (s1, Failed)
           else
             let (w, left, st) = write_out (tn_writes t) d;
                 s2 = s1\<lparr> cp_written := cp_written s1 @ w \<rparr>
             in (case cp_pipe s2 of
                   None \<Rightarrow> s2
                 | Some p \<Rightarrow> s2\<lparr> cp_buffered := length left,
                     cp_pipe := Some (p\<lparr> pp_data := drop (length w) (pp_data p) \<rparr>) \<rparr>, st))"

definition copy_turn :: "direction \<Rightarrow> turn \<Rightarrow> copy_state \<Rightarrow> copy_state \<times> copy_status" where
  "copy_turn dir t s =
     (let s1 = lease_pipe t s in
      case cp_pipe s1 of
        Some p \<Rightarrow>
          (case tn_read t of
             ReadBytes d \<Rightarrow>
               (let d1 = take (pp_capacity p) d in
                forward_chunk dir t d1
                  (s1\<lparr> cp_pipe := Some (pipe_fill d1 (tn_size t) p), cp_buffered := length d1 \<rparr>))
           | WouldBlock \<Rightarrow> (give_back s1, Running)
           | ReadFailed \<Rightarrow> (s1, Failed))
      | None \<Rightarrow>
          (case tn_read t of
             ReadBytes d \<Rightarrow> forward_chunk dir t (take COPY_BUF d) s1
           | WouldBlock \<Rightarrow> (s1, Running)
           | ReadFailed \<Rightarrow> (s1, Failed)))"

text \<open>The loop; however it ends, dropping the lease gives the pipe back.\<close>

fun copy_counted :: "direction \<Rightarrow> turn list \<Rightarrow> copy_state \<Rightarrow> copy_state \<times> copy_status" where
  "copy_counted dir [] s = (give_back s, Cancelled)"
| "copy_counted dir (t # ts) s =
     (case copy_turn dir t s of
        (s', Running) \<Rightarrow> copy_counted dir ts s'
      | (s', st) \<Rightarrow> (give_back s', st))"

definition copy_start :: "pipe list \<Rightarrow> user_quota \<Rightarrow> copy_state" where
  "copy_start idle q = \<lparr> cp_pipe = None, cp_buffered = 0, cp_can_splice = True, cp_idle = idle,
     cp_quota = q, cp_written = [] \<rparr>"

section \<open>Nothing stays in a pipe that is given back\<close>

lemma write_out_split: "write_out as d = (w, left, st) \<Longrightarrow> w @ left = d \<and> (st = Running \<longrightarrow> left = [])"
proof (induction as d arbitrary: w left st rule: write_out.induct)
  case (4 k as b bs)
  show ?case
  proof (cases "k = 0")
    case False
    obtain w1 left1 st1 where rec: "write_out as (drop k (b # bs)) = (w1, left1, st1)"
      using prod_cases3 by blast
    with "4.prems" False have out: "w = take k (b # bs) @ w1" "left = left1" "st = st1" by simp_all
    from "4.IH" [OF False rec] show ?thesis
      unfolding out by (metis append.assoc append_take_drop_id)
  qed (use "4.prems" in auto)
qed auto

definition idle_empty :: "pipe list \<Rightarrow> bool" where
  "idle_empty idle \<longleftrightarrow> (\<forall>p\<in>set idle. pp_data p = []) \<and> length idle \<le> MAX_IDLE"

text \<open>A pipe that is held has exactly the bytes the lease counts.\<close>

definition lease_inv :: "copy_state \<Rightarrow> bool" where
  "lease_inv s \<longleftrightarrow> idle_empty (cp_idle s)
     \<and> (case cp_pipe s of None \<Rightarrow> True | Some p \<Rightarrow> length (pp_data p) = cp_buffered s)"

definition between_turns :: "copy_state \<Rightarrow> bool" where
  "between_turns s \<longleftrightarrow> lease_inv s \<and> cp_buffered s = 0"

lemma give_back_inv: "lease_inv s \<Longrightarrow> between_turns (give_back s) \<and> cp_pipe (give_back s) = None"
  by (auto simp: give_back_def lease_inv_def between_turns_def idle_empty_def pipe_release_def
      split: option.splits)

lemma lease_pipe_inv:
  assumes "between_turns s"
  shows "between_turns (lease_pipe t s) \<and> cp_quota (lease_pipe t s) = cp_quota s
    \<and> cp_written (lease_pipe t s) = cp_written s"
proof (cases "cp_pipe s = None \<and> cp_can_splice s \<and> cp_idle s \<noteq> []")
  case True
  let ?p = "last (cp_idle s)"
  have "pp_data ?p = []" "idle_empty (butlast (cp_idle s))"
    using True assms by (auto simp: between_turns_def lease_inv_def idle_empty_def dest: in_set_butlastD)
  with True assms show ?thesis
    by (simp add: lease_pipe_def pipe_acquire_def between_turns_def lease_inv_def)
next
  case False
  then show ?thesis
    using assms by (auto simp: lease_pipe_def pipe_acquire_def pipe_create_def between_turns_def lease_inv_def
        idle_empty_def split: option.splits)
qed

lemma pipe_fill_data [simp]: "pp_data (pipe_fill d a p) = pp_data p @ d"
  by (simp add: pipe_fill_def pipe_grow_def Let_def)

text \<open>Forwarding a chunk that the pipe holds, or that is in the buffer.\<close>

definition chunk_inv :: "bytes \<Rightarrow> copy_state \<Rightarrow> bool" where
  "chunk_inv d s \<longleftrightarrow> idle_empty (cp_idle s)
     \<and> (case cp_pipe s of None \<Rightarrow> cp_buffered s = 0
        | Some p \<Rightarrow> pp_data p = d \<and> cp_buffered s = length d)"

lemma chunk_lease: "chunk_inv d s \<Longrightarrow> lease_inv s"
  by (auto simp: chunk_inv_def lease_inv_def split: option.splits)

lemma forward_chunk_inv:
  assumes "chunk_inv d s" "forward_chunk dir t d s = (s', st)"
  shows "lease_inv s' \<and> (st = Running \<longrightarrow> between_turns s')"
proof -
  obtain q ok where consume: "try_consume_at (word_of_nat (length d)) dir (tn_hour t) (cp_quota s) = (q, ok)"
    by fastforce
  obtain w left st1 where out: "write_out (tn_writes t) d = (w, left, st1)" using prod_cases3 by blast
  have split: "w @ left = d" "st1 = Running \<longrightarrow> left = []" using write_out_split [OF out] by auto
  show ?thesis
  proof (cases "d = [] \<or> \<not> ok")
    case True
    then have "lease_inv s' \<and> st \<noteq> Running"
      using assms(2) chunk_lease [OF assms(1)] consume
      by (auto simp: forward_chunk_def lease_inv_def split: if_splits option.splits)
    then show ?thesis by blast
  next
    case False
    then have res: "st = st1" "s' = (let s2 = s\<lparr> cp_quota := q, cp_written := cp_written s @ w \<rparr> in
        case cp_pipe s2 of None \<Rightarrow> s2
        | Some p \<Rightarrow> s2\<lparr> cp_buffered := length left, cp_pipe := Some (p\<lparr> pp_data := drop (length w) (pp_data p) \<rparr>) \<rparr>)"
      using assms(2) consume out by (auto simp: forward_chunk_def Let_def)
    have "cp_pipe s = Some p \<Longrightarrow> drop (length w) (pp_data p) = left" for p
      using assms(1) split(1) by (auto simp: chunk_inv_def)
    with assms(1) split(2) show ?thesis
      by (auto simp: res Let_def chunk_inv_def lease_inv_def between_turns_def split: option.splits)
  qed
qed

lemma copy_turn_inv:
  assumes "between_turns s" "copy_turn dir t s = (s', st)"
  shows "lease_inv s' \<and> (st = Running \<longrightarrow> between_turns s')"
proof -
  let ?s1 = "lease_pipe t s"
  have s1: "between_turns ?s1" using lease_pipe_inv [OF assms(1)] by blast
  show ?thesis
  proof (cases "tn_read t")
    case (ReadBytes d)
    show ?thesis
    proof (cases "cp_pipe ?s1")
      case None
      with s1 have "chunk_inv (take COPY_BUF d) ?s1"
        by (simp add: chunk_inv_def between_turns_def lease_inv_def)
      with assms(2) None ReadBytes show ?thesis
        by (intro forward_chunk_inv) (simp_all add: copy_turn_def Let_def)
    next
      case (Some p)
      let ?d = "take (pp_capacity p) d"
      have "chunk_inv ?d (?s1\<lparr> cp_pipe := Some (pipe_fill ?d (tn_size t) p), cp_buffered := length ?d \<rparr>)"
        using s1 Some by (auto simp: chunk_inv_def between_turns_def lease_inv_def)
      with assms(2) Some ReadBytes show ?thesis
        by (intro forward_chunk_inv) (simp_all add: copy_turn_def Let_def)
    qed
  next
    case WouldBlock
    with s1 assms(2) give_back_inv [of ?s1] show ?thesis
      by (cases "cp_pipe ?s1") (auto simp: copy_turn_def Let_def between_turns_def)
  next
    case ReadFailed
    with s1 assms(2) show ?thesis
      by (cases "cp_pipe ?s1") (auto simp: copy_turn_def Let_def between_turns_def)
  qed
qed

lemma copy_counted_inv:
  "between_turns s \<Longrightarrow> copy_counted dir ts s = (s', st)
     \<Longrightarrow> idle_empty (cp_idle s') \<and> cp_pipe s' = None"
proof (induction ts arbitrary: s)
  case Nil
  then show ?case using give_back_inv [of s] by (auto simp: between_turns_def lease_inv_def)
next
  case (Cons t ts)
  obtain s1 st1 where turn: "copy_turn dir t s = (s1, st1)" by fastforce
  note inv = copy_turn_inv [OF Cons.prems(1) turn]
  show ?case
  proof (cases "st1 = Running")
    case True
    with inv have "between_turns s1" by blast
    from Cons.IH [OF this] Cons.prems(2) turn True show ?thesis by simp
  next
    case False
    then have "s' = give_back s1" using Cons.prems(2) turn by (cases st1) auto
    with inv give_back_inv [of s1] show ?thesis by (auto simp: between_turns_def lease_inv_def)
  qed
qed

text \<open>A pipe that goes back to the idle list is empty.  If every idle pipe is empty before a
  connection is served, every idle pipe is empty after it, whatever the kernel answered and
  however the copy ended, and the list never holds more than its maximum: no byte of one
  connection can come out of the pipe in another one.\<close>

lemma idle_pipes_stay_empty:
  assumes "idle_empty idle" "copy_counted dir ts (copy_start idle q) = (s', st)"
  shows "idle_empty (cp_idle s') \<and> cp_pipe s' = None"
  using assms
  by (intro copy_counted_inv [OF _ assms(2)]) (simp add: between_turns_def lease_inv_def copy_start_def)

section \<open>Every byte that is forwarded was billed\<close>

text \<open>From one state to a later one: the total grew by the bytes billed, of which those written
  are a part; on an exhausted quota nothing was billed or written.\<close>

text \<open>At most \<open>b\<close> bytes were counted, and what was written is among them.\<close>

definition billed_step :: "direction \<Rightarrow> nat \<Rightarrow> copy_state \<Rightarrow> copy_state \<Rightarrow> bool" where
  "billed_step dir b s s' \<longleftrightarrow> (\<exists>n w. cp_written s' = cp_written s @ w \<and> length w \<le> n \<and> n \<le> b
     \<and> total_of dir (cp_quota s') = total_of dir (cp_quota s) + word_of_nat n
     \<and> (is_exhausted (cp_quota s) \<longrightarrow> w = [] \<and> cp_quota s' = cp_quota s))"

lemma billed_step_same [simp]: "cp_written s' = cp_written s \<Longrightarrow> cp_quota s' = cp_quota s \<Longrightarrow> billed_step dir b s s'"
  unfolding billed_step_def by (intro exI [of _ 0] exI [of _ "[]"]) simp

lemma billed_step_trans:
  assumes "billed_step dir b s s1" "billed_step dir b' s1 s2"
  shows "billed_step dir (b + b') s s2"
proof -
  obtain n w where 1: "cp_written s1 = cp_written s @ w" "length w \<le> n" "n \<le> b"
    "total_of dir (cp_quota s1) = total_of dir (cp_quota s) + word_of_nat n"
    "is_exhausted (cp_quota s) \<longrightarrow> w = [] \<and> cp_quota s1 = cp_quota s"
    using assms(1) by (auto simp: billed_step_def)
  obtain n' w' where 2: "cp_written s2 = cp_written s1 @ w'" "length w' \<le> n'" "n' \<le> b'"
    "total_of dir (cp_quota s2) = total_of dir (cp_quota s1) + word_of_nat n'"
    "is_exhausted (cp_quota s1) \<longrightarrow> w' = [] \<and> cp_quota s2 = cp_quota s1"
    using assms(2) by (auto simp: billed_step_def)
  show ?thesis
    unfolding billed_step_def
    by (intro exI [of _ "n + n'"] exI [of _ "w @ w'"]) (use 1 2 in auto)
qed

lemma forward_chunk_billed:
  assumes "forward_chunk dir t d s = (s', st)"
  shows "billed_step dir (length d) s s'"
proof (cases "d = []")
  case False
  obtain q ok where consume: "try_consume_at (word_of_nat (length d)) dir (tn_hour t) (cp_quota s) = (q, ok)"
    by fastforce
  obtain w left st1 where out: "write_out (tn_writes t) d = (w, left, st1)" using prod_cases3 by blast
  have "length w \<le> length d" using write_out_split [OF out] by auto
  moreover have "cp_quota s' = q" "cp_written s' = cp_written s @ (if ok then w else [])"
    using assms False consume out by (auto simp: forward_chunk_def Let_def split: option.splits if_splits)
  moreover note try_consume_total [OF consume]
  moreover define n where "n = (if is_exhausted (cp_quota s) then 0 else length d)"
  ultimately show ?thesis
    unfolding billed_step_def
    by (intro exI [of _ n] exI [of _ "if ok then w else []"]) (auto simp: n_def)
qed (use assms in \<open>simp add: forward_chunk_def\<close>)

lemma give_back_frame [simp]: "cp_written (give_back s) = cp_written s" "cp_quota (give_back s) = cp_quota s"
  by (simp_all add: give_back_def split: option.splits)

lemma lease_pipe_frame [simp]: "cp_written (lease_pipe t s) = cp_written s" "cp_quota (lease_pipe t s) = cp_quota s"
  by (simp_all add: lease_pipe_def split: prod.splits)

definition read_size :: "turn \<Rightarrow> nat" where
  "read_size t = (case tn_read t of ReadBytes d \<Rightarrow> length d | _ \<Rightarrow> 0)"

lemma billed_step_mono: "billed_step dir b s s' \<Longrightarrow> b \<le> b' \<Longrightarrow> billed_step dir b' s s'"
  using billed_step_trans [of dir b s s' "b' - b" s'] by simp

lemma copy_turn_billed:
  assumes "copy_turn dir t s = (s', st)"
  shows "billed_step dir (read_size t) s s'"
proof (cases "\<exists>d. tn_read t = ReadBytes d")
  case True
  then obtain d c s1 where d: "tn_read t = ReadBytes d" "forward_chunk dir t (take c d) s1 = (s', st)"
    "cp_written s1 = cp_written s" "cp_quota s1 = cp_quota s"
    using assms by (cases "cp_pipe (lease_pipe t s)") (auto simp: copy_turn_def Let_def)
  have "billed_step dir (length (take c d)) s s'"
    using billed_step_trans [OF billed_step_same [of s1 s dir 0] forward_chunk_billed [OF d(2)]] d(3,4) by simp
  then show ?thesis by (rule billed_step_mono) (simp add: read_size_def d(1))
next
  case False
  then show ?thesis
    using assms by (cases "tn_read t"; cases "cp_pipe (lease_pipe t s)") (auto simp: copy_turn_def Let_def)
qed

lemma copy_counted_billed: "copy_counted dir ts s = (s', st) \<Longrightarrow> billed_step dir (sum_list (map read_size ts)) s s'"
proof (induction ts arbitrary: s)
  case (Cons t ts)
  obtain s1 st1 where turn: "copy_turn dir t s = (s1, st1)" by fastforce
  note one = copy_turn_billed [OF turn]
  have "billed_step dir (sum_list (map read_size ts)) s1 s'"
  proof (cases "st1 = Running")
    case True
    with Cons turn show ?thesis by simp
  next
    case False
    then have "s' = give_back s1" using Cons.prems turn by (cases st1) auto
    then show ?thesis by simp
  qed
  from billed_step_trans [OF one this] show ?case by simp
qed auto

text \<open>No byte is forwarded before it is billed.  However the kernel splits reads and writes and
  however the copy ends, the user's total in that direction has grown by at least the number of bytes
  that were written to the other side, and by no more than what was read; and a quota that is exhausted
  lets nothing through and bills nothing.\<close>

lemma forwarded_bytes_are_billed:
  assumes "copy_counted dir ts (copy_start idle q) = (s', st)"
    "unat (total_of dir q) + sum_list (map read_size ts) < 2 ^ 64"
  shows "unat (total_of dir q) + length (cp_written s') \<le> unat (total_of dir (cp_quota s'))
    \<and> unat (total_of dir (cp_quota s')) \<le> unat (total_of dir q) + sum_list (map read_size ts)
    \<and> (is_exhausted q \<longrightarrow> cp_written s' = [] \<and> cp_quota s' = q)"
proof -
  obtain n where n: "length (cp_written s') \<le> n" "n \<le> sum_list (map read_size ts)"
    "total_of dir (cp_quota s') = total_of dir q + word_of_nat n"
    "is_exhausted q \<longrightarrow> cp_written s' = [] \<and> cp_quota s' = q"
    using copy_counted_billed [OF assms(1)] by (auto simp: billed_step_def copy_start_def)
  then have "unat (total_of dir (cp_quota s')) = unat (total_of dir q) + n"
    using assms(2) by (simp add: unat_add_no_wrap unat_of_nat_u64)
  with n show ?thesis by simp
qed

section \<open>Failover of connections\<close>

text \<open>C36: a new connection goes to the target of the highest priority that answers.  The loop always
  ends with a result, without a panic; it connects to the first reachable target when all targets
  are believed healthy, and it fails only when no target believed healthy can be reached.\<close>

theorem connects_to_first_reachable:
  assumes "pool_inv p"
  shows "\<exists>p' r. tcp_connect_active dial now p = Some (p', r)
    \<and> (\<forall>i c. r = Inr (i, c) \<longrightarrow> i < pool_len p \<and> dial (tp_targets p ! i) = Inr c
         \<and> (\<forall>j<i. tp_healthy p ! j \<longrightarrow> isl (dial (tp_targets p ! j))))
    \<and> (\<forall>e. r = Inl e \<longrightarrow> (\<forall>j<pool_len p. tp_healthy p ! j \<longrightarrow> isl (dial (tp_targets p ! j))))"
proof -
  have total: "confirm now i p \<noteq> None" if "pool_inv p" "i < length (tp_targets p)" for p i
    using confirm_laws [OF that(1)] that(2) by (fastforce simp: pool_len_def)
  have enough: "length (filter id (tp_healthy p)) \<le> pool_len p"
    using assms length_filter_le [of id "tp_healthy p"] by (simp add: pool_inv_def pool_len_def)
  show ?thesis
    unfolding tcp_connect_active_def
    by (rule tp.connect_loop_runs [OF assms total, where dial = dial and n = "pool_len p" and err = None])
      (use enough in \<open>auto simp: pool_len_def\<close>)
qed

section \<open>The laws at work\<close>

definition sample_turn :: turn where
  "sample_turn = \<lparr> tn_create = Some 65536, tn_read = ReadBytes [1, 2, 3], tn_size = 0, tn_hour = 7,
     tn_writes = [Sent 2, Sent 1] \<rparr>"

definition broken_turn :: turn where
  "broken_turn = sample_turn\<lparr> tn_writes := [Sent 1, SendFailed] \<rparr>"

definition sample_copy :: "copy_state \<times> copy_status" where
  "sample_copy = copy_counted Upload [sample_turn, broken_turn] (copy_start [] sample_quota)"

lemma sample_copy_run: "copy_counted Upload [sample_turn, broken_turn] (copy_start [] sample_quota)
    = (fst sample_copy, snd sample_copy)"
  by (simp add: sample_copy_def)

lemma idle_pipes_stay_empty_witness:
  "idle_empty [] \<and> idle_empty (cp_idle (fst sample_copy)) \<and> cp_pipe (fst sample_copy) = None"
  using idle_pipes_stay_empty [OF _ sample_copy_run] by (simp add: idle_empty_def)

lemma forwarded_bytes_are_billed_witness:
  "length (cp_written (fst sample_copy)) = 4
     \<and> unat (total_of Upload sample_quota) + 4 \<le> unat (total_of Upload (cp_quota (fst sample_copy)))"
proof -
  have "length (cp_written (fst sample_copy)) = 4" by code_simp
  moreover have "unat (total_of Upload sample_quota) + sum_list (map read_size [sample_turn, broken_turn]) < 2 ^ 64" by code_simp
  ultimately show ?thesis using forwarded_bytes_are_billed [OF sample_copy_run] by simp
qed

theorem connects_to_first_reachable_witness:
  "\<exists>p' r. tcp_connect_active (\<lambda>t. if t = ''b:2'' then Inr t else Inl t) 9 sample_pool = Some (p', r)
     \<and> (\<exists>c. r = Inr (1, c))"
proof -
  let ?dial = "\<lambda>t :: string. if t = ''b:2'' then Inr t else (Inl t :: string + string)"
  from connects_to_first_reachable [OF sample_pool_inv, of ?dial 9] obtain p' r where
    run: "tcp_connect_active ?dial 9 sample_pool = Some (p', r)"
    "\<forall>i c. r = Inr (i, c) \<longrightarrow> i < pool_len sample_pool \<and> ?dial (tp_targets sample_pool ! i) = Inr c"
    "\<forall>e. r = Inl e \<longrightarrow> (\<forall>j<pool_len sample_pool. tp_healthy sample_pool ! j
       \<longrightarrow> isl (?dial (tp_targets sample_pool ! j)))" by blast
  have pool: "pool_len sample_pool = 3" "tp_targets sample_pool = [''a:1'', ''b:2'', ''c:3'']"
    "tp_healthy sample_pool = [True, True, True]" by code_simp+
  have "\<not> isl r"
  proof
    assume "isl r"
    then obtain e where "r = Inl e" by (auto simp: isl_def)
    with run(3) have "isl (?dial (tp_targets sample_pool ! 1))" using pool by (auto dest!: spec [of _ 1])
    with pool show False by simp
  qed
  then obtain i c where r: "r = Inr (i, c)" by (cases r) auto
  with run(2) have "i < pool_len sample_pool" "?dial (tp_targets sample_pool ! i) = Inr c" by blast+
  then have "i < 3" "?dial ([''a:1'', ''b:2'', ''c:3''] ! i) = Inr c" unfolding pool by blast+
  then have "i = 1" by (auto simp: less_Suc_eq numeral_3_eq_3)
  with run(1) r show ?thesis by blast
qed

end
