(* ===== verification/Udp.thy ===== *)
theory Udp
  imports Pool Quota "HOL-Library.Sublist" "HOL-Library.AList"
begin

text \<open>
  The UDP side of a rule (\<open>udp.rs\<close>): sending a buffer as the datagrams it was received in, the sockets of
  a rule, and one shard of the relay with its sessions, one per client address.  A shard is a state
  machine: the receiving loop and the tasks it spawns take turns, and a turn lasts until the task waits
  again.  The tasks are values of the state, the shared sessions live in an arena, whose
  index is the identity that \<open>Arc::ptr_eq\<close> compares.  Connecting is one turn, and so is sending one
  buffer, all its calls of the system included.  What the operating system
  answers is an input; a panic is \<open>None\<close>, and an event whose condition does not hold changes nothing.
  Buffer sizes of the sockets and the fragmentation options are not modelled.
\<close>

definition RECV_BUF :: nat where "RECV_BUF = 64 * 1024"
definition RECV_BATCH :: nat where "RECV_BATCH = 16"
definition MAX_SHARDS :: nat where "MAX_SHARDS = 8"
definition MAX_SESSIONS :: nat where "MAX_SESSIONS = 4096"
definition MAX_PENDING_PACKETS :: nat where "MAX_PENDING_PACKETS = 32"

section \<open>Sending\<close>

text \<open>\<open>slice::chunks\<close>; the size is never 0 here.\<close>

function chunks :: "nat \<Rightarrow> 'a list \<Rightarrow> 'a list list" where
  "chunks n xs = (if n = 0 \<or> xs = [] then [] else take n xs # chunks n (drop n xs))"
  by pat_completeness auto
termination by (relation "measure (\<lambda>(n, xs). length xs)") auto

declare chunks.simps [simp del]

text \<open>A connected socket sends to its peer.\<close>

record udp_endpoint =
  ep_socket :: nat
  ep_peer :: "socket_addr option"

record datagram =
  dg_socket :: nat
  dg_to :: socket_addr
  dg_data :: octets

text \<open>
  The answers of the system while one buffer is sent: the error of the \<open>n\<close>-th call, the number of
  segments a call may carry, and the datagrams that a segmented call makes of its contents.
\<close>

record udp_env =
  ue_fails :: "nat \<Rightarrow> string option"
  ue_max_gso :: nat
  ue_segments :: "nat \<Rightarrow> octets \<Rightarrow> octets list"

type_synonym sent = "nat \<times> datagram list \<times> (string + unit)"

definition send_one :: "udp_env \<Rightarrow> udp_endpoint \<Rightarrow> socket_addr \<Rightarrow> octets \<Rightarrow> nat \<Rightarrow> sent" where
  "send_one v ep dest data n = (case ue_fails v n of
      Some e \<Rightarrow> (n + 1, [], Inl e)
    | None \<Rightarrow> (n + 1, [\<lparr> dg_socket = ep_socket ep,
        dg_to = (case ep_peer ep of Some peer \<Rightarrow> peer | None \<Rightarrow> dest), dg_data = data \<rparr>], Inr ()))"

definition send_segmented :: "udp_env \<Rightarrow> udp_endpoint \<Rightarrow> socket_addr \<Rightarrow> octets \<Rightarrow> nat \<Rightarrow> nat \<Rightarrow> sent" where
  "send_segmented v ep dest contents stride n = (case ue_fails v n of
      Some e \<Rightarrow> (n + 1, [], Inl e)
    | None \<Rightarrow> (n + 1, map (\<lambda>d. \<lparr> dg_socket = ep_socket ep, dg_to = dest, dg_data = d \<rparr>) (ue_segments v stride contents), Inr ()))"

text \<open>\<open>for x in xs { f(x)?; }\<close>\<close>

fun for_each :: "('a \<Rightarrow> nat \<Rightarrow> sent) \<Rightarrow> 'a list \<Rightarrow> nat \<Rightarrow> sent" where
  "for_each f [] n = (n, [], Inr ())"
| "for_each f (x # xs) n = (case f x n of
      (n1, ds, Inl e) \<Rightarrow> (n1, ds, Inl e)
    | (n1, ds, Inr _) \<Rightarrow> (case for_each f xs n1 of (n2, ds2, r) \<Rightarrow> (n2, ds @ ds2, r)))"

definition send_chunk :: "udp_env \<Rightarrow> udp_endpoint \<Rightarrow> socket_addr \<Rightarrow> nat \<Rightarrow> octets \<Rightarrow> nat \<Rightarrow> sent" where
  "send_chunk v ep dest stride chunk n =
     (if length chunk \<le> stride then send_one v ep dest chunk n
      else case send_segmented v ep dest chunk stride n of
        (n1, ds, Inr _) \<Rightarrow> (n1, ds, Inr ())
      | (n1, ds, Inl _) \<Rightarrow> for_each (send_one v ep dest) (chunks stride chunk) n1)"

definition endpoint_send :: "udp_env \<Rightarrow> udp_endpoint \<Rightarrow> socket_addr \<Rightarrow> octets \<Rightarrow> nat \<Rightarrow> sent" where
  "endpoint_send v ep dest data stride =
     (if stride = 0 \<or> length data \<le> stride then send_one v ep dest data 0
      else for_each (send_chunk v ep dest stride) (chunks (stride * max (ue_max_gso v) 1) data) 0)"

section \<open>Sockets\<close>

definition shard_count :: "nat option \<Rightarrow> nat" where
  "shard_count parallelism = min (case parallelism of None \<Rightarrow> 1 | Some n \<Rightarrow> n) MAX_SHARDS"

text \<open>
  \<open>os i addr shared\<close> is what making the \<open>i\<close>-th socket answers: the first error, or the socket with
  the answer to its local address, which is only asked for when the port was left open.
\<close>

type_synonym bind_os = "nat \<Rightarrow> socket_addr \<Rightarrow> bool \<Rightarrow> string + nat \<times> (string + socket_addr)"

fun bind_loop :: "bind_os \<Rightarrow> bool \<Rightarrow> nat \<Rightarrow> nat \<Rightarrow> socket_addr \<Rightarrow> string + (nat \<times> socket_addr) list" where
  "bind_loop os shared 0 i addr = Inr []"
| "bind_loop os shared (Suc n) i addr = (case os i addr shared of
      Inl e \<Rightarrow> Inl e
    | Inr (socket, local) \<Rightarrow>
        (case (if sa_port addr = 0 then local else Inr addr) of
           Inl e \<Rightarrow> Inl e
         | Inr addr' \<Rightarrow>
             (case bind_loop os shared n (Suc i) addr' of
                Inl e \<Rightarrow> Inl e
              | Inr rest \<Rightarrow> Inr ((socket, addr') # rest))))"

definition bind_sockets :: "bind_os \<Rightarrow> socket_addr \<Rightarrow> nat \<Rightarrow> string + (nat \<times> socket_addr) list" where
  "bind_sockets os addr shards = bind_loop os (shards > 1) (max shards 1) 0 addr"

text \<open>\<open>Endpoint::new\<close> on each socket; \<open>prepare\<close> is the error of setting a socket up.\<close>

fun endpoints_new :: "(nat \<Rightarrow> string option) \<Rightarrow> (nat \<times> socket_addr) list \<Rightarrow> string + udp_endpoint list" where
  "endpoints_new prepare [] = Inr []"
| "endpoints_new prepare ((socket, _) # rest) = (case prepare socket of
      Some e \<Rightarrow> Inl e
    | None \<Rightarrow> (case endpoints_new prepare rest of
        Inl e \<Rightarrow> Inl e
      | Inr eps \<Rightarrow> Inr (\<lparr> ep_socket = socket, ep_peer = None \<rparr> # eps)))"

definition udp_bind :: "bind_os \<Rightarrow> (nat \<Rightarrow> string option) \<Rightarrow> nat option \<Rightarrow> socket_addr \<Rightarrow> string + udp_endpoint list" where
  "udp_bind os prepare parallelism addr = (case bind_sockets os addr (shard_count parallelism) of
      Inl e \<Rightarrow> Inl e
    | Inr sockets \<Rightarrow> endpoints_new prepare sockets)"

section \<open>A shard\<close>

record udp_session =
  un_upstream :: udp_endpoint
  un_target :: socket_addr
  un_target_index :: nat
  un_last_active :: u64

record pending =
  pd_data :: octets
  pd_stride :: nat

datatype slot = Opening "pending list" | Open nat

text \<open>
  Where a spawned task waits: for the connection, between the packets of a batch it took out of its
  slot, or for the upstream.
\<close>

datatype udp_task =
    Connecting socket_addr
  | Draining socket_addr nat "pending list"
  | Relaying socket_addr nat

text \<open>
  The relay, and where its receiving loop is: the received packets that are left and the packet it is about to send.
\<close>

record shard =
  sh_endpoint :: udp_endpoint
  sh_sessions :: "(socket_addr \<times> slot) list"
  sh_pool :: target_pool
  sh_quota :: user_quota
  sh_max_sessions :: nat
  sh_idle_timeout :: u64
  sh_stop :: bool
  sh_arena :: "udp_session list"
  sh_batch :: "(socket_addr \<times> pending) list"
  sh_sending :: "(socket_addr \<times> nat \<times> pending) option"
  sh_tasks :: "udp_task list"
  sh_sent :: "datagram list"

definition idle_deadline :: "udp_session \<Rightarrow> shard \<Rightarrow> nat" where
  "idle_deadline sess s = unat (un_last_active sess) + unat (sh_idle_timeout s)"

definition touch :: "nat \<Rightarrow> u64 \<Rightarrow> shard \<Rightarrow> shard" where
  "touch i now_ms s = s\<lparr> sh_arena := (sh_arena s)[i := (sh_arena s ! i)\<lparr> un_last_active := now_ms \<rparr>] \<rparr>"

definition forward :: "udp_env \<Rightarrow> i64 \<Rightarrow> u64 \<Rightarrow> nat \<Rightarrow> pending \<Rightarrow> shard \<Rightarrow> (shard \<times> (string + unit)) option" where
  "forward v hour now_ms i packet s =
     (let data = pd_data packet; sess = sh_arena s ! i;
          (q, ok) = try_consume_at (word_of_nat (length data)) Upload hour (sh_quota s);
          s1 = s\<lparr> sh_quota := q \<rparr>
      in if \<not> ok then Some (s1, Inr ())
         else case endpoint_send v (un_upstream sess) (un_target sess) data (pd_stride packet) of
           (_, ds, r) \<Rightarrow>
             (let s2 = (touch i now_ms s1)\<lparr> sh_sent := sh_sent s1 @ ds \<rparr> in
              case r of
                Inr _ \<Rightarrow> Some (s2, Inr ())
              | Inl e \<Rightarrow>
                  do { p \<leftarrow> mark_down (un_target_index sess) (sh_pool s2);
                       Some (s2\<lparr> sh_pool := p \<rparr>, Inl e) }))"

definition remove_open :: "socket_addr \<Rightarrow> nat \<Rightarrow> shard \<Rightarrow> shard" where
  "remove_open peer i s =
     (if map_of (sh_sessions s) peer = Some (Open i)
      then s\<lparr> sh_sessions := AList.delete peer (sh_sessions s) \<rparr> else s)"

text \<open>\<open>dispatch\<close> up to the call of \<open>forward\<close>, and from it.\<close>

definition dispatch_lookup :: "socket_addr \<Rightarrow> pending \<Rightarrow> shard \<Rightarrow> shard" where
  "dispatch_lookup peer packet s = (case map_of (sh_sessions s) peer of
      Some (Open i) \<Rightarrow> s\<lparr> sh_sending := Some (peer, i, packet) \<rparr>
    | Some (Opening ps) \<Rightarrow>
        if length ps < MAX_PENDING_PACKETS
        then s\<lparr> sh_sessions := AList.update peer (Opening (ps @ [packet])) (sh_sessions s) \<rparr> else s
    | None \<Rightarrow>
        if sh_max_sessions s \<le> length (sh_sessions s) then s
        else s\<lparr> sh_sessions := AList.update peer (Opening [packet]) (sh_sessions s),
                sh_tasks := sh_tasks s @ [Connecting peer] \<rparr>)"

definition dispatch_send :: "udp_env \<Rightarrow> i64 \<Rightarrow> u64 \<Rightarrow> socket_addr \<Rightarrow> nat \<Rightarrow> pending \<Rightarrow> shard \<Rightarrow> shard option" where
  "dispatch_send v hour now_ms peer i packet s =
     do { (s1, r) \<leftarrow> forward v hour now_ms i packet s;
          Some (case r of Inr _ \<Rightarrow> s1 | Inl _ \<Rightarrow> remove_open peer i s1) }"

section \<open>Opening a session\<close>

datatype dial_error = TargetUnresolved dns_error | CannotOpen string | DialTimedOut

text \<open>The answers to a dial: whether it times out, the resolver, and what binding, connecting and setting
  up a local socket gives.\<close>

record dial_env =
  de_late :: "string \<Rightarrow> bool"
  de_lookup :: "string \<Rightarrow> string + ip_addr list"
  de_socket :: "socket_addr \<Rightarrow> socket_addr \<Rightarrow> string + nat"

definition local_for :: "socket_addr \<Rightarrow> socket_addr" where
  "local_for target = (case sa_ip target of
      V6 _ \<Rightarrow> SocketAddr (V6 (replicate 8 0)) 0 0
    | V4 _ \<Rightarrow> SocketAddr (V4 (replicate 4 0)) 0 0)"

definition connect_upstream :: "dial_env \<Rightarrow> string \<Rightarrow> dial_error + udp_endpoint \<times> socket_addr" where
  "connect_upstream d target = (case resolve (de_lookup d) target of
      Inl e \<Rightarrow> Inl (TargetUnresolved e)
    | Inr addrs \<Rightarrow>
        (let a = addrs ! 0 in
         case de_socket d (local_for a) a of
           Inl e \<Rightarrow> Inl (CannotOpen e)
         | Inr socket \<Rightarrow> Inr (\<lparr> ep_socket = socket, ep_peer = Some a \<rparr>, a)))"

definition udp_connect_active :: "dial_env \<Rightarrow> u64 \<Rightarrow> target_pool
    \<Rightarrow> (target_pool \<times> (dial_error option + udp_session)) option" where
  "udp_connect_active d now_ms p =
     do { (p', r) \<leftarrow> connect_loop pool_pick mark_down (\<lambda>_. Some)
            (\<lambda>t. if de_late d t then Inl DialTimedOut else connect_upstream d t) (pool_len p) None p;
          Some (p', case r of
              Inl e \<Rightarrow> Inl e
            | Inr (i, upstream, target) \<Rightarrow> Inr \<lparr> un_upstream = upstream, un_target = target,
                un_target_index = i, un_last_active = now_ms \<rparr>) }"

definition finish_task :: "nat \<Rightarrow> shard \<Rightarrow> shard" where
  "finish_task k s = s\<lparr> sh_tasks := take k (sh_tasks s) @ drop (Suc k) (sh_tasks s) \<rparr>"

definition move_task :: "nat \<Rightarrow> udp_task \<Rightarrow> shard \<Rightarrow> shard" where
  "move_task k t s = s\<lparr> sh_tasks := (sh_tasks s)[k := t] \<rparr>"

definition forget_peer :: "socket_addr \<Rightarrow> shard \<Rightarrow> shard" where
  "forget_peer peer s = s\<lparr> sh_sessions := AList.delete peer (sh_sessions s) \<rparr>"

definition open_connect :: "dial_env \<Rightarrow> u64 \<Rightarrow> nat \<Rightarrow> socket_addr \<Rightarrow> shard \<Rightarrow> shard option" where
  "open_connect d now_ms k peer s =
     do { (p, r) \<leftarrow> udp_connect_active d now_ms (sh_pool s);
          let s1 = s\<lparr> sh_pool := p \<rparr>;
          Some (case r of
              Inl _ \<Rightarrow> finish_task k (forget_peer peer s1)
            | Inr sess \<Rightarrow> move_task k (Draining peer (length (sh_arena s1)) []) (s1\<lparr> sh_arena := sh_arena s1 @ [sess] \<rparr>)) }"

text \<open>The loop of \<open>open_session\<close>: take what is pending, or open the slot and relay; send a packet taken.\<close>

definition open_drain :: "nat \<Rightarrow> socket_addr \<Rightarrow> nat \<Rightarrow> shard \<Rightarrow> shard" where
  "open_drain k peer i s = (case map_of (sh_sessions s) peer of
      Some (Opening (p # ps)) \<Rightarrow>
        move_task k (Draining peer i (p # ps)) (s\<lparr> sh_sessions := AList.update peer (Opening []) (sh_sessions s) \<rparr>)
    | _ \<Rightarrow> move_task k (Relaying peer i) (s\<lparr> sh_sessions := AList.update peer (Open i) (sh_sessions s) \<rparr>))"

definition open_send :: "udp_env \<Rightarrow> i64 \<Rightarrow> u64 \<Rightarrow> nat \<Rightarrow> socket_addr \<Rightarrow> nat \<Rightarrow> pending \<Rightarrow> pending list \<Rightarrow> shard \<Rightarrow> shard option" where
  "open_send v hour now_ms k peer i packet rest s =
     do { (s1, r) \<leftarrow> forward v hour now_ms i packet s;
          Some (case r of
              Inr _ \<Rightarrow> move_task k (Draining peer i rest) s1
            | Inl _ \<Rightarrow> finish_task k (forget_peer peer s1)) }"

section \<open>Relaying replies\<close>

definition relay_end :: "nat \<Rightarrow> socket_addr \<Rightarrow> nat \<Rightarrow> shard \<Rightarrow> shard" where
  "relay_end k peer i s = finish_task k (remove_open peer i s)"

text \<open>A reply; \<open>pool_ms\<close> is the pool's own clock.\<close>

definition relay_reply :: "udp_env \<Rightarrow> i64 \<Rightarrow> u64 \<Rightarrow> u64 \<Rightarrow> octets \<Rightarrow> nat \<Rightarrow> nat \<Rightarrow> socket_addr \<Rightarrow> nat \<Rightarrow> shard \<Rightarrow> shard option" where
  "relay_reply v hour now_ms pool_ms data stride k peer i s =
     do { p \<leftarrow> confirm pool_ms (un_target_index (sh_arena s ! i)) (sh_pool s);
          let (q, ok) = try_consume_at (word_of_nat (length data)) Download hour (sh_quota s);
          let s1 = s\<lparr> sh_pool := p, sh_quota := q \<rparr>;
          Some (if \<not> ok then relay_end k peer i s1
                else case endpoint_send v (sh_endpoint s1) peer data stride of
                  (_, ds, r) \<Rightarrow>
                    (let s2 = (touch i now_ms s1)\<lparr> sh_sent := sh_sent s1 @ ds \<rparr> in
                     case r of Inr _ \<Rightarrow> s2 | Inl _ \<Rightarrow> relay_end k peer i s2)) }"

datatype upstream_event = Reply octets nat | UpstreamFailed | IdleFired | QuotaDrained | RuleStopped | ActiveMoved

definition relay_turn :: "udp_env \<Rightarrow> i64 \<Rightarrow> u64 \<Rightarrow> u64 \<Rightarrow> upstream_event \<Rightarrow> nat \<Rightarrow> socket_addr \<Rightarrow> nat \<Rightarrow> shard \<Rightarrow> shard option" where
  "relay_turn v hour now_ms pool_ms ev k peer i s =
     (let sess = sh_arena s ! i; ended = relay_end k peer i s in
      case ev of
        Reply data stride \<Rightarrow>
          if length data \<le> RECV_BUF then relay_reply v hour now_ms pool_ms data stride k peer i s else Some s
      | UpstreamFailed \<Rightarrow> Some ended
      | IdleFired \<Rightarrow> Some (if idle_deadline sess s \<le> unat now_ms then ended else s)
      | QuotaDrained \<Rightarrow> Some (if is_exhausted (sh_quota s) then ended else s)
      | RuleStopped \<Rightarrow> Some (if sh_stop s then ended else s)
      | ActiveMoved \<Rightarrow> Some (if tp_active (sh_pool s) \<noteq> un_target_index sess then ended else s))"

section \<open>Turns\<close>

datatype shard_event =
    Stop
  | Receive "(socket_addr \<times> pending) list"
  | DispatchNext
  | SendNow
  | OpenTurn nat dial_env
  | RelayTurn nat upstream_event

text \<open>The receiving loop only receives when the last batch is dispatched and no stop was seen.\<close>

definition receive :: "(socket_addr \<times> pending) list \<Rightarrow> shard \<Rightarrow> shard" where
  "receive packets s =
     (if sh_stop s \<or> sh_batch s \<noteq> [] \<or> sh_sending s \<noteq> None \<or> length packets > RECV_BATCH
         \<or> \<not> list_all (\<lambda>(_, p). length (pd_data p) \<le> RECV_BUF) packets then s
      else if is_exhausted (sh_quota s) then s
      else s\<lparr> sh_batch := packets \<rparr>)"

definition dispatch_next :: "shard \<Rightarrow> shard" where
  "dispatch_next s = (case (sh_sending s, sh_batch s) of
      (None, (peer, packet) # rest) \<Rightarrow> dispatch_lookup peer packet (s\<lparr> sh_batch := rest \<rparr>)
    | _ \<Rightarrow> s)"

definition send_now :: "udp_env \<Rightarrow> i64 \<Rightarrow> u64 \<Rightarrow> shard \<Rightarrow> shard option" where
  "send_now v hour now_ms s = (case sh_sending s of
      None \<Rightarrow> Some s
    | Some (peer, i, packet) \<Rightarrow> dispatch_send v hour now_ms peer i packet (s\<lparr> sh_sending := None \<rparr>))"

definition open_turn :: "udp_env \<Rightarrow> i64 \<Rightarrow> u64 \<Rightarrow> nat \<Rightarrow> dial_env \<Rightarrow> shard \<Rightarrow> shard option" where
  "open_turn v hour now_ms k d s =
     (if length (sh_tasks s) \<le> k then Some s
      else case sh_tasks s ! k of
        Connecting peer \<Rightarrow> open_connect d now_ms k peer s
      | Draining peer i [] \<Rightarrow> Some (open_drain k peer i s)
      | Draining peer i (packet # rest) \<Rightarrow> open_send v hour now_ms k peer i packet rest s
      | Relaying _ _ \<Rightarrow> Some s)"

definition upstream_turn :: "udp_env \<Rightarrow> i64 \<Rightarrow> u64 \<Rightarrow> u64 \<Rightarrow> nat \<Rightarrow> upstream_event \<Rightarrow> shard \<Rightarrow> shard option" where
  "upstream_turn v hour now_ms pool_ms k e s =
     (if length (sh_tasks s) \<le> k then Some s
      else case sh_tasks s ! k of
        Relaying peer i \<Rightarrow> relay_turn v hour now_ms pool_ms e k peer i s
      | _ \<Rightarrow> Some s)"

definition shard_turn :: "udp_env \<Rightarrow> i64 \<Rightarrow> u64 \<Rightarrow> u64 \<Rightarrow> shard_event \<Rightarrow> shard \<Rightarrow> shard option" where
  "shard_turn v hour now_ms pool_ms ev s = (case ev of
      Stop \<Rightarrow> Some (s\<lparr> sh_stop := True \<rparr>)
    | Receive packets \<Rightarrow> Some (receive packets s)
    | DispatchNext \<Rightarrow> Some (dispatch_next s)
    | SendNow \<Rightarrow> send_now v hour now_ms s
    | OpenTurn k d \<Rightarrow> open_turn v hour now_ms k d s
    | RelayTurn k e \<Rightarrow> upstream_turn v hour now_ms pool_ms k e s)"

definition per_shard :: "nat \<Rightarrow> nat \<Rightarrow> nat" where
  "per_shard max_sessions endpoints = (max_sessions + max endpoints 1 - 1) div max endpoints 1"

definition shard_start :: "nat \<Rightarrow> u64 \<Rightarrow> udp_endpoint \<Rightarrow> target_pool \<Rightarrow> user_quota \<Rightarrow> shard" where
  "shard_start max_sessions idle_ms endpoint pool quota =
     \<lparr> sh_endpoint = endpoint, sh_sessions = [], sh_pool = pool, sh_quota = quota, sh_max_sessions = max_sessions,
       sh_idle_timeout = idle_ms, sh_stop = False, sh_arena = [], sh_batch = [], sh_sending = None,
       sh_tasks = [], sh_sent = [] \<rparr>"

definition serve_with_limit :: "udp_endpoint list \<Rightarrow> target_pool \<Rightarrow> user_quota \<Rightarrow> nat \<Rightarrow> u64 \<Rightarrow> shard list" where
  "serve_with_limit endpoints pool quota max_sessions idle_ms =
     map (\<lambda>ep. shard_start (per_shard max_sessions (length endpoints)) idle_ms ep pool quota) endpoints"

text \<open>\<open>serve\<close>; the timeout is in milliseconds.\<close>

definition udp_serve :: "udp_endpoint list \<Rightarrow> target_pool \<Rightarrow> user_quota \<Rightarrow> shard list" where
  "udp_serve endpoints pool quota = serve_with_limit endpoints pool quota MAX_SESSIONS 60000"

end
