(* ===== verification/Traffic.thy ===== *)
theory Traffic
  imports Tcp Udp
begin

text \<open>
  All forwarding tasks side by side (\<open>tcp.rs\<close>, \<open>udp.rs\<close>).  A TCP connection is the state machine of \<open>handle\<close>:
  it dials, then its two copy loops take turns until one of them fails, both end, the quota runs out or the rule
  is stopped.  A copy loop stops at every \<open>await\<close>, so its reads and each of its writes are turns of their own,
  between which any other task may run: on the same quota, which all rules of a user share, on the same
  pool, which TCP and UDP share, and on the idle pipes of the worker thread it happens to run on.
  \<open>copy_counted\<close> of \<open>Tcp\<close> is one such loop on its own.  What a half read and wrote
  is kept for the statements.  An event whose condition does not hold changes nothing; a panic is \<open>None\<close>.
\<close>

section \<open>One direction of a connection\<close>

datatype half_phase = Reading | Writing | Ended copy_status

record half =
  hf_pipe :: "pipe option"
  hf_buffered :: nat
  hf_can_splice :: bool
  hf_chunk :: octets
  hf_phase :: half_phase
  hf_read :: octets
  hf_written :: octets

definition half_start :: half where
  "half_start = \<lparr> hf_pipe = None, hf_buffered = 0, hf_can_splice = True, hf_chunk = [], hf_phase = Reading,
     hf_read = [], hf_written = [] \<rparr>"

text \<open>\<open>Lease::give_back\<close>, and the end of the loop, which drops the lease.\<close>

definition half_give_back :: "half \<Rightarrow> pipe list \<Rightarrow> half \<times> pipe list" where
  "half_give_back h idle =
     (h\<lparr> hf_pipe := None, hf_buffered := 0 \<rparr>,
      case hf_pipe h of
        None \<Rightarrow> idle
      | Some p \<Rightarrow> if hf_buffered h = 0 then pipe_release p idle else idle)"

definition half_end :: "copy_status \<Rightarrow> half \<Rightarrow> pipe list \<Rightarrow> half \<times> pipe list" where
  "half_end st h idle = half_give_back (h\<lparr> hf_phase := Ended st \<rparr>) idle"

definition half_lease :: "nat option \<Rightarrow> half \<Rightarrow> pipe list \<Rightarrow> half \<times> pipe list" where
  "half_lease create h idle =
     (if hf_pipe h = None \<and> hf_can_splice h
      then case pipe_acquire create idle of
        (p, idle') \<Rightarrow> (h\<lparr> hf_pipe := p, hf_can_splice := (p \<noteq> None) \<rparr>, idle')
      else (h, idle))"

text \<open>The bytes a read brings: into the pipe, or into the buffer.\<close>

definition half_fill :: "octets \<Rightarrow> int \<Rightarrow> half \<Rightarrow> half \<times> octets" where
  "half_fill bs psize h = (case hf_pipe h of
      Some p \<Rightarrow>
        (let d = take (pp_capacity p) bs
         in (h\<lparr> hf_pipe := Some (pipe_fill d psize p), hf_buffered := length d, hf_read := hf_read h @ d \<rparr>, d))
    | None \<Rightarrow>
        (let d = take COPY_BUF bs in (h\<lparr> hf_chunk := d, hf_read := hf_read h @ d \<rparr>, d)))"

definition half_read :: "direction \<Rightarrow> nat option \<Rightarrow> read_answer \<Rightarrow> int \<Rightarrow> i64 \<Rightarrow> half \<Rightarrow> pipe list \<Rightarrow> user_quota
    \<Rightarrow> half \<times> pipe list \<times> user_quota" where
  "half_read dir create answer psize hour h idle q =
     (let (h1, idle1) = half_lease create h idle in
      case answer of
        ReadFailed \<Rightarrow> (let (h2, idle2) = half_end Failed h1 idle1 in (h2, idle2, q))
      | WouldBlock \<Rightarrow>
          if hf_pipe h1 = None then (h1, idle1, q)
          else (let (h2, idle2) = half_give_back h1 idle1 in (h2, idle2, q))
      | ReadBytes bs \<Rightarrow>
          (let (h2, d) = half_fill bs psize h1 in
           if d = [] then (let (h3, idle3) = half_end Finished h2 idle1 in (h3, idle3, q))
           else
             let (q1, ok) = try_consume_at (word_of_nat (length d)) dir hour q in
             if ok then (h2\<lparr> hf_phase := Writing \<rparr>, idle1, q1)
             else (let (h3, idle3) = half_end Failed h2 idle1 in (h3, idle3, q1))))"

text \<open>What waits to be written, and one write of at most \<open>k\<close> bytes of it.\<close>

definition pending_bytes :: "half \<Rightarrow> octets" where
  "pending_bytes h = (case hf_pipe h of Some p \<Rightarrow> take (hf_buffered h) (pp_data p) | None \<Rightarrow> hf_chunk h)"

definition half_drain :: "nat \<Rightarrow> half \<Rightarrow> half" where
  "half_drain n h =
     (let w = take n (pending_bytes h); h1 = h\<lparr> hf_written := hf_written h @ w \<rparr> in
      case hf_pipe h of
        Some p \<Rightarrow> h1\<lparr> hf_pipe := Some (p\<lparr> pp_data := drop n (pp_data p) \<rparr>), hf_buffered := hf_buffered h - n \<rparr>
      | None \<Rightarrow> h1\<lparr> hf_chunk := drop n (hf_chunk h) \<rparr>)"

definition half_write :: "write_answer \<Rightarrow> half \<Rightarrow> pipe list \<Rightarrow> half \<times> pipe list" where
  "half_write answer h idle = (case answer of
      SendFailed \<Rightarrow> half_end Failed h idle
    | Sent k \<Rightarrow>
        (let n = min k (length (pending_bytes h)) in
         if n = 0 then half_end Failed h idle
         else
           let h1 = half_drain n h
           in (if pending_bytes h1 = [] then h1\<lparr> hf_phase := Reading \<rparr> else h1, idle)))"

datatype half_event = HalfRead "nat option" read_answer int i64 | HalfWrite write_answer

definition half_turn :: "direction \<Rightarrow> half_event \<Rightarrow> half \<Rightarrow> pipe list \<Rightarrow> user_quota \<Rightarrow> half \<times> pipe list \<times> user_quota" where
  "half_turn dir ev h idle q = (case (hf_phase h, ev) of
      (Reading, HalfRead create answer psize hour) \<Rightarrow> half_read dir create answer psize hour h idle q
    | (Writing, HalfWrite answer) \<Rightarrow> (let (h', idle') = half_write answer h idle in (h', idle', q))
    | _ \<Rightarrow> (h, idle, q))"

section \<open>A connection\<close>

datatype close_reason = NoUpstream | BothEnded | CopyFailed | QuotaRanOut | RuleRemoved

datatype conn_phase = Dialing | Copying | Closed close_reason

record conn =
  cn_phase :: conn_phase
  cn_up :: half
  cn_down :: half

definition conn_start :: conn where
  "conn_start = \<lparr> cn_phase = Dialing, cn_up = half_start, cn_down = half_start \<rparr>"

text \<open>What the tasks of a rule share: the idle pipes of their thread, the user's quota, the pool, the stop signal.\<close>

record scope =
  sc_idle :: "pipe list"
  sc_quota :: user_quota
  sc_pool :: target_pool
  sc_stop :: bool

text \<open>Leaving \<open>select!\<close> drops the loops that still run.\<close>

definition half_drop :: "half \<Rightarrow> pipe list \<Rightarrow> half \<times> pipe list" where
  "half_drop h idle = (case hf_phase h of Ended _ \<Rightarrow> (h, idle) | _ \<Rightarrow> half_end Cancelled h idle)"

definition conn_close :: "close_reason \<Rightarrow> conn \<Rightarrow> scope \<Rightarrow> conn \<times> scope" where
  "conn_close reason c sc =
     (let (u, idle1) = half_drop (cn_up c) (sc_idle sc); (d, idle2) = half_drop (cn_down c) idle1
      in (\<lparr> cn_phase = Closed reason, cn_up = u, cn_down = d \<rparr>, sc\<lparr> sc_idle := idle2 \<rparr>))"

text \<open>\<open>try_join!\<close>: the first error ends both, otherwise both must end.\<close>

definition conn_join :: "conn \<Rightarrow> scope \<Rightarrow> conn \<times> scope" where
  "conn_join c sc =
     (if hf_phase (cn_up c) = Ended Failed \<or> hf_phase (cn_down c) = Ended Failed then conn_close CopyFailed c sc
      else if hf_phase (cn_up c) = Ended Finished \<and> hf_phase (cn_down c) = Ended Finished then conn_close BothEnded c sc
      else (c, sc))"

definition conn_copy :: "direction \<Rightarrow> half_event \<Rightarrow> conn \<Rightarrow> scope \<Rightarrow> conn \<times> scope" where
  "conn_copy dir ev c sc = (case dir of
      Upload \<Rightarrow> (let (h, idle, q) = half_turn Upload ev (cn_up c) (sc_idle sc) (sc_quota sc)
        in conn_join (c\<lparr> cn_up := h \<rparr>) (sc\<lparr> sc_idle := idle, sc_quota := q \<rparr>))
    | Download \<Rightarrow> (let (h, idle, q) = half_turn Download ev (cn_down c) (sc_idle sc) (sc_quota sc)
        in conn_join (c\<lparr> cn_down := h \<rparr>) (sc\<lparr> sc_idle := idle, sc_quota := q \<rparr>)))"

definition conn_dial :: "(string \<Rightarrow> string + unit) \<Rightarrow> u64 \<Rightarrow> conn \<Rightarrow> scope \<Rightarrow> (conn \<times> scope) option" where
  "conn_dial dial now_ms c sc =
     do { (p, r) \<leftarrow> tcp_connect_active dial now_ms (sc_pool sc);
          let sc1 = sc\<lparr> sc_pool := p \<rparr>;
          Some (case r of
              Inl _ \<Rightarrow> (c\<lparr> cn_phase := Closed NoUpstream \<rparr>, sc1)
            | Inr _ \<Rightarrow> (c\<lparr> cn_phase := Copying \<rparr>, sc1)) }"

datatype conn_event =
    ConnDial "string \<Rightarrow> string + unit" u64
  | ConnCopy direction half_event
  | ConnQuotaOut
  | ConnStopped

text \<open>The two \<open>select!\<close>s of \<open>handle\<close>: each event is one of their branches becoming ready.\<close>

definition conn_turn :: "conn_event \<Rightarrow> conn \<Rightarrow> scope \<Rightarrow> (conn \<times> scope) option" where
  "conn_turn ev c sc = (case cn_phase c of
      Dialing \<Rightarrow>
        (case ev of
           ConnDial dial now_ms \<Rightarrow> conn_dial dial now_ms c sc
         | ConnStopped \<Rightarrow> Some (if sc_stop sc then (c\<lparr> cn_phase := Closed RuleRemoved \<rparr>, sc) else (c, sc))
         | _ \<Rightarrow> Some (c, sc))
    | Copying \<Rightarrow>
        (case ev of
           ConnCopy dir e \<Rightarrow> Some (conn_copy dir e c sc)
         | ConnQuotaOut \<Rightarrow> Some (if q_exhausted (sc_quota sc) then conn_close QuotaRanOut c sc else (c, sc))
         | ConnStopped \<Rightarrow> Some (if sc_stop sc then conn_close RuleRemoved c sc else (c, sc))
         | ConnDial _ _ \<Rightarrow> Some (c, sc))
    | Closed _ \<Rightarrow> Some (c, sc))"

section \<open>A rule\<close>

record rule_io =
  ru_quota :: nat
  ru_tcp :: bool
  ru_pool :: target_pool
  ru_stop :: bool
  ru_conns :: "conn list"
  ru_shards :: "shard list"

definition tcp_accept :: "accept_result \<Rightarrow> user_quota \<Rightarrow> rule_io \<Rightarrow> rule_io" where
  "tcp_accept r q ru =
     (if ru_stop ru \<or> \<not> ru_tcp ru then ru
      else case serve_accept r q of
        Spawn \<Rightarrow> ru\<lparr> ru_conns := ru_conns ru @ [conn_start] \<rparr>
      | _ \<Rightarrow> ru)"

definition scope_of :: "rule_io \<Rightarrow> pipe list \<Rightarrow> user_quota \<Rightarrow> scope" where
  "scope_of ru idle q = \<lparr> sc_idle = idle, sc_quota = q, sc_pool = ru_pool ru, sc_stop = ru_stop ru \<rparr>"

text \<open>One of the tasks of a list takes a turn.\<close>

definition nth_turn :: "('s \<Rightarrow> scope \<Rightarrow> ('s \<times> scope) option) \<Rightarrow> nat \<Rightarrow> 's list \<Rightarrow> scope \<Rightarrow> ('s list \<times> scope) option" where
  "nth_turn turn k ss sc =
     (if length ss \<le> k then Some (ss, sc)
      else do { (s, sc') \<leftarrow> turn (ss ! k) sc; Some (ss[k := s], sc') })"

definition tcp_turn :: "nat \<Rightarrow> conn_event \<Rightarrow> rule_io \<Rightarrow> pipe list \<Rightarrow> user_quota \<Rightarrow> (rule_io \<times> pipe list \<times> user_quota) option" where
  "tcp_turn k ev ru idle q =
     do { (cs, sc) \<leftarrow> nth_turn (conn_turn ev) k (ru_conns ru) (scope_of ru idle q);
          Some (ru\<lparr> ru_conns := cs, ru_pool := sc_pool sc \<rparr>, sc_idle sc, sc_quota sc) }"

text \<open>A shard holds the shared pool, quota and stop signal by reference: it sees what the others made of them.\<close>

datatype udp_input = UdpInput udp_env i64 u64 u64 shard_event

fun shard_task :: "udp_input \<Rightarrow> shard \<Rightarrow> scope \<Rightarrow> (shard \<times> scope) option" where
  "shard_task (UdpInput v hour now_ms pool_ms ev) s sc =
     do { s' \<leftarrow> shard_turn v hour now_ms pool_ms ev
            (s\<lparr> sh_pool := sc_pool sc, sh_quota := sc_quota sc, sh_stop := sc_stop sc \<rparr>);
          Some (s', sc\<lparr> sc_pool := sh_pool s', sc_quota := sh_quota s' \<rparr>) }"

definition udp_turn :: "nat \<Rightarrow> udp_input \<Rightarrow> rule_io \<Rightarrow> pipe list \<Rightarrow> user_quota \<Rightarrow> (rule_io \<times> pipe list \<times> user_quota) option" where
  "udp_turn k ev ru idle q =
     do { (ss, sc) \<leftarrow> nth_turn (shard_task ev) k (ru_shards ru) (scope_of ru idle q);
          Some (ru\<lparr> ru_shards := ss, ru_pool := sc_pool sc \<rparr>, sc_idle sc, sc_quota sc) }"

text \<open>What probes and re-arming tasks do to the pool; a probe is only started for one of its targets.\<close>

datatype pool_event = ProbeDone nat bool u64 | Rearmed nat

definition pool_turn :: "pool_event \<Rightarrow> target_pool \<Rightarrow> target_pool option" where
  "pool_turn ev p = (case ev of
      ProbeDone i up now_ms \<Rightarrow> if pool_len p \<le> i then Some p else if up then confirm now_ms i p else mark_down i p
    | Rearmed i \<Rightarrow> if i \<in> set (tp_timers p) then timer_fires i p else Some p)"

datatype rule_event =
    RuleStop
  | TcpAccept accept_result
  | TcpTurn nat conn_event
  | UdpTurn nat udp_input
  | PoolTurn pool_event

definition rule_turn :: "rule_event \<Rightarrow> rule_io \<Rightarrow> pipe list \<Rightarrow> user_quota \<Rightarrow> (rule_io \<times> pipe list \<times> user_quota) option" where
  "rule_turn ev ru idle q = (case ev of
      RuleStop \<Rightarrow> Some (ru\<lparr> ru_stop := True \<rparr>, idle, q)
    | TcpAccept r \<Rightarrow> Some (tcp_accept r q ru, idle, q)
    | TcpTurn k e \<Rightarrow> tcp_turn k e ru idle q
    | UdpTurn k e \<Rightarrow> udp_turn k e ru idle q
    | PoolTurn e \<Rightarrow> do { p \<leftarrow> pool_turn e (ru_pool ru); Some (ru\<lparr> ru_pool := p \<rparr>, idle, q) })"

section \<open>The node\<close>

record node =
  nd_quotas :: "user_quota list"
  nd_idle :: "pipe list list"
  nd_rules :: "rule_io list"

definition node_start :: "user_quota list \<Rightarrow> nat \<Rightarrow> node" where
  "node_start quotas threads = \<lparr> nd_quotas = quotas, nd_idle = replicate threads [], nd_rules = [] \<rparr>"

text \<open>The tasks that a started rule runs for the user whose quota is the \<open>u\<close>-th: \<open>tcp\<close> says whether it listens.\<close>

definition forward_rule :: "nat \<Rightarrow> bool \<Rightarrow> target_pool \<Rightarrow> udp_endpoint list \<Rightarrow> user_quota \<Rightarrow> rule_io" where
  "forward_rule u tcp p eps q = \<lparr> ru_quota = u, ru_tcp = tcp, ru_pool = p, ru_stop = False, ru_conns = [],
     ru_shards = udp_serve eps p q \<rparr>"

definition start_forwarding :: "nat \<Rightarrow> bool \<Rightarrow> string list \<Rightarrow> u64 option \<Rightarrow> udp_endpoint list \<Rightarrow> user_quota \<Rightarrow> rule_io option" where
  "start_forwarding u tcp targets cooldown eps q =
     do { p \<leftarrow> pool_new (q_name q) targets cooldown;
          Some (forward_rule u tcp p eps q) }"

text \<open>What the engine, a reload and the hour do to an account while tasks run.\<close>

datatype quota_event = HourPassed i64 | LimitSet "u64 option" | MeteringSet metering

definition quota_turn :: "quota_event \<Rightarrow> user_quota \<Rightarrow> user_quota" where
  "quota_turn ev q = (case ev of
      HourPassed h \<Rightarrow> roll_over_at h q
    | LimitSet l \<Rightarrow> set_limit l q
    | MeteringSet m \<Rightarrow> set_metering m q)"

datatype node_event =
    RuleStarted nat bool "string list" "u64 option" "udp_endpoint list"
  | QuotaTurn nat quota_event
  | RuleTurn nat nat rule_event

text \<open>\<open>RuleTurn i w e\<close>: a task of the \<open>i\<close>-th rule runs on the \<open>w\<close>-th worker thread.\<close>

definition node_turn :: "node_event \<Rightarrow> node \<Rightarrow> node option" where
  "node_turn ev n = (case ev of
      RuleStarted u tcp targets cooldown eps \<Rightarrow>
        if length (nd_quotas n) \<le> u then Some n
        else do { ru \<leftarrow> start_forwarding u tcp targets cooldown eps (nd_quotas n ! u);
                  Some (n\<lparr> nd_rules := nd_rules n @ [ru] \<rparr>) }
    | QuotaTurn u e \<Rightarrow> Some (n\<lparr> nd_quotas := (nd_quotas n)[u := quota_turn e (nd_quotas n ! u)] \<rparr>)
    | RuleTurn i w e \<Rightarrow>
        if length (nd_rules n) \<le> i \<or> length (nd_idle n) \<le> w then Some n
        else do {
          let u = ru_quota (nd_rules n ! i);
          (ru, idle, q) \<leftarrow> rule_turn e (nd_rules n ! i) (nd_idle n ! w) (nd_quotas n ! u);
          Some (n\<lparr> nd_rules := (nd_rules n)[i := ru], nd_idle := (nd_idle n)[w := idle],
                    nd_quotas := (nd_quotas n)[u := q] \<rparr>) })"

fun node_run :: "node_event list \<Rightarrow> node \<Rightarrow> node option" where
  "node_run [] n = Some n"
| "node_run (ev # evs) n = Option.bind (node_turn ev n) (node_run evs)"

end
