(* ===== verification/Program.thy ===== *)
theory Program
  imports Control Traffic
begin

text \<open>
  The whole process (\<open>main.rs\<close>, with the tasks it and \<open>Runtime::apply\<close> spawn): its arguments, the start, and a state in
  which the main loop, the accounting engine, the flush task and all forwarding tasks take turns.  The accounts of
  \<open>Traffic\<close> are the quotas of the world, and the pools of its rules are the pools of the runtime: a rule that \<open>apply\<close>
  has started gets its tasks, a rule that it dropped is told to stop, and may still take turns until it
  notices.  An \<open>apply\<close> is one turn.  The process ends with the last flush, whose result is the
  database as it is after a power failure.
\<close>

section \<open>Arguments and limits\<close>

record args =
  ag_config :: string
  ag_dir :: "string option"
  ag_no_reload :: bool

record rlimit =
  rl_cur :: u64
  rl_max :: u64

text \<open>The flags say whether \<open>getrlimit\<close> and \<open>setrlimit\<close> succeed.\<close>

definition raise_nofile_limit :: "bool \<Rightarrow> bool \<Rightarrow> rlimit \<Rightarrow> rlimit" where
  "raise_nofile_limit get_ok set_ok limit =
     (if \<not> get_ok \<or> rl_cur limit \<ge> rl_max limit then limit
      else if set_ok then limit\<lparr> rl_cur := rl_max limit \<rparr> else limit)"

text \<open>What the process finds: a change of directory that fails says why, a file is read or not, and
  \<open>mc_sockets i\<close> are the sockets of the shards of the \<open>i\<close>-th pool.\<close>

record machine =
  mc_chdir :: "string \<Rightarrow> string option"
  mc_getrlimit :: bool
  mc_setrlimit :: bool
  mc_nofile :: rlimit
  mc_read :: "string \<Rightarrow> string + string"
  mc_boot :: boot_env
  mc_sockets :: "nat \<Rightarrow> nat list"
  mc_threads :: nat

datatype start_error = CannotChdir string | CannotRead string | NotBooted boot_error

section \<open>The tasks of the rules\<close>

record program =
  pg_control :: control
  pg_engine :: run_state
  pg_engine_on :: bool
  pg_rules :: "rule_io list"
  pg_idle :: "pipe list list"
  pg_watching :: bool
  pg_nofile :: rlimit

abbreviation pg_world :: "program \<Rightarrow> world" where
  "pg_world p \<equiv> ct_world (pg_control p)"

definition fresh_endpoints :: "nat list \<Rightarrow> udp_endpoint list" where
  "fresh_endpoints = map (\<lambda>s. \<lparr> ep_socket = s, ep_peer = None \<rparr>)"

definition spawn_rule :: "(nat \<Rightarrow> nat list) \<Rightarrow> control \<Rightarrow> rule_spec \<times> running_rule \<Rightarrow> rule_io option" where
  "spawn_rule sockets c x =
     (let (spec, rule) = x; w = ct_world c in
      do { u \<leftarrow> us_get (wd_users w) (sp_user spec);
           Some (forward_rule u (rr_tcp rule \<noteq> None) (rt_pool_store (ct_runtime c) ! rr_pool rule)
             (if rr_udp rule = None then [] else fresh_endpoints (sockets (rr_pool rule))) (wd_store w ! u)) })"

text \<open>The stop signal of a rule fires when its \<open>RunningRule\<close> is dropped.\<close>

definition retire :: "runtime \<Rightarrow> nat \<times> rule_io \<Rightarrow> rule_io" where
  "retire rt x = (let (i, ru) = x in
     if i \<in> set (map (rr_pool \<circ> snd) (rt_rules rt)) then ru else ru\<lparr> ru_stop := True \<rparr>)"

definition respawn :: "(nat \<Rightarrow> nat list) \<Rightarrow> control \<Rightarrow> rule_io list \<Rightarrow> rule_io list option" where
  "respawn sockets c rules =
     (let rt = ct_runtime c; fresh = filter (\<lambda>(_, rule). length rules \<le> rr_pool rule) (rt_rules rt) in
      do { new \<leftarrow> those (map (spawn_rule sockets c) fresh);
           Some (map (retire rt) (enumerate 0 rules) @ new) })"

section \<open>Starting\<close>

definition program_start :: "machine \<Rightarrow> args \<Rightarrow> (start_error + program) option" where
  "program_start m a =
     (case Option.bind (ag_dir a) (mc_chdir m) of
        Some e \<Rightarrow> Some (Inl (CannotChdir e))
      | None \<Rightarrow>
          (let limit = raise_nofile_limit (mc_getrlimit m) (mc_setrlimit m) (mc_nofile m) in
           case mc_read m (ag_config a) of
             Inl e \<Rightarrow> Some (Inl (CannotRead e))
           | Inr raw \<Rightarrow>
               do { r \<leftarrow> boot (mc_boot m) (ag_config a) raw;
                    case r of
                      Inl e \<Rightarrow> Some (Inl (NotBooted e))
                    | Inr (c, rs) \<Rightarrow>
                        do { rules \<leftarrow> respawn (mc_sockets m) c [];
                             Some (Inr \<lparr> pg_control = c, pg_engine = rs, pg_engine_on = True, pg_rules = rules,
                               pg_idle = replicate (mc_threads m) [], pg_watching = \<not> ag_no_reload a,
                               pg_nofile = limit \<rparr>) } }))"

section \<open>Running\<close>

text \<open>A turn of the main loop, with the sockets of the rules it starts; of the engine, with the world in which its sync
  began; of the flush task, and whether the hour has passed; of a task of the \<open>i\<close>-th rule on the \<open>w\<close>-th thread;
  and a request of the API, which brings an account to the hour.\<close>

datatype program_event =
    MainLoop control_env "nat \<Rightarrow> nat list" control_event
  | EngineTask env engine_event world
  | FlushTask faults bool
  | Forward nat nat rule_event
  | AccountRead nat i64

definition user_quotas :: "world \<Rightarrow> user_quota list" where
  "user_quotas w = map (\<lambda>r. wd_store w ! r) (us_ordered (wd_users w))"

definition with_world :: "world \<Rightarrow> program \<Rightarrow> program" where
  "with_world w p = p\<lparr> pg_control := (pg_control p)\<lparr> ct_world := w \<rparr> \<rparr>"

definition node_of :: "program \<Rightarrow> node" where
  "node_of p = \<lparr> nd_quotas = wd_store (pg_world p), nd_idle = pg_idle p, nd_rules = pg_rules p \<rparr>"

definition with_node :: "node \<Rightarrow> program \<Rightarrow> program" where
  "with_node n p =
     (let c = pg_control p in
      p\<lparr> pg_control := c\<lparr> ct_world := (ct_world c)\<lparr> wd_store := nd_quotas n \<rparr>,
           ct_runtime := (ct_runtime c)\<lparr> rt_pool_store := map ru_pool (nd_rules n) \<rparr> \<rparr>,
         pg_idle := nd_idle n, pg_rules := nd_rules n \<rparr>)"

definition flush_world :: "driver \<Rightarrow> faults \<Rightarrow> wake \<Rightarrow> world \<Rightarrow> world" where
  "flush_world dr fail wk w = w\<lparr> wd_db := map_option (flush_turn dr fail wk (user_quotas w)) (wd_db w) \<rparr>"

definition main_turn :: "control_env \<Rightarrow> (nat \<Rightarrow> nat list) \<Rightarrow> control_event \<Rightarrow> program \<Rightarrow> program option" where
  "main_turn v sockets e p =
     do { (c, _) \<leftarrow> control_turn v e (pg_control p);
          rules \<leftarrow> respawn sockets c (pg_rules p);
          Some (p\<lparr> pg_control := c, pg_rules := rules \<rparr>) }"

definition program_turn :: "driver \<Rightarrow> program_event \<Rightarrow> program \<Rightarrow> program option" where
  "program_turn dr ev p = (case ev of
      MainLoop v sockets e \<Rightarrow>
        (case e of
           FileChanged _ \<Rightarrow> if pg_watching p then main_turn v sockets e p else Some p
         | SaveRequested _ \<Rightarrow> main_turn v sockets e p)
    | EngineTask v e w0 \<Rightarrow>
        if \<not> pg_engine_on p then Some p
        else do { (w, rs, _, stop) \<leftarrow> engine_turn v e w0 (pg_world p) (pg_engine p);
                  Some ((with_world w p)\<lparr> pg_engine := rs, pg_engine_on := \<not> stop \<rparr>) }
    | FlushTask fail hour \<Rightarrow>
        Some (with_world (flush_world dr fail (if hour then wake.HourPassed else Tick) (pg_world p)) p)
    | Forward i w e \<Rightarrow> do { n \<leftarrow> node_turn (RuleTurn i w e) (node_of p); Some (with_node n p) }
    | AccountRead r hour \<Rightarrow>
        (let w = pg_world p in Some (with_world (w\<lparr> wd_store := on_quota r (roll_over_at hour) (wd_store w) \<rparr>) p)))"

section \<open>Ending\<close>

datatype exit_code = ExitSuccess | ExitFailure

text \<open>The last flush, and what of the database is on the disk after it.\<close>

definition shut_down :: "driver \<Rightarrow> faults \<Rightarrow> program \<Rightarrow> disk option" where
  "shut_down dr fail p = map_option sd_durable (wd_db (flush_world dr fail Shutdown (pg_world p)))"

fun program_turns :: "driver \<Rightarrow> program_event list \<Rightarrow> program \<Rightarrow> program option" where
  "program_turns dr [] p = Some p"
| "program_turns dr (ev # evs) p = do { p1 \<leftarrow> program_turn dr ev p; program_turns dr evs p1 }"

definition program_main :: "machine \<Rightarrow> args \<Rightarrow> driver \<Rightarrow> program_event list \<Rightarrow> faults \<Rightarrow> (exit_code \<times> disk option) option" where
  "program_main m a dr evs fail =
     do { r \<leftarrow> program_start m a;
          case r of
            Inl _ \<Rightarrow> Some (ExitFailure, None)
          | Inr p \<Rightarrow> do { p1 \<leftarrow> program_turns dr evs p; Some (ExitSuccess, shut_down dr fail p1) } }"

end
