(* ===== verification/Copy_Props.thy ===== *)
theory Copy_Props
  imports Traffic
begin

text \<open>
  One direction of a TCP connection: its invariant, under which a pipe or buffer holds exactly what was read and
  not yet written, what a turn does to the account, and that the loop cut at its awaits is \<open>copy_counted\<close> when it
  runs on its own.
\<close>

section \<open>One half\<close>

text \<open>What a pipe or buffer holds is what was read and is not yet written.\<close>

definition half_ok :: "half \<Rightarrow> bool" where
  "half_ok h \<longleftrightarrow>
     (case hf_pipe h of None \<Rightarrow> hf_buffered h = 0
      | Some p \<Rightarrow> length (pp_data p) = hf_buffered h \<and> hf_chunk h = [])
     \<and> (case hf_phase h of
          Reading \<Rightarrow> pending_bytes h = [] \<and> hf_written h = hf_read h
        | Writing \<Rightarrow> hf_read h = hf_written h @ pending_bytes h
        | Ended st \<Rightarrow> hf_pipe h = None \<and> prefix (hf_written h) (hf_read h)
            \<and> (st = Finished \<longrightarrow> hf_written h = hf_read h))"

text \<open>The bytes of a half that are paid for: all it read, or what it wrote before it ended.\<close>

definition half_paid :: "half \<Rightarrow> nat" where
  "half_paid h = (case hf_phase h of Ended _ \<Rightarrow> length (hf_written h) | _ \<Rightarrow> length (hf_read h))"

definition half_fine :: "nat \<Rightarrow> half \<Rightarrow> user_quota \<Rightarrow> half \<times> pipe list \<times> user_quota \<Rightarrow> bool" where
  "half_fine b h q r \<longleftrightarrow> (case r of (h', idle', q') \<Rightarrow>
     half_ok h' \<and> idle_empty idle' \<and> (\<exists>k. consumed b k q q' \<and> half_paid h' \<le> half_paid h + k))"

lemma half_fineI [intro]:
  "half_ok h' \<Longrightarrow> idle_empty idle' \<Longrightarrow> consumed b k q q' \<Longrightarrow> half_paid h' \<le> half_paid h + k
     \<Longrightarrow> half_fine b h q (h', idle', q')"
  by (auto simp: half_fine_def)

lemma half_start_ok [simp]: "half_ok half_start" "half_paid half_start = 0" "hf_pipe half_start = None"
  by (simp_all add: half_start_def half_ok_def half_paid_def pending_bytes_def)

lemma idle_empty_release: "idle_empty idle \<Longrightarrow> pp_data p = [] \<Longrightarrow> idle_empty (pipe_release p idle)"
  by (auto simp: idle_empty_def pipe_release_def)

lemma pending_pipe: "half_ok h \<Longrightarrow> hf_pipe h = Some p \<Longrightarrow> pending_bytes h = pp_data p"
  by (auto simp: half_ok_def pending_bytes_def)

lemma half_give_back_idle:
  "idle_empty idle \<Longrightarrow> half_ok h \<Longrightarrow> idle_empty (snd (half_give_back h idle))"
  by (auto simp: half_give_back_def half_ok_def split: option.splits intro!: idle_empty_release)

lemma half_end_ok:
  assumes "idle_empty idle" "half_ok h" "\<forall>st. hf_phase h \<noteq> Ended st" "st = Finished \<longrightarrow> hf_written h = hf_read h"
    "half_end st h idle = (h', idle')"
  shows "half_ok h'" "idle_empty idle'" "half_paid h' \<le> half_paid h" "hf_pipe h' = None"
    "hf_phase h' = Ended st"
proof -
  have "prefix (hf_written h) (hf_read h)"
    using assms(2,3) by (auto simp: half_ok_def split: half_phase.splits)
  moreover from this have "length (hf_written h) \<le> length (hf_read h)" by (rule prefix_length_le)
  moreover have "idle_empty idle'"
    using half_give_back_idle [OF assms(1,2)] assms(5) by (auto simp: half_end_def half_give_back_def split: option.splits)
  ultimately show "half_ok h'" "idle_empty idle'" "half_paid h' \<le> half_paid h" "hf_pipe h' = None" "hf_phase h' = Ended st"
    using assms(3-5) by (auto simp: half_end_def half_give_back_def half_ok_def half_paid_def split: half_phase.splits)
qed

lemma half_lease_ok:
  assumes "half_ok h" "hf_phase h = Reading" "idle_empty idle" "half_lease create h idle = (h', idle')"
  shows "half_ok h'" "hf_phase h' = Reading" "idle_empty idle'" "half_paid h' = half_paid h"
proof -
  have "pp_data (last idle) = []" "idle_empty (butlast idle)" if "idle \<noteq> []"
    using that assms(3) by (auto simp: idle_empty_def dest: in_set_butlastD)
  with assms show "half_ok h'" "hf_phase h' = Reading" "idle_empty idle'" "half_paid h' = half_paid h"
    by (auto simp: half_lease_def pipe_acquire_def pipe_create_def half_ok_def half_paid_def pending_bytes_def idle_empty_def
        split: if_splits option.splits)
qed

lemma take_min_length [simp]: "take (min (length xs) n) xs = take n xs"
  by (simp add: min_def)

lemma half_fill_ok:
  assumes "half_ok h" "hf_phase h = Reading" "half_fill bs psize h = (h', d)"
  shows "half_ok (h'\<lparr> hf_phase := Writing \<rparr>)" "hf_phase h' = Reading" "length d \<le> length bs"
    "hf_read h' = hf_read h @ d" "hf_written h' = hf_written h" "d = [] \<Longrightarrow> half_ok h'"
  using assms by (auto simp: half_fill_def half_ok_def pending_bytes_def Let_def split: option.splits)

lemma half_read_ok:
  assumes "half_ok h" "hf_phase h = Reading" "idle_empty idle"
  shows "half_fine (case answer of ReadBytes bs \<Rightarrow> length bs | _ \<Rightarrow> 0) h q (half_read dir create answer psize hour h idle q)"
proof -
  obtain h1 idle1 where lease: "half_lease create h idle = (h1, idle1)" by fastforce
  note h1 = half_lease_ok [OF assms lease]
  have going: "\<forall>st. hf_phase h1 \<noteq> Ended st" using h1(2) by simp
  have same: "hf_written h1 = hf_read h1" using h1(1,2) by (simp add: half_ok_def)
  show ?thesis
  proof (cases answer)
    case WouldBlock
    have "half_ok (h1\<lparr> hf_pipe := None, hf_buffered := 0 \<rparr>)" if "hf_pipe h1 \<noteq> None"
      using that h1(1,2) by (auto simp: half_ok_def pending_bytes_def)
    with WouldBlock lease h1 half_give_back_idle [OF h1(3,1)] show ?thesis
      by (auto simp: half_read_def half_give_back_def half_paid_def half_fine_def intro!: exI [of _ 0])
  next
    case ReadFailed
    obtain h2 idle2 where e: "half_end Failed h1 idle1 = (h2, idle2)" by fastforce
    with ReadFailed lease h1 half_end_ok [OF h1(3,1) going _ e] show ?thesis
      by (auto simp: half_read_def intro!: half_fineI [where k = 0])
  next
    case (ReadBytes bs)
    obtain h2 d where fill: "half_fill bs psize h1 = (h2, d)" by fastforce
    note h2 = half_fill_ok [OF h1(1,2) fill]
    obtain q1 ok where consume: "try_consume_at (word_of_nat (length d)) dir hour q = (q1, ok)" by fastforce
    have counts: "consumed (length bs) (if ok then length d else 0) q q1"
      by (rule consumed_mono [OF try_consume_consumed [OF consume] h2(3) order_refl])
    show ?thesis
    proof (cases "d = []")
      case True
      obtain h3 idle3 where e: "half_end Finished h2 idle1 = (h3, idle3)" by fastforce
      have "half_paid h3 \<le> half_paid h"
        using half_end_ok(3) [OF h1(3) h2(6) [OF True] _ _ e] h1(2,4) h2 same True by (simp add: half_paid_def)
      with ReadBytes lease fill True e half_end_ok [OF h1(3) h2(6) [OF True] _ _ e] h2 same show ?thesis
        by (auto simp: half_read_def intro!: half_fineI [where k = 0])
    next
      case False
      note run = ReadBytes lease fill consume False
      show ?thesis
      proof (cases ok)
        case True
        have "half_paid (h2\<lparr> hf_phase := Writing \<rparr>) \<le> half_paid h + length d"
          using h1(2,4) h2 by (simp add: half_paid_def)
        with run True h2(1) h1(3) counts show ?thesis
          by (auto simp: half_read_def intro!: half_fineI [where k = "length d"])
      next
        case refused: False
        let ?h = "h2\<lparr> hf_phase := Writing \<rparr>"
        obtain h3 idle3 where e: "half_end Failed h2 idle1 = (h3, idle3)" by fastforce
        then have e': "half_end Failed ?h idle1 = (h3, idle3)" by (simp add: half_end_def half_give_back_def)
        note h3 = half_end_ok [OF h1(3) h2(1) _ _ e']
        have "hf_written h3 = hf_written h2" using e by (auto simp: half_end_def half_give_back_def)
        then have "half_paid h3 \<le> half_paid h"
          using h3 h2(5) same h1(2,4) by (simp add: half_paid_def)
        with run refused e h3 counts show ?thesis
          by (auto simp: half_read_def intro!: half_fineI [where k = 0])
      qed
    qed
  qed
qed

lemma half_drain_ok:
  assumes "half_ok h" "hf_phase h = Writing" "n \<le> length (pending_bytes h)"
  shows "half_ok (half_drain n h)" "hf_phase (half_drain n h) = Writing" "hf_read (half_drain n h) = hf_read h"
  using assms by (auto simp: half_drain_def half_ok_def pending_bytes_def Let_def split: option.splits)

lemma half_write_ok:
  assumes "half_ok h" "hf_phase h = Writing" "idle_empty idle" "half_write answer h idle = (h', idle')"
  shows "half_ok h' \<and> idle_empty idle' \<and> half_paid h' \<le> half_paid h"
proof (cases "\<exists>k. answer = Sent k \<and> 0 < min k (length (pending_bytes h))")
  case True
  then obtain k where k: "answer = Sent k" "0 < min k (length (pending_bytes h))" by blast
  let ?n = "min k (length (pending_bytes h))"
  note d = half_drain_ok [OF assms(1,2), of ?n]
  have ready: "half_ok (x\<lparr> hf_phase := Reading \<rparr>)" if "half_ok x" "hf_phase x = Writing" "pending_bytes x = []" for x
    using that by (auto simp: half_ok_def pending_bytes_def split: option.splits)
  have "half_paid (half_drain ?n h) = half_paid h" "half_paid ((half_drain ?n h)\<lparr> hf_phase := Reading \<rparr>) = half_paid h"
    using d(2,3) assms(2) by (simp_all add: half_paid_def)
  with assms(3,4) k d(1,2) ready [of "half_drain ?n h"] show ?thesis
    by (auto simp: half_write_def Let_def split: if_splits)
next
  case False
  then have "half_end Failed h idle = (h', idle')"
    using assms(4) by (auto simp: half_write_def Let_def split: write_answer.splits)
  with half_end_ok [OF assms(3,1) _ _ this] assms(2) show ?thesis by simp
qed

definition half_bytes :: "half_event \<Rightarrow> nat" where
  "half_bytes ev = (case ev of HalfRead _ (ReadBytes bs) _ _ \<Rightarrow> length bs | _ \<Rightarrow> 0)"

lemma half_turn_ok:
  assumes "half_ok h" "idle_empty idle"
  shows "half_fine (half_bytes ev) h q (half_turn dir ev h idle q)"
proof -
  have still: "half_fine (half_bytes ev) h q (h, idle, q)"
    using assms by (intro half_fineI [where k = 0]) (auto intro: consumed_mono)
  show ?thesis
  proof (cases ev)
    case (HalfRead create answer psize hour)
    with half_read_ok [OF assms(1) _ assms(2), of answer q dir create psize hour] still show ?thesis
      by (cases "hf_phase h") (simp_all add: half_turn_def half_bytes_def)
  next
    case (HalfWrite answer)
    obtain h' idle' where w: "half_write answer h idle = (h', idle')" by fastforce
    have "half_fine (half_bytes ev) h q (h', idle', q)" if "hf_phase h = Writing"
      using half_write_ok [OF assms(1) that assms(2) w] by (intro half_fineI [where k = 0]) (auto simp: half_bytes_def HalfWrite)
    with HalfWrite w still show ?thesis by (cases "hf_phase h") (simp_all add: half_turn_def)
  qed
qed

section \<open>A loop on its own\<close>

text \<open>What \<open>copy_counted\<close> sees of a half, and the events that one of its turns stands for.\<close>

definition copy_view :: "half \<Rightarrow> pipe list \<Rightarrow> user_quota \<Rightarrow> copy_state" where
  "copy_view h idle q = \<lparr> cp_pipe = hf_pipe h, cp_buffered = hf_buffered h, cp_can_splice = hf_can_splice h,
     cp_idle = idle, cp_quota = q, cp_written = hf_written h \<rparr>"

fun half_steps :: "direction \<Rightarrow> half_event list \<Rightarrow> half \<times> pipe list \<times> user_quota \<Rightarrow> half \<times> pipe list \<times> user_quota" where
  "half_steps dir [] x = x"
| "half_steps dir (ev # evs) (h, idle, q) = half_steps dir evs (half_turn dir ev h idle q)"

definition turn_events :: "turn \<Rightarrow> half_event list" where
  "turn_events t = HalfRead (tn_create t) (tn_read t) (tn_size t) (tn_hour t) # map HalfWrite (tn_writes t)"

fun half_loop :: "direction \<Rightarrow> turn list \<Rightarrow> half \<times> pipe list \<times> user_quota \<Rightarrow> half \<times> pipe list \<times> user_quota" where
  "half_loop dir [] (h, idle, q) = (let (h', idle') = half_drop h idle in (h', idle', q))"
| "half_loop dir (t # ts) x = (case half_steps dir (turn_events t) x of (h, idle, q) \<Rightarrow>
     if hf_phase h = Reading then half_loop dir ts (h, idle, q)
     else (let (h', idle') = half_drop h idle in (h', idle', q)))"

lemma half_steps_ok:
  assumes "half_ok h" "idle_empty idle"
  shows "case half_steps dir evs (h, idle, q) of (h', idle', q') \<Rightarrow> half_ok h' \<and> idle_empty idle'"
  using assms
proof (induction evs arbitrary: h idle q)
  case (Cons ev evs)
  obtain h1 idle1 q1 where turn: "half_turn dir ev h idle q = (h1, idle1, q1)" using prod_cases3 by blast
  with half_turn_ok [OF Cons.prems, of ev q dir] have "half_ok h1" "idle_empty idle1" by (simp_all add: half_fine_def)
  from Cons.IH [OF this, of q1] turn show ?case by simp
qed simp

lemma writes_ignored: "hf_phase h \<noteq> Writing \<Longrightarrow> half_steps dir (map HalfWrite as) (h, idle, q) = (h, idle, q)"
proof (induction "as")
  case (Cons a as)
  then show ?case by (cases "hf_phase h") (simp_all add: half_turn_def)
qed simp

definition after_write :: "octets \<Rightarrow> octets \<Rightarrow> copy_state \<Rightarrow> copy_state" where
  "after_write w left s = (case cp_pipe s of
      None \<Rightarrow> s\<lparr> cp_written := cp_written s @ w \<rparr>
    | Some p \<Rightarrow> s\<lparr> cp_written := cp_written s @ w, cp_buffered := length left,
        cp_pipe := Some (p\<lparr> pp_data := drop (length w) (pp_data p) \<rparr>) \<rparr>)"

lemma give_back_view: "half_give_back h idle = (h', idle') \<Longrightarrow> copy_view h' idle' q = give_back (copy_view h idle q)"
  by (auto simp: half_give_back_def give_back_def copy_view_def split: option.splits)

lemma end_view: "half_end st h idle = (h', idle') \<Longrightarrow> copy_view h' idle' q = give_back (copy_view h idle q)"
  by (auto simp: half_end_def dest!: give_back_view [of _ _ _ _ q] simp: copy_view_def)

lemma write_steps:
  assumes "half_ok h" "hf_phase h = Writing" "pending_bytes h \<noteq> []" "write_out as (pending_bytes h) = (w, left, st)"
    "half_steps dir (map HalfWrite as) (h, idle, q) = (h', idle', q')"
  shows "q' = q" "st = Failed \<Longrightarrow> hf_phase h' = Ended Failed \<and> copy_view h' idle' q = give_back (after_write w left (copy_view h idle q))"
    "st \<noteq> Failed \<Longrightarrow> st \<noteq> Finished \<and> hf_phase h' = (if st = Running then Reading else Writing)
       \<and> copy_view h' idle' q = after_write w left (copy_view h idle q)"
proof -
  have "q' = q \<and> (if st = Failed then hf_phase h' = Ended Failed \<and> copy_view h' idle' q = give_back (after_write w left (copy_view h idle q))
     else st \<noteq> Finished \<and> hf_phase h' = (if st = Running then Reading else Writing)
       \<and> copy_view h' idle' q = after_write w left (copy_view h idle q))"
    using assms
  proof (induction "as" arbitrary: h w left)
    case Nil
    then have "w = []" "left = pending_bytes h" "st = Cancelled" by (cases "pending_bytes h"; simp)+
    with Nil show ?case
      by (auto simp: after_write_def copy_view_def pending_bytes_def half_ok_def split: option.splits)
  next
    case (Cons a as)
    obtain b bs where d: "pending_bytes h = b # bs" using Cons.prems(3) by (cases "pending_bytes h") auto
    show ?case
    proof (cases "\<exists>k. a = Sent k \<and> k \<noteq> 0")
      case False
      then have out: "w = []" "left = pending_bytes h" "st = Failed"
        using Cons.prems(4) d by (cases a; simp)+
      obtain h1 idle1 where e: "half_end Failed h idle = (h1, idle1)" by fastforce
      have "half_turn dir (HalfWrite a) h idle q = (h1, idle1, q)"
        using False e Cons.prems(2) by (cases a) (auto simp: half_turn_def half_write_def)
      moreover have "hf_phase h1 = Ended Failed" using e by (auto simp: half_end_def half_give_back_def)
      ultimately have "h' = h1" "idle' = idle1" "q' = q" "hf_phase h1 = Ended Failed"
        using Cons.prems(5) by (simp_all add: writes_ignored)
      moreover have "after_write [] (pending_bytes h) (copy_view h idle q) = copy_view h idle q"
        using Cons.prems(1) by (auto simp: after_write_def copy_view_def pending_bytes_def half_ok_def split: option.splits)
      ultimately show ?thesis using out end_view [OF e] by simp
    next
      case True
      then obtain k where k: "a = Sent k" "k \<noteq> 0" by blast
      let ?n = "min k (length (pending_bytes h))"
      let ?h1 = "half_drain ?n h"
      note h1 = half_drain_ok [OF Cons.prems(1,2), of ?n]
      have rest: "pending_bytes ?h1 = drop k (pending_bytes h)"
        using Cons.prems(1) by (auto simp: half_drain_def pending_bytes_def half_ok_def min_def Let_def split: option.splits)
      obtain w1 left1 st1 where out1: "write_out as (drop k (pending_bytes h)) = (w1, left1, st1)" using prod_cases3 by blast
      have out: "w = take k (pending_bytes h) @ w1" "left = left1" "st = st1"
        using Cons.prems(4) k out1 by (simp_all add: d)
      have split: "w1 @ left1 = drop k (pending_bytes h)" using write_out_split [OF out1] by simp
      have view: "after_write w left (copy_view h idle q) = after_write w1 left1 (copy_view ?h1 idle q)"
        using Cons.prems(1) by (auto simp: after_write_def copy_view_def half_drain_def pending_bytes_def half_ok_def out min_def
            Let_def add.commute split: option.splits)
      show ?thesis
      proof (cases "drop k (pending_bytes h) = []")
        case True
        let ?h2 = "?h1\<lparr> hf_phase := Reading \<rparr>"
        have "half_turn dir (HalfWrite a) h idle q = (?h2, idle, q)"
          using k Cons.prems(2) d rest True by (simp add: half_turn_def half_write_def Let_def)
        then have "h' = ?h2" "idle' = idle" "q' = q" using Cons.prems(5) by (simp_all add: writes_ignored)
        moreover have "w1 = []" "left1 = []" "st1 = Running" using out1 True by simp_all
        moreover have "after_write [] [] (copy_view ?h1 idle q) = copy_view ?h2 idle q"
          using h1(1,2) rest True by (auto simp: after_write_def copy_view_def pending_bytes_def half_ok_def split: option.splits)
        ultimately show ?thesis using view out by simp
      next
        case False
        have "half_turn dir (HalfWrite a) h idle q = (?h1, idle, q)"
          using k Cons.prems(2) d rest False by (simp add: half_turn_def half_write_def Let_def)
        then have "half_steps dir (map HalfWrite as) (?h1, idle, q) = (h', idle', q')" using Cons.prems(5) by simp
        note IH = Cons.IH [OF h1(1,2) _ _ this, of w1 left1]
        show ?thesis
          using IH rest False out1 unfolding view unfolding out by simp
      qed
    qed
  qed
  then show "q' = q" "st = Failed \<Longrightarrow> hf_phase h' = Ended Failed \<and> copy_view h' idle' q = give_back (after_write w left (copy_view h idle q))"
    "st \<noteq> Failed \<Longrightarrow> st \<noteq> Finished \<and> hf_phase h' = (if st = Running then Reading else Writing)
       \<and> copy_view h' idle' q = after_write w left (copy_view h idle q)" by auto
qed

lemma lease_view: "half_lease (tn_create t) h idle = (h', idle') \<Longrightarrow> copy_view h' idle' q = lease_pipe t (copy_view h idle q)"
  by (auto simp: half_lease_def lease_pipe_def copy_view_def split: prod.splits if_splits)

lemma after_write_chunk:
  assumes "d \<noteq> []" "try_consume_at (word_of_nat (length d)) dir (tn_hour t) (cp_quota s) = (q, True)"
    "write_out (tn_writes t) d = (w, left, st)"
  shows "forward_chunk dir t d s = (after_write w left (s\<lparr> cp_quota := q \<rparr>), st)"
  using assms by (cases "cp_pipe s") (simp_all add: forward_chunk_def after_write_def)

lemma after_write_view: "cp_quota (after_write w left (copy_view h idle q)) = q"
  by (simp add: after_write_def copy_view_def split: option.split)

lemma fill_view:
  assumes "half_fill bs psize h = (h', d)"
  shows "copy_view h' idle q = (case hf_pipe h of
      Some p \<Rightarrow> (copy_view h idle q)\<lparr> cp_pipe := Some (pipe_fill d psize p), cp_buffered := length d \<rparr>
    | None \<Rightarrow> copy_view h idle q)" "d = take (case hf_pipe h of Some p \<Rightarrow> pp_capacity p | None \<Rightarrow> COPY_BUF) bs"
  using assms by (auto simp: half_fill_def copy_view_def Let_def split: option.splits)

text \<open>A turn of \<open>copy_counted\<close> and its events agree on how it ends and on the state.\<close>

definition turn_agrees :: "copy_state \<times> copy_status \<Rightarrow> half \<times> pipe list \<times> user_quota \<Rightarrow> bool" where
  "turn_agrees x y \<longleftrightarrow> (case (x, y) of ((s, st), (h, idle, q)) \<Rightarrow> half_ok h \<and>
     (case st of
        Running \<Rightarrow> hf_phase h = Reading \<and> copy_view h idle q = s
      | Cancelled \<Rightarrow> hf_phase h = Writing \<and> copy_view h idle q = s
      | _ \<Rightarrow> hf_phase h = Ended st \<and> copy_view h idle q = give_back s))"

lemma chunk_agrees:
  assumes "half_ok h1" "hf_phase h1 = Reading" "idle_empty idle" "half_fill bs (tn_size t) h1 = (h2, d)"
  shows "turn_agrees (forward_chunk dir t d (copy_view h2 idle q))
    (half_steps dir (map HalfWrite (tn_writes t))
      (if d = [] then (let (h3, idle3) = half_end Finished h2 idle in (h3, idle3, q))
       else let (q1, ok) = try_consume_at (word_of_nat (length d)) dir (tn_hour t) q in
         if ok then (h2\<lparr> hf_phase := Writing \<rparr>, idle, q1)
         else (let (h3, idle3) = half_end Failed h2 idle in (h3, idle3, q1))))"
proof -
  note fill = half_fill_ok [OF assms(1,2,4)]
  have ended: "half_ok h3 \<and> hf_phase h3 = Ended st \<and> copy_view h3 idle3 q' = give_back (copy_view h2 idle q')"
    if "half_end st h2 idle = (h3, idle3)" "st = Finished \<longrightarrow> d = []" for st h3 idle3 q'
  proof -
    let ?h = "h2\<lparr> hf_phase := Writing \<rparr>"
    have "hf_written h2 = hf_read h2" if "d = []" using fill(6) [OF that] fill(2) by (simp add: half_ok_def)
    moreover have "half_end st ?h idle = (h3, idle3)" using that(1) by (simp add: half_end_def half_give_back_def)
    ultimately have "half_ok h3" "hf_phase h3 = Ended st"
      using half_end_ok [OF assms(3) fill(1), of st h3 idle3] that(2) by auto
    with end_view [OF that(1)] show ?thesis by blast
  qed
  obtain q1 ok where consume: "try_consume_at (word_of_nat (length d)) dir (tn_hour t) q = (q1, ok)" by fastforce
  have quota: "(copy_view h2 idle q)\<lparr> cp_quota := q1 \<rparr> = copy_view h2 idle q1" "cp_quota (copy_view h2 idle q) = q"
    by (simp_all add: copy_view_def)
  show ?thesis
  proof (cases "d \<noteq> [] \<and> ok")
    case False
    define st where "st = (if d = [] then Finished else Failed)"
    define q2 where "q2 = (if d = [] then q else q1)"
    obtain h3 idle3 where e: "half_end st h2 idle = (h3, idle3)" by fastforce
    have chunk: "forward_chunk dir t d (copy_view h2 idle q) = (copy_view h2 idle q2, st)"
      using False consume quota by (cases "d = []") (simp_all add: forward_chunk_def st_def q2_def)
    have ends: "(if d = [] then (let (h3, idle3) = half_end Finished h2 idle in (h3, idle3, q))
       else let (q1, ok) = try_consume_at (word_of_nat (length d)) dir (tn_hour t) q in
         if ok then (h2\<lparr> hf_phase := Writing \<rparr>, idle, q1)
         else (let (h3, idle3) = half_end Failed h2 idle in (h3, idle3, q1))) = (h3, idle3, q2)"
      using False consume e by (cases "d = []") (simp_all add: st_def q2_def)
    have "st = Finished \<longrightarrow> d = []" by (simp add: st_def)
    note end3 = ended [OF e this, of q2]
    then have "half_steps dir (map HalfWrite (tn_writes t)) (h3, idle3, q2) = (h3, idle3, q2)"
      by (intro writes_ignored) simp
    with end3 show ?thesis
      unfolding chunk ends by (cases "d = []") (simp_all add: turn_agrees_def st_def)
  next
    case True
    let ?h = "h2\<lparr> hf_phase := Writing \<rparr>"
    have same: "copy_view ?h idle q1 = copy_view h2 idle q1" by (simp add: copy_view_def)
    have pend: "pending_bytes ?h = d"
      using fill(1,4,5) assms(1,2) by (simp add: half_ok_def)
    obtain w left st where out: "write_out (tn_writes t) d = (w, left, st)" using prod_cases3 by blast
    obtain h' idle' q' where steps: "half_steps dir (map HalfWrite (tn_writes t)) (?h, idle, q1) = (h', idle', q')"
      using prod_cases3 by blast
    have f: "forward_chunk dir t d (copy_view h2 idle q) = (after_write w left (copy_view h2 idle q1), st)"
      using after_write_chunk [of d dir t "copy_view h2 idle q" q1 w left st] True consume out quota by simp
    note w = write_steps [OF fill(1) _ _ _ steps, of w left st, unfolded same pend]
    have "half_ok h'" using half_steps_ok [OF fill(1) assms(3), of dir "map HalfWrite (tn_writes t)" q1] steps by simp
    with True consume steps f w out show ?thesis
      by (cases st) (auto simp: turn_agrees_def)
  qed
qed

lemma turn_view:
  assumes "half_ok h" "hf_phase h = Reading" "idle_empty idle"
  shows "turn_agrees (copy_turn dir t (copy_view h idle q)) (half_steps dir (turn_events t) (h, idle, q))"
proof -
  obtain h1 idle1 where lease: "half_lease (tn_create t) h idle = (h1, idle1)" by fastforce
  note h1 = half_lease_ok [OF assms lease]
  note view = lease_view [OF lease, symmetric]
  have pipe: "cp_pipe (copy_view x i y) = hf_pipe x" for x i y by (simp add: copy_view_def)
  show ?thesis
  proof (cases "tn_read t")
    case (ReadBytes bs)
    obtain h2 d where fill: "half_fill bs (tn_size t) h1 = (h2, d)" by fastforce
    have "copy_turn dir t (copy_view h idle q) = forward_chunk dir t d (copy_view h2 idle1 q)"
      using fill_view(1) [OF fill, of idle1 q] fill_view(2) [OF fill] ReadBytes
      by (cases "hf_pipe h1") (simp_all add: copy_turn_def view pipe Let_def)
    moreover have "half_steps dir (turn_events t) (h, idle, q) = half_steps dir (map HalfWrite (tn_writes t))
      (if d = [] then (let (h3, idle3) = half_end Finished h2 idle1 in (h3, idle3, q))
       else let (q1, ok) = try_consume_at (word_of_nat (length d)) dir (tn_hour t) q in
         if ok then (h2\<lparr> hf_phase := Writing \<rparr>, idle1, q1)
         else (let (h3, idle3) = half_end Failed h2 idle1 in (h3, idle3, q1)))"
      using assms(2) lease fill by (simp add: turn_events_def half_turn_def half_read_def ReadBytes)
    ultimately show ?thesis using chunk_agrees [OF h1(1,2,3) fill, of dir q] by simp
  next
    case WouldBlock
    define g where "g = (if hf_pipe h1 = None then (h1, idle1) else half_give_back h1 idle1)"
    obtain h2 idle2 where h2: "g = (h2, idle2)" by fastforce
    have "hf_phase h2 = Reading" "half_ok h2"
      using h2 h1(1,2) by (auto simp: g_def half_give_back_def half_ok_def pending_bytes_def split: if_splits)
    moreover have "half_turn dir (HalfRead (tn_create t) (tn_read t) (tn_size t) (tn_hour t)) h idle q = (h2, idle2, q)"
      using assms(2) lease h2 by (auto simp: half_turn_def half_read_def WouldBlock g_def split: prod.splits if_splits)
    moreover have "copy_turn dir t (copy_view h idle q) = (copy_view h2 idle2 q, Running)"
      using h2 give_back_view [of h1 idle1 h2 idle2 q] WouldBlock
      by (cases "hf_pipe h1") (auto simp: copy_turn_def view pipe g_def)
    ultimately show ?thesis by (simp add: turn_events_def turn_agrees_def writes_ignored)
  next
    case ReadFailed
    obtain h2 idle2 where e: "half_end Failed h1 idle1 = (h2, idle2)" by fastforce
    have "half_turn dir (HalfRead (tn_create t) (tn_read t) (tn_size t) (tn_hour t)) h idle q = (h2, idle2, q)"
      using assms(2) lease e by (simp add: half_turn_def half_read_def ReadFailed)
    moreover have "copy_turn dir t (copy_view h idle q) = (copy_view h1 idle1 q, Failed)"
      using ReadFailed by (cases "hf_pipe h1") (simp_all add: copy_turn_def view pipe)
    ultimately show ?thesis
      using half_end_ok [OF h1(3,1) _ _ e] h1(2) end_view [OF e, of q]
      by (simp add: turn_events_def turn_agrees_def writes_ignored)
  qed
qed

lemma drop_view: "half_drop h idle = (h', idle') \<Longrightarrow> \<forall>st. hf_phase h \<noteq> Ended st
    \<Longrightarrow> hf_phase h' = Ended Cancelled \<and> copy_view h' idle' q = give_back (copy_view h idle q)"
  using end_view [of Cancelled h idle h' idle' q]
  by (auto simp: half_drop_def half_end_def half_give_back_def split: half_phase.splits)

lemma loop_view:
  assumes "half_ok h" "hf_phase h = Reading" "idle_empty idle" "half_loop dir ts (h, idle, q) = (h', idle', q')"
  shows "\<exists>st. hf_phase h' = Ended st \<and> copy_counted dir ts (copy_view h idle q) = (copy_view h' idle' q', st)"
  using assms
proof (induction ts arbitrary: h idle q)
  case Nil
  then show ?case using drop_view [of h idle h' idle' q] by (auto split: prod.splits)
next
  case (Cons t ts)
  obtain h1 idle1 q1 where steps: "half_steps dir (turn_events t) (h, idle, q) = (h1, idle1, q1)" using prod_cases3 by blast
  obtain s st where turn: "copy_turn dir t (copy_view h idle q) = (s, st)" by fastforce
  have agree: "turn_agrees (s, st) (h1, idle1, q1)" using turn_view [OF Cons.prems(1-3), of dir t q] steps turn by simp
  have ok: "half_ok h1" "idle_empty idle1" using half_steps_ok [OF Cons.prems(1,3), of dir "turn_events t" q] steps by simp_all
  show ?case
  proof (cases "hf_phase h1 = Reading")
    case True
    then have "st = Running" "s = copy_view h1 idle1 q1" using agree by (cases st; simp add: turn_agrees_def)+
    moreover have "half_loop dir ts (h1, idle1, q1) = (h', idle', q')" using Cons.prems(4) steps True by simp
    ultimately show ?thesis using Cons.IH [OF ok(1) True ok(2)] turn by simp
  next
    case False
    then have stop: "half_drop h1 idle1 = (h', idle')" "q' = q1" using Cons.prems(4) steps by (auto split: prod.splits)
    show ?thesis
    proof (cases "hf_phase h1 = Writing")
      case True
      then have "st = Cancelled" "s = copy_view h1 idle1 q1" using agree by (cases st; simp add: turn_agrees_def)+
      with True stop drop_view [OF stop(1), of q1] turn show ?thesis by simp
    next
      case False
      with \<open>hf_phase h1 \<noteq> Reading\<close> agree have st: "hf_phase h1 = Ended st" "copy_view h1 idle1 q1 = give_back s" "st = Finished \<or> st = Failed"
        by (cases st; simp add: turn_agrees_def)+
      then have "h' = h1" "idle' = idle1" using stop by (simp_all add: half_drop_def)
      with st stop(2) turn show ?thesis by (cases st) auto
    qed
  qed
qed

text \<open>C22: cutting the copy loop at its awaits changes nothing when it runs on its own.  The half, taken through the
  events of any list of turns and then dropped, ends as \<open>copy_counted\<close> does, with the same bytes written, the same account and
  the same idle pipes.\<close>

theorem half_loop_is_copy_counted:
  assumes "idle_empty idle"
  shows "\<exists>h idle' q' st. half_loop dir ts (half_start, idle, q) = (h, idle', q') \<and> hf_phase h = Ended st
    \<and> copy_counted dir ts (copy_start idle q) = (copy_view h idle' q', st)"
proof -
  obtain h idle' q' where run: "half_loop dir ts (half_start, idle, q) = (h, idle', q')" using prod_cases3 by blast
  have "copy_view half_start idle q = copy_start idle q" "hf_phase half_start = Reading"
    by (simp_all add: copy_view_def copy_start_def half_start_def)
  with loop_view [OF half_start_ok(1) _ assms run] run show ?thesis by auto
qed

theorem half_loop_is_copy_counted_witness:
  "\<exists>h idle q st. half_loop Upload [sample_turn, broken_turn] (half_start, [], sample_quota) = (h, idle, q)
     \<and> hf_phase h = Ended st \<and> copy_counted Upload [sample_turn, broken_turn] (copy_start [] sample_quota) = (copy_view h idle q, st)"
  by (rule half_loop_is_copy_counted) (simp add: idle_empty_def)

end
