(* ===== verification/Udp_Props.thy ===== *)
theory Udp_Props
  imports Udp
begin

text \<open>
  What holds of the UDP relay: buffers leave as the datagrams they came in, slots and tasks of a
  shard agree, sessions are bounded and serve one client each, every packet is held once until it is sent or
  dropped, and nothing is sent before it is counted.
  The invariant \<open>shard_inv\<close> has a part for the slots and their tasks, one for the receiving loop, and one
  for the sessions and the pool; each operation keeps each part.
\<close>

section \<open>Datagrams keep their boundaries\<close>

lemma chunks_Nil [simp]: "chunks n [] = []" "chunks 0 xs = []"
  by (simp_all add: chunks.simps)

lemma chunks_step: "0 < n \<Longrightarrow> xs \<noteq> [] \<Longrightarrow> chunks n xs = take n xs # chunks n (drop n xs)"
  by (subst chunks.simps) simp

lemma chunks_single: "xs \<noteq> [] \<Longrightarrow> length xs \<le> n \<Longrightarrow> chunks n xs = [xs]"
  by (cases n) (simp_all add: chunks_step)

lemma concat_chunks: "0 < n \<Longrightarrow> concat (chunks n xs) = xs"
proof (induction n xs rule: chunks.induct)
  case (1 n xs)
  then show ?case by (cases "xs = []") (simp_all add: chunks_step)
qed

lemma chunks_sizes: "0 < n \<Longrightarrow> c \<in> set (chunks n xs) \<Longrightarrow> c \<noteq> [] \<and> length c \<le> n"
proof (induction n xs rule: chunks.induct)
  case (1 n xs)
  then show ?case by (cases "xs = []") (auto simp: chunks_step)
qed

lemma chunks_append: "0 < k \<Longrightarrow> k dvd length ys \<Longrightarrow> chunks k (ys @ zs) = chunks k ys @ chunks k zs"
proof (induction k ys rule: chunks.induct)
  case (1 k ys)
  show ?case
  proof (cases "ys = []")
    case False
    have "k \<le> length ys" using 1(3) False by (simp add: dvd_imp_le)
    then have "chunks k (drop k ys @ zs) = chunks k (drop k ys) @ chunks k zs"
      using 1 False by (simp add: dvd_diff_nat)
    with 1(2) False \<open>k \<le> length ys\<close> show ?thesis by (simp add: chunks_step)
  qed simp
qed

text \<open>Cutting into batches of whole strides first makes no difference.\<close>

lemma chunks_batches: "0 < k \<Longrightarrow> 0 < m \<Longrightarrow> concat (map (chunks k) (chunks (k * m) xs)) = chunks k xs"
proof (induction "k * m" xs rule: chunks.induct)
  case (1 xs)
  let ?n = "k * m"
  show ?case
  proof (cases "xs = []")
    case False
    have "chunks k (take ?n xs @ drop ?n xs) = chunks k (take ?n xs) @ chunks k (drop ?n xs)"
    proof (cases "?n \<le> length xs")
      case True
      then show ?thesis using 1(2) by (intro chunks_append) (simp_all add: min_def)
    qed simp
    with 1 False show ?thesis by (simp add: chunks_step)
  qed simp
qed

text \<open>What a buffer is when it arrives: datagrams of the stride, the last one may be shorter.\<close>

definition datagrams :: "nat \<Rightarrow> octets \<Rightarrow> octets list" where
  "datagrams stride data = (if stride = 0 \<or> length data \<le> stride then [data] else chunks stride data)"

lemma concat_datagrams: "concat (datagrams stride data) = data"
  by (simp add: datagrams_def concat_chunks)

definition sends :: "sent \<Rightarrow> datagram list \<Rightarrow> bool" where
  "sends out ds \<longleftrightarrow> prefix (fst (snd out)) ds \<and> (isl (snd (snd out)) \<or> fst (snd out) = ds)"

lemma for_each_sends:
  assumes "\<And>x n. x \<in> set xs \<Longrightarrow> sends (f x n) (g x)"
  shows "sends (for_each f xs n) (concat (map g xs))"
  using assms
proof (induction xs arbitrary: n)
  case (Cons x xs)
  obtain n1 ds r where out: "f x n = (n1, ds, r)" by (cases "f x n")
  have first: "sends (n1, ds, r) (g x)" using Cons.prems [of x n] out by simp
  show ?case
  proof (cases r)
    case (Inl e)
    then show ?thesis using first out by (simp add: sends_def prefix_prefix)
  next
    case (Inr u)
    have "sends (for_each f xs n1) (concat (map g xs))" using Cons by simp
    with first Inr out show ?thesis by (cases "for_each f xs n1") (auto simp: sends_def)
  qed
qed (simp add: sends_def)

definition mail :: "udp_endpoint \<Rightarrow> socket_addr \<Rightarrow> octets \<Rightarrow> datagram" where
  "mail ep dest data = \<lparr> dg_socket = ep_socket ep, dg_to = dest, dg_data = data \<rparr>"

lemma send_one_sends:
  assumes "ep_peer ep = None \<or> ep_peer ep = Some dest"
  shows "sends (send_one v ep dest data n) [mail ep dest data]"
  using assms by (auto simp: send_one_def sends_def mail_def split: option.splits)

text \<open>What the relay relies on: a segmented call sends all its contents, cut at the segment size, or fails.\<close>

definition cuts_segments :: "udp_env \<Rightarrow> bool" where
  "cuts_segments v \<longleftrightarrow> (\<forall>stride data. 0 < stride \<longrightarrow> ue_segments v stride data = chunks stride data)"

lemma endpoint_send_sends:
  assumes "cuts_segments v" "ep_peer ep = None \<or> ep_peer ep = Some dest"
  shows "sends (endpoint_send v ep dest data stride) (map (mail ep dest) (datagrams stride data))"
proof (cases "stride = 0 \<or> length data \<le> stride")
  case True
  then show ?thesis using send_one_sends [OF assms(2)] by (simp add: endpoint_send_def datagrams_def)
next
  case False
  have piece: "sends (send_chunk v ep dest stride c n) (map (mail ep dest) (chunks stride c))"
    if c: "c \<in> set (chunks (stride * max (ue_max_gso v) 1) data)" for c n
  proof (cases "length c \<le> stride")
    case True
    have "c \<noteq> []" using chunks_sizes [OF _ c] False by simp
    with True show ?thesis using send_one_sends [OF assms(2)] by (simp add: send_chunk_def chunks_single)
  next
    case big: False
    have "sends (for_each (send_one v ep dest) (chunks stride c) m) (concat (map (\<lambda>d. [mail ep dest d]) (chunks stride c)))" for m
      using send_one_sends [OF assms(2)] by (intro for_each_sends)
    moreover have "concat (map (\<lambda>d. [mail ep dest d]) xs) = map (mail ep dest) xs" for xs
      by (induction xs) simp_all
    ultimately have each: "sends (for_each (send_one v ep dest) (chunks stride c) m) (map (mail ep dest) (chunks stride c))" for m
      by simp
    have "ue_segments v stride c = chunks stride c" using assms(1) False by (simp add: cuts_segments_def)
    then show ?thesis
      using big each by (cases "ue_fails v n") (simp_all add: send_chunk_def send_segmented_def sends_def mail_def [abs_def])
  qed
  have "concat (map (\<lambda>c. map (mail ep dest) (chunks stride c)) xss) = map (mail ep dest) (concat (map (chunks stride) xss))" for xss
    by (induction xss) simp_all
  with for_each_sends [of "chunks (stride * max (ue_max_gso v) 1) data" "send_chunk v ep dest stride"
      "\<lambda>c. map (mail ep dest) (chunks stride c)" 0, OF piece] False
  show ?thesis by (simp add: endpoint_send_def datagrams_def chunks_batches)
qed

lemma for_each_answers:
  assumes "\<And>x n. x \<in> set xs \<Longrightarrow> \<not> isl (snd (snd (f x n)))"
  shows "\<not> isl (snd (snd (for_each f xs n)))"
  using assms
proof (induction xs arbitrary: n)
  case (Cons x xs)
  obtain n1 ds r where out: "f x n = (n1, ds, r)" by (cases "f x n")
  then have "\<not> isl r" using Cons.prems [of x n] by simp
  then obtain u where r: "r = Inr u" by (cases r) auto
  have "\<not> isl (snd (snd (for_each f xs n1)))" using Cons by simp
  then show ?case by (cases "for_each f xs n1") (simp add: out r)
qed simp

lemma endpoint_send_answers:
  assumes "\<forall>n. ue_fails v n = None"
  shows "\<not> isl (snd (snd (endpoint_send v ep dest data stride)))"
proof -
  have none: "ue_fails v n = None" for n using assms by blast
  have one: "\<not> isl (snd (snd (send_one v ep dest x n)))" for x n by (simp add: send_one_def none)
  moreover have "\<not> isl (snd (snd (send_chunk v ep dest stride x n)))" for x n
    using one by (simp add: send_chunk_def send_segmented_def none)
  ultimately show ?thesis by (simp add: endpoint_send_def for_each_answers)
qed

section \<open>The slots and their tasks\<close>

fun opener_of :: "udp_task \<Rightarrow> socket_addr option" where
  "opener_of (Connecting peer) = Some peer"
| "opener_of (Draining peer _ _) = Some peer"
| "opener_of (Relaying _ _) = None"

definition openers :: "udp_task list \<Rightarrow> socket_addr list" where
  "openers ts = List.map_filter opener_of ts"

definition small :: "pending \<Rightarrow> bool" where
  "small p \<longleftrightarrow> length (pd_data p) \<le> RECV_BUF"

fun task_ok :: "nat \<Rightarrow> udp_task \<Rightarrow> bool" where
  "task_ok n (Connecting _) \<longleftrightarrow> True"
| "task_ok n (Draining _ i ps) \<longleftrightarrow> i < n \<and> list_all small ps"
| "task_ok n (Relaying _ i) \<longleftrightarrow> i < n"

text \<open>A slot has its task: the one that opens it, and there is only one, or the one that relays its session.\<close>

definition slots_inv :: "(socket_addr \<rightharpoonup> slot) \<Rightarrow> udp_task list \<Rightarrow> nat \<Rightarrow> bool" where
  "slots_inv m ts n \<longleftrightarrow>
     (\<forall>peer ps. m peer = Some (Opening ps) \<longrightarrow>
        peer \<in> set (openers ts) \<and> length ps \<le> MAX_PENDING_PACKETS \<and> list_all small ps)
     \<and> (\<forall>peer i. m peer = Some (Open i) \<longrightarrow> Relaying peer i \<in> set ts \<and> i < n)
     \<and> distinct (openers ts) \<and> (\<forall>peer\<in>set (openers ts). \<exists>ps. m peer = Some (Opening ps))
     \<and> list_all (task_ok n) ts"

lemma openers_simps [simp]:
  "openers [] = []" "openers (Connecting peer # ts) = peer # openers ts"
  "openers (Draining peer i ps # ts) = peer # openers ts" "openers (Relaying peer i # ts) = openers ts"
  "openers (ts @ us) = openers ts @ openers us"
  by (simp_all add: openers_def map_filter_def)

lemma task_ok_mono: "n \<le> n' \<Longrightarrow> list_all (task_ok n) ts \<Longrightarrow> list_all (task_ok n') ts"
  by (induction ts) (auto elim!: task_ok.elims)

lemma slots_enqueue:
  "slots_inv m ts n \<Longrightarrow> m peer = Some (Opening ps) \<Longrightarrow> length ps < MAX_PENDING_PACKETS \<Longrightarrow> small p
     \<Longrightarrow> slots_inv (m(peer \<mapsto> Opening (ps @ [p]))) ts n"
  by (auto simp: slots_inv_def)

lemma slots_spawn:
  "slots_inv m ts n \<Longrightarrow> m peer = None \<Longrightarrow> small p
     \<Longrightarrow> slots_inv (m(peer \<mapsto> Opening [p])) (ts @ [Connecting peer]) n"
  by (fastforce simp: slots_inv_def MAX_PENDING_PACKETS_def)

lemma slots_forget:
  assumes "slots_inv m (us @ t # vs) n" "opener_of t = Some peer"
  shows "slots_inv (m(peer := None)) (us @ vs) n"
  using assms by (cases t) (auto simp: slots_inv_def)

lemma slots_connect:
  assumes "slots_inv m (us @ Connecting peer # vs) n"
  shows "slots_inv m (us @ Draining peer n [] # vs) (Suc n)"
  using assms task_ok_mono [of n "Suc n"] by (fastforce simp: slots_inv_def)

lemma slots_take:
  assumes "slots_inv m (us @ Draining peer i [] # vs) n" "m peer = Some (Opening ps)"
  shows "slots_inv (m(peer \<mapsto> Opening [])) (us @ Draining peer i ps # vs) n"
  using assms by (auto simp: slots_inv_def)

lemma slots_open:
  assumes "slots_inv m (us @ Draining peer i [] # vs) n"
  shows "slots_inv (m(peer \<mapsto> Open i)) (us @ Relaying peer i # vs) n"
  using assms by (auto simp: slots_inv_def)

lemma slots_sent:
  assumes "slots_inv m (us @ Draining peer i (p # ps) # vs) n"
  shows "slots_inv m (us @ Draining peer i ps # vs) n"
  using assms by (auto simp: slots_inv_def)

lemma slots_remove_open:
  "slots_inv m ts n \<Longrightarrow> m peer = Some (Open i) \<Longrightarrow> slots_inv (m(peer := None)) ts n"
  by (fastforce simp: slots_inv_def)

lemma slots_drop_relay:
  assumes "slots_inv m (us @ Relaying peer i # vs) n" "m peer \<noteq> Some (Open i)"
  shows "slots_inv m (us @ vs) n"
proof -
  have "p \<noteq> peer \<or> j \<noteq> i" if "m p = Some (Open j)" for p j using that assms(2) by auto
  with assms(1) show ?thesis by (fastforce simp: slots_inv_def)
qed

lemma slots_relay_end:
  assumes "slots_inv m (us @ Relaying peer i # vs) n"
  shows "slots_inv (if m peer = Some (Open i) then m(peer := None) else m) (us @ vs) n"
  using assms slots_remove_open [OF assms]
  by (auto intro!: slots_drop_relay [of _ us peer i vs n])

definition session_ok :: "target_pool \<Rightarrow> udp_session \<Rightarrow> bool" where
  "session_ok p sess \<longleftrightarrow> ep_peer (un_upstream sess) = Some (un_target sess) \<and> un_target_index sess < pool_len p"

text \<open>Taking the \<open>k\<close>-th task out of the list.\<close>

lemma split_task: "k < length ts \<Longrightarrow> \<exists>us vs. ts = us @ ts ! k # vs \<and> length us = k"
  by (intro exI [of _ "take k ts"] exI [of _ "drop (Suc k) ts"]) (simp add: id_take_nth_drop)

lemma finish_append: "sh_tasks s = us @ t # vs \<Longrightarrow> length us = k \<Longrightarrow> finish_task k s = s\<lparr> sh_tasks := us @ vs \<rparr>"
  by (auto simp: finish_task_def)

lemma move_append: "sh_tasks s = us @ t # vs \<Longrightarrow> length us = k \<Longrightarrow> move_task k t' s = s\<lparr> sh_tasks := us @ t' # vs \<rparr>"
  by (auto simp: move_task_def)

lemma length_alist: "distinct (map fst xs) \<Longrightarrow> length xs = card (dom (map_of xs))"
  by (metis distinct_card dom_map_of_conv_image_fst length_map list.set_map)

lemma update_alist [simp]:
  "distinct (map fst xs) \<Longrightarrow> distinct (map fst (AList.update k v xs))"
  "distinct (map fst xs) \<Longrightarrow> distinct (map fst (AList.delete k xs))"
  "map_of (AList.update k v xs) = (map_of xs)(k \<mapsto> v)" "map_of (AList.delete k xs) = (map_of xs)(k := None)"
  by (simp_all add: distinct_update distinct_delete update_conv' delete_conv')

lemma length_update_alist:
  "distinct (map fst xs) \<Longrightarrow> length (AList.update k v xs) = (if map_of xs k = None then Suc (length xs) else length xs)"
  using length_alist [of "AList.update k v xs"] length_alist [of xs]
  by (auto simp: finite_dom_map_of insert_absorb domI domIff)

lemma length_delete_alist: "length (AList.delete k xs) \<le> length xs"
  by (rule length_delete_le)

section \<open>The packets a shard holds\<close>

text \<open>Every packet a shard has received and not sent or dropped yet, with the client it came from.\<close>

fun slot_packets :: "socket_addr \<times> slot \<Rightarrow> (socket_addr \<times> pending) multiset" where
  "slot_packets (peer, Opening ps) = image_mset (Pair peer) (mset ps)"
| "slot_packets (peer, Open i) = {#}"

fun task_packets :: "udp_task \<Rightarrow> (socket_addr \<times> pending) multiset" where
  "task_packets (Draining peer i ps) = image_mset (Pair peer) (mset ps)"
| "task_packets _ = {#}"

definition held_slots :: "(socket_addr \<times> slot) list \<Rightarrow> (socket_addr \<times> pending) multiset" where
  "held_slots xs = sum_list (map slot_packets xs)"

definition held_tasks :: "udp_task list \<Rightarrow> (socket_addr \<times> pending) multiset" where
  "held_tasks ts = sum_list (map task_packets ts)"

definition held_sending :: "(socket_addr \<times> nat \<times> pending) option \<Rightarrow> (socket_addr \<times> pending) multiset" where
  "held_sending x = (case x of None \<Rightarrow> {#} | Some (peer, i, packet) \<Rightarrow> {#(peer, packet)#})"

definition held :: "shard \<Rightarrow> (socket_addr \<times> pending) multiset" where
  "held s = mset (sh_batch s) + held_sending (sh_sending s) + held_slots (sh_sessions s) + held_tasks (sh_tasks s)"

lemma held_tasks_simps [simp]:
  "held_tasks [] = {#}" "held_tasks (t # ts) = task_packets t + held_tasks ts" "held_tasks (ts @ us) = held_tasks ts + held_tasks us"
  by (simp_all add: held_tasks_def)

lemma held_sending_simps [simp]: "held_sending None = {#}" "held_sending (Some (peer, i, packet)) = {#(peer, packet)#}"
  by (simp_all add: held_sending_def)

lemma held_slots_update:
  "held_slots (AList.update k v xs) + (case map_of xs k of None \<Rightarrow> {#} | Some w \<Rightarrow> slot_packets (k, w))
     = held_slots xs + slot_packets (k, v)"
  by (induction xs) (auto simp: held_slots_def ac_simps split: option.splits)

lemma held_slots_put:
  "map_of xs k = None \<Longrightarrow> held_slots (AList.update k v xs) = held_slots xs + slot_packets (k, v)"
  "map_of xs k = Some w \<Longrightarrow> held_slots (AList.update k v xs) + slot_packets (k, w) = held_slots xs + slot_packets (k, v)"
  using held_slots_update [of k v xs] by simp_all

lemma held_slots_delete: "held_slots (AList.delete k xs) \<subseteq># held_slots xs"
proof (induction xs)
  case (Cons x xs)
  have "held_slots xs \<subseteq># slot_packets x + held_slots xs" by simp
  with Cons show ?case
    by (cases x) (auto simp: held_slots_def intro: subset_mset.order_trans)
qed (simp add: held_slots_def)

section \<open>A turn keeps the invariant\<close>

text \<open>A turn leaves everything but the accounts, the health, the send log and the session clocks as it was.\<close>

definition same_slots :: "shard \<Rightarrow> shard \<Rightarrow> bool" where
  "same_slots s s' \<longleftrightarrow> sh_sessions s' = sh_sessions s \<and> sh_tasks s' = sh_tasks s \<and> sh_batch s' = sh_batch s
     \<and> sh_sending s' = sh_sending s \<and> sh_max_sessions s' = sh_max_sessions s \<and> sh_endpoint s' = sh_endpoint s
     \<and> length (sh_arena s') = length (sh_arena s) \<and> tp_targets (sh_pool s') = tp_targets (sh_pool s)"

definition data_ok :: "shard \<Rightarrow> bool" where
  "data_ok s \<longleftrightarrow> list_all (session_ok (sh_pool s)) (sh_arena s) \<and> pool_inv (sh_pool s) \<and> ep_peer (sh_endpoint s) = None"

text \<open>The buffer a turn is about to send, if any: the direction, the client, the session and the packet.\<close>

type_synonym offer = "(direction \<times> socket_addr \<times> nat \<times> pending) option"

definition offered :: "shard_event \<Rightarrow> shard \<Rightarrow> offer" where
  "offered ev s = (case ev of
      SendNow \<Rightarrow> map_option (\<lambda>(peer, i, packet). (Upload, peer, i, packet)) (sh_sending s)
    | OpenTurn k d \<Rightarrow>
        if length (sh_tasks s) \<le> k then None
        else (case sh_tasks s ! k of Draining peer i (packet # rest) \<Rightarrow> Some (Upload, peer, i, packet) | _ \<Rightarrow> None)
    | RelayTurn k (Reply data stride) \<Rightarrow>
        if length (sh_tasks s) \<le> k \<or> RECV_BUF < length data then None
        else (case sh_tasks s ! k of
            Relaying peer i \<Rightarrow> Some (Download, peer, i, \<lparr> pd_data = data, pd_stride = stride \<rparr>) | _ \<Rightarrow> None)
    | _ \<Rightarrow> None)"

text \<open>The datagrams it is made of: uploads leave the session's socket for its target, downloads the shard's for the client.\<close>

definition mails :: "direction \<Rightarrow> socket_addr \<Rightarrow> nat \<Rightarrow> pending \<Rightarrow> shard \<Rightarrow> datagram list" where
  "mails dir peer i packet s = map (case dir of
        Upload \<Rightarrow> mail (un_upstream (sh_arena s ! i)) (un_target (sh_arena s ! i))
      | Download \<Rightarrow> mail (sh_endpoint s) peer)
     (datagrams (pd_stride packet) (pd_data packet))"

text \<open>
  What becomes of an offer: its whole length is counted first; when the quota refuses, nothing is sent, otherwise
  the datagrams in their order, as far as the system takes them.
\<close>

definition settles :: "udp_env \<Rightarrow> i64 \<Rightarrow> offer \<Rightarrow> shard \<Rightarrow> shard \<Rightarrow> bool" where
  "settles v hour off s s' \<longleftrightarrow> (case off of
      None \<Rightarrow> sh_sent s' = sh_sent s \<and> sh_quota s' = sh_quota s
    | Some (dir, peer, i, packet) \<Rightarrow>
        i < length (sh_arena s) \<and> small packet
        \<and> (case try_consume_at (word_of_nat (length (pd_data packet))) dir hour (sh_quota s) of (q, ok) \<Rightarrow>
             sh_quota s' = q \<and> (if ok
               then cuts_segments v \<longrightarrow> (\<exists>new. sh_sent s' = sh_sent s @ new \<and> prefix new (mails dir peer i packet s)
                 \<and> ((\<forall>n. ue_fails v n = None) \<longrightarrow> new = mails dir peer i packet s))
               else sh_sent s' = sh_sent s)))"

text \<open>The packet an offer takes out of the shard, and those an event brings.\<close>

definition uploaded :: "offer \<Rightarrow> (socket_addr \<times> pending) multiset" where
  "uploaded off = (case off of Some (Upload, peer, i, packet) \<Rightarrow> {#(peer, packet)#} | _ \<Rightarrow> {#})"

definition arrived :: "shard_event \<Rightarrow> (socket_addr \<times> pending) multiset" where
  "arrived ev = (case ev of Receive packets \<Rightarrow> mset packets | _ \<Rightarrow> {#})"

lemma uploaded_simps [simp]:
  "uploaded None = {#}" "uploaded (Some (Upload, peer, i, packet)) = {#(peer, packet)#}" "uploaded (Some (Download, peer, i, packet)) = {#}"
  by (simp_all add: uploaded_def)

lemma settles_none [simp]: "settles v hour None s s' \<longleftrightarrow> sh_sent s' = sh_sent s \<and> sh_quota s' = sh_quota s"
  by (simp add: settles_def)

lemma settles_frame: "settles v hour off s s' \<Longrightarrow> sh_sent s'' = sh_sent s' \<Longrightarrow> sh_quota s'' = sh_quota s' \<Longrightarrow> settles v hour off s s''"
  by (auto simp: settles_def split: option.splits prod.splits)

lemma settles_from:
  assumes "sh_sent s1 = sh_sent s" "sh_quota s1 = sh_quota s" "sh_arena s1 = sh_arena s" "sh_endpoint s1 = sh_endpoint s"
  shows "settles v hour off s1 s' \<longleftrightarrow> settles v hour off s s'"
proof -
  have "mails dir peer i packet s1 = mails dir peer i packet s" for dir peer i packet
    by (simp only: mails_def assms)
  then show ?thesis by (simp only: settles_def assms)
qed

lemma same_slots_held: "same_slots s s' \<Longrightarrow> held s' = held s"
  by (simp add: same_slots_def held_def)

lemma touch_frame [simp]:
  "sh_sessions (touch i n s) = sh_sessions s" "sh_tasks (touch i n s) = sh_tasks s" "sh_batch (touch i n s) = sh_batch s"
  "sh_sending (touch i n s) = sh_sending s" "sh_max_sessions (touch i n s) = sh_max_sessions s"
  "sh_endpoint (touch i n s) = sh_endpoint s" "length (sh_arena (touch i n s)) = length (sh_arena s)"
  "sh_pool (touch i n s) = sh_pool s" "sh_quota (touch i n s) = sh_quota s" "sh_sent (touch i n s) = sh_sent s"
  by (simp_all add: touch_def)

lemma touch_sessions: "list_all (session_ok p) (sh_arena s) \<Longrightarrow> i < length (sh_arena s)
    \<Longrightarrow> list_all (session_ok p) (sh_arena (touch i n s))"
  by (auto simp: touch_def session_ok_def list_all_length nth_list_update)

lemma session_ok_pool: "pool_len p' = pool_len p \<Longrightarrow> session_ok p' = session_ok p"
  "tp_targets p' = tp_targets p \<Longrightarrow> session_ok p' = session_ok p"
  by (simp_all add: session_ok_def fun_eq_iff pool_len_def)

lemma mark_down_ok:
  assumes "pool_inv p" "i < pool_len p"
  obtains p' where "mark_down i p = Some p'" "pool_inv p'" "tp_targets p' = tp_targets p"
  using mark_down_laws [OF assms] by (auto simp: pool_len_def)

lemma confirm_ok:
  assumes "pool_inv p" "i < pool_len p"
  obtains p' where "confirm n i p = Some p'" "pool_inv p'" "tp_targets p' = tp_targets p"
  using confirm_laws [OF assms, of n] by (auto simp: pool_len_def)

lemma forward_runs:
  assumes "data_ok s" "i < length (sh_arena s)" "small packet"
  obtains s' r where "forward v hour now i packet s = Some (s', r)" "same_slots s s'" "data_ok s'"
    "\<And>peer. settles v hour (Some (Upload, peer, i, packet)) s s'"
proof -
  let ?data = "pd_data packet" and ?sess = "sh_arena s ! i"
  have sess: "session_ok (sh_pool s) ?sess" using assms(1,2) by (simp add: data_ok_def list_all_length)
  obtain q ok where consume: "try_consume_at (word_of_nat (length ?data)) Upload hour (sh_quota s) = (q, ok)" by fastforce
  obtain n ds r where out: "endpoint_send v (un_upstream ?sess) (un_target ?sess) ?data (pd_stride packet) = (n, ds, r)"
    using prod_cases3 by blast
  let ?s2 = "(touch i now (s\<lparr> sh_quota := q \<rparr>))\<lparr> sh_sent := sh_sent s @ ds \<rparr>"
  have sends: "sends (n, ds, r) (mails Upload peer i packet s)" if "cuts_segments v" for peer
    using endpoint_send_sends [OF that, of "un_upstream ?sess" "un_target ?sess" ?data "pd_stride packet"] sess
    by (simp add: out session_ok_def mails_def)
  have answers: "\<not> isl r" if "\<forall>n. ue_fails v n = None"
    using endpoint_send_answers [OF that, of "un_upstream ?sess" "un_target ?sess" ?data "pd_stride packet"] out by simp
  have settles: "settles v hour (Some (Upload, peer, i, packet)) s s'"
    if "ok" "sh_sent s' = sh_sent s @ ds" "sh_quota s' = q" for s' peer
    using that sends [of peer] answers assms(2,3) by (auto simp: settles_def consume sends_def)
  have ok2: "data_ok ?s2"
    using assms(1,2) touch_sessions [of "sh_pool s" "s\<lparr> sh_quota := q \<rparr>" i now] by (simp add: data_ok_def)
  show thesis
  proof (cases ok)
    case False
    then have run: "forward v hour now i packet s = Some (s\<lparr> sh_quota := q \<rparr>, Inr ())"
      by (simp add: forward_def consume Let_def)
    show thesis
      using assms False by (intro that [OF run]) (simp_all add: same_slots_def data_ok_def settles_def consume)
  next
    case ok: True
    show thesis
    proof (cases r)
      case (Inr u)
      then have run: "forward v hour now i packet s = Some (?s2, Inr ())" using ok out by (simp add: forward_def consume Let_def)
      show thesis
        using ok2 settles [of ?s2] ok by (intro that [OF run]) (auto simp: same_slots_def)
    next
      case (Inl e)
      from assms(1) sess obtain p where p: "mark_down (un_target_index ?sess) (sh_pool s) = Some p" "pool_inv p"
        "tp_targets p = tp_targets (sh_pool s)"
        by (auto simp: data_ok_def session_ok_def elim: mark_down_ok)
      have run: "forward v hour now i packet s = Some (?s2\<lparr> sh_pool := p \<rparr>, Inl e)"
        using ok out Inl p(1) by (simp add: forward_def consume Let_def)
      show thesis
        using ok2 p settles [of "?s2\<lparr> sh_pool := p \<rparr>"] ok session_ok_pool(2) [OF p(3)]
        by (intro that [OF run]) (auto simp: same_slots_def data_ok_def)
    qed
  qed
qed

definition slots_ok :: "shard \<Rightarrow> bool" where
  "slots_ok s \<longleftrightarrow> distinct (map fst (sh_sessions s)) \<and> length (sh_sessions s) \<le> sh_max_sessions s
     \<and> slots_inv (map_of (sh_sessions s)) (sh_tasks s) (length (sh_arena s))"

definition loop_ok :: "shard \<Rightarrow> bool" where
  "loop_ok s \<longleftrightarrow> list_all (\<lambda>(_, p). small p) (sh_batch s)
     \<and> (\<forall>peer i p. sh_sending s = Some (peer, i, p) \<longrightarrow> i < length (sh_arena s) \<and> small p)"

definition shard_inv :: "shard \<Rightarrow> bool" where
  "shard_inv s \<longleftrightarrow> slots_ok s \<and> loop_ok s \<and> data_ok s"

lemmas shard_parts = shard_inv_def slots_ok_def loop_ok_def data_ok_def

text \<open>What a turn promises, given its offer and the packets that arrived.\<close>

definition fine_turn :: "udp_env \<Rightarrow> i64 \<Rightarrow> offer \<Rightarrow> (socket_addr \<times> pending) multiset \<Rightarrow> shard \<Rightarrow> shard option \<Rightarrow> bool" where
  "fine_turn v hour off new s r \<longleftrightarrow> (\<exists>s'. r = Some s' \<and> shard_inv s' \<and> sh_max_sessions s' = sh_max_sessions s
     \<and> tp_targets (sh_pool s') = tp_targets (sh_pool s) \<and> settles v hour off s s'
     \<and> uploaded off + held s' \<subseteq># held s + new)"

lemma fine_quiet: "shard_inv s' \<Longrightarrow> sh_sent s' = sh_sent s \<Longrightarrow> sh_max_sessions s' = sh_max_sessions s
    \<Longrightarrow> tp_targets (sh_pool s') = tp_targets (sh_pool s) \<Longrightarrow> sh_quota s' = sh_quota s \<Longrightarrow> held s' \<subseteq># held s + new
    \<Longrightarrow> fine_turn v hour None new s (Some s')"
  by (simp add: fine_turn_def)

lemma held_less:
  assumes "held_slots (sh_sessions s') \<subseteq># held_slots (sh_sessions s)" "held_tasks (sh_tasks s') \<subseteq># held_tasks (sh_tasks s)"
    "sh_batch s' = sh_batch s" "sh_sending s' = sh_sending s"
  shows "held s' \<subseteq># held s"
  using assms by (simp add: held_def subset_mset.add_mono)

lemma same_slots_ok: "same_slots s s' \<Longrightarrow> slots_ok s \<Longrightarrow> slots_ok s'" "same_slots s s' \<Longrightarrow> loop_ok s \<Longrightarrow> loop_ok s'"
  by (simp_all add: same_slots_def slots_ok_def loop_ok_def)

lemma remove_open_frame [simp]:
  "sh_sent (remove_open peer i s) = sh_sent s" "sh_pool (remove_open peer i s) = sh_pool s" "sh_quota (remove_open peer i s) = sh_quota s"
  "sh_max_sessions (remove_open peer i s) = sh_max_sessions s" "sh_tasks (remove_open peer i s) = sh_tasks s"
  "data_ok (remove_open peer i s) = data_ok s" "loop_ok (remove_open peer i s) = loop_ok s"
  by (simp_all add: remove_open_def data_ok_def loop_ok_def)

lemma held_remove_open: "held (remove_open peer i s) \<subseteq># held s"
  by (auto simp: remove_open_def intro!: held_less held_slots_delete)

lemma slots_ok_remove_open: "slots_ok s \<Longrightarrow> slots_ok (remove_open peer i s)"
  using slots_remove_open [of "map_of (sh_sessions s)" "sh_tasks s" "length (sh_arena s)" peer i] length_delete_le [of peer "sh_sessions s"]
  by (auto simp: slots_ok_def remove_open_def)

lemma dispatch_lookup_ok:
  assumes "shard_inv s" "small packet"
  shows "shard_inv (dispatch_lookup peer packet s)"
proof (cases "map_of (sh_sessions s) peer")
  case None
  with assms slots_spawn [of "map_of (sh_sessions s)" "sh_tasks s" "length (sh_arena s)" peer packet] show ?thesis
    by (auto simp: dispatch_lookup_def shard_parts length_update_alist)
next
  case (Some sl)
  show ?thesis
  proof (cases sl)
    case (Opening ps)
    with Some assms slots_enqueue [of "map_of (sh_sessions s)" "sh_tasks s" "length (sh_arena s)" peer ps packet] show ?thesis
      by (auto simp: dispatch_lookup_def shard_parts length_update_alist)
  next
    case (Open i)
    with Some assms show ?thesis
      by (auto simp: dispatch_lookup_def shard_parts slots_inv_def)
  qed
qed

lemma held_dispatch_lookup:
  assumes "sh_sending s = None"
  shows "held (dispatch_lookup peer packet s) \<subseteq># held s + {#(peer, packet)#}"
proof (cases "map_of (sh_sessions s) peer")
  case None
  then show ?thesis using assms by (simp add: dispatch_lookup_def held_def held_slots_put)
next
  case (Some sl)
  show ?thesis
  proof (cases sl)
    case (Opening ps)
    have "held_slots (AList.update peer (Opening (ps @ [packet])) (sh_sessions s)) = held_slots (sh_sessions s) + {#(peer, packet)#}"
      using held_slots_put(2) [OF Some, of "Opening (ps @ [packet])"] Opening by simp
    then show ?thesis using Some Opening assms by (simp add: dispatch_lookup_def held_def)
  next
    case (Open i)
    then show ?thesis using Some assms by (simp add: dispatch_lookup_def held_def)
  qed
qed

lemma dispatch_lookup_frame [simp]:
  "sh_sent (dispatch_lookup peer packet s) = sh_sent s" "sh_pool (dispatch_lookup peer packet s) = sh_pool s"
  "sh_quota (dispatch_lookup peer packet s) = sh_quota s"
  "sh_max_sessions (dispatch_lookup peer packet s) = sh_max_sessions s"
  by (simp_all add: dispatch_lookup_def split: option.split slot.split)

lemma dispatch_send_ok:
  assumes "shard_inv s" "i < length (sh_arena s)" "small packet"
  obtains s' where "dispatch_send v hour now peer i packet s = Some s'" "shard_inv s'" "sh_max_sessions s' = sh_max_sessions s"
    "tp_targets (sh_pool s') = tp_targets (sh_pool s)" "settles v hour (Some (Upload, peer, i, packet)) s s'" "held s' \<subseteq># held s"
proof -
  obtain s1 r where run: "forward v hour now i packet s = Some (s1, r)" "same_slots s s1" "data_ok s1"
    "settles v hour (Some (Upload, peer, i, packet)) s s1"
    by (rule forward_runs [of s i packet v hour now]) (use assms in \<open>simp_all add: shard_inv_def, blast?\<close>)
  then have inv: "shard_inv s1" "sh_max_sessions s1 = sh_max_sessions s" "tp_targets (sh_pool s1) = tp_targets (sh_pool s)"
    using assms(1) same_slots_ok [OF run(2)] by (simp_all add: shard_inv_def same_slots_def)
  let ?s' = "case r of Inr _ \<Rightarrow> s1 | Inl _ \<Rightarrow> remove_open peer i s1"
  have "settles v hour (Some (Upload, peer, i, packet)) s ?s'"
    using run(4) by (cases r) (auto elim: settles_frame)
  moreover have "held ?s' \<subseteq># held s"
    using same_slots_held [OF run(2)] held_remove_open [of peer i s1] by (cases r) simp_all
  ultimately show thesis
    using run(1) inv by (intro that [of ?s']; cases r) (simp_all add: dispatch_send_def shard_inv_def slots_ok_remove_open)
qed

text \<open>Connecting always answers, with a session whose socket is connected to its target.\<close>

lemma connect_upstream_ok: "connect_upstream d t = Inr (ep, a) \<Longrightarrow> ep_peer ep = Some a"
  by (auto simp: connect_upstream_def Let_def split: sum.splits)

lemma udp_connect_runs:
  assumes "pool_inv p"
  obtains p' r where "udp_connect_active d now p = Some (p', r)" "pool_inv p'" "tp_targets p' = tp_targets p"
    "\<And>sess. r = Inr sess \<Longrightarrow> session_ok p' sess"
proof -
  let ?dial = "\<lambda>t. if de_late d t then Inl DialTimedOut else connect_upstream d t"
  obtain p' r where run: "connect_loop pool_pick mark_down (\<lambda>_. Some) ?dial (pool_len p) None p = Some (p', r)"
    and conn: "\<And>i c. r = Inr (i, c) \<Longrightarrow> i < length (tp_targets p) \<and> ?dial (tp_targets p ! i) = Inr c"
    by (rule tp.connect_loop_runs [OF assms, where success = "\<lambda>_. Some" and dial = ?dial and n = "pool_len p" and err = None]) auto
  have keeps: "pool_inv p'" "tp_targets p' = tp_targets p"
    using tp.connect_loop_keeps [OF assms run] by auto
  show thesis
  proof (cases r)
    case (Inl e)
    with run keeps show thesis by (intro that [of p' "Inl e"]) (simp_all add: udp_connect_active_def pool_len_def)
  next
    case (Inr c)
    obtain i ep a where c: "c = (i, ep, a)" by (cases c) auto
    have "i < length (tp_targets p)" "connect_upstream d (tp_targets p ! i) = Inr (ep, a)"
      using conn [of i "(ep, a)"] Inr c by (auto split: if_splits)
    with run keeps Inr c connect_upstream_ok show thesis
      by (intro that [of p' "Inr \<lparr> un_upstream = ep, un_target = a, un_target_index = i, un_last_active = now \<rparr>"])
        (auto simp: udp_connect_active_def pool_len_def session_ok_def)
  qed
qed

lemma open_connect_ok:
  assumes "shard_inv s" "k < length (sh_tasks s)" "sh_tasks s ! k = Connecting peer"
  shows "fine_turn v hour None {#} s (open_connect d now k peer s)"
proof -
  obtain us vs where t: "sh_tasks s = us @ Connecting peer # vs" "length us = k" using split_task [OF assms(2)] assms(3) by auto
  obtain p r where run: "udp_connect_active d now (sh_pool s) = Some (p, r)" "pool_inv p" "tp_targets p = tp_targets (sh_pool s)"
    and sess: "\<And>sess. r = Inr sess \<Longrightarrow> session_ok p sess"
    using assms(1) udp_connect_runs [of "sh_pool s" d now] by (auto simp: shard_inv_def data_ok_def)
  let ?m = "map_of (sh_sessions s)" and ?n = "length (sh_arena s)"
  have slots: "slots_inv ?m (us @ Connecting peer # vs) ?n" using assms(1) t by (simp add: shard_inv_def slots_ok_def)
  note data = session_ok_pool(2) [OF run(3)]
  show ?thesis
  proof (cases r)
    case (Inl e)
    have out: "open_connect d now k peer s = Some (s\<lparr> sh_pool := p, sh_sessions := AList.delete peer (sh_sessions s), sh_tasks := us @ vs \<rparr>)"
      using run(1) Inl finish_append [of "forget_peer peer (s\<lparr> sh_pool := p \<rparr>)", OF _ t(2)] t
      by (simp add: open_connect_def forget_peer_def)
    show ?thesis
      unfolding out using assms(1) data run slots_forget [OF slots] length_delete_le [of peer "sh_sessions s"]
      by (intro fine_quiet) (auto simp: shard_parts t intro!: held_less held_slots_delete)
  next
    case (Inr s0)
    have out: "open_connect d now k peer s = Some (s\<lparr> sh_pool := p, sh_arena := sh_arena s @ [s0], sh_tasks := us @ Draining peer ?n [] # vs \<rparr>)"
      using run(1) Inr move_append [of "s\<lparr> sh_pool := p, sh_arena := sh_arena s @ [s0] \<rparr>", OF _ t(2)] t
      by (simp add: open_connect_def)
    show ?thesis
      unfolding out using assms(1) data run sess [OF Inr] slots_connect [OF slots]
      by (intro fine_quiet) (auto simp: shard_parts less_Suc_eq t intro!: held_less)
  qed
qed

lemma open_drain_ok:
  assumes "shard_inv s" "k < length (sh_tasks s)" "sh_tasks s ! k = Draining peer i []"
  shows "fine_turn v hour None {#} s (Some (open_drain k peer i s))"
proof -
  obtain us vs where t: "sh_tasks s = us @ Draining peer i [] # vs" "length us = k" using split_task [OF assms(2)] assms(3) by auto
  let ?m = "map_of (sh_sessions s)" and ?n = "length (sh_arena s)"
  have slots: "slots_inv ?m (us @ Draining peer i [] # vs) ?n" using assms(1) t by (simp add: shard_inv_def slots_ok_def)
  then obtain ps where ps: "?m peer = Some (Opening ps)" by (auto simp: slots_inv_def)
  show ?thesis
  proof (cases ps)
    case Nil
    have out: "open_drain k peer i s = s\<lparr> sh_sessions := AList.update peer (Open i) (sh_sessions s), sh_tasks := us @ Relaying peer i # vs \<rparr>"
      using ps Nil move_append [of "s\<lparr> sh_sessions := AList.update peer (Open i) (sh_sessions s) \<rparr>", OF _ t(2)] t
      by (simp add: open_drain_def)
    have "held_slots (AList.update peer (Open i) (sh_sessions s)) = held_slots (sh_sessions s)"
      using held_slots_put(2) [OF ps, of "Open i"] Nil by simp
    then show ?thesis
      unfolding out using assms(1) slots_open [OF slots] ps
      by (intro fine_quiet) (auto simp: shard_parts length_update_alist t intro!: held_less)
  next
    case (Cons p qs)
    have out: "open_drain k peer i s = s\<lparr> sh_sessions := AList.update peer (Opening []) (sh_sessions s), sh_tasks := us @ Draining peer i (p # qs) # vs \<rparr>"
      using ps Cons move_append [of "s\<lparr> sh_sessions := AList.update peer (Opening []) (sh_sessions s) \<rparr>", OF _ t(2)] t
      by (simp add: open_drain_def)
    have "held_slots (AList.update peer (Opening []) (sh_sessions s)) + image_mset (Pair peer) (mset (p # qs)) = held_slots (sh_sessions s)"
      using held_slots_put(2) [OF ps, of "Opening []"] Cons by simp
    then have "held_slots (sh_sessions s) = held_slots (AList.update peer (Opening []) (sh_sessions s)) + image_mset (Pair peer) (mset (p # qs))"
      by (rule sym)
    then have "held (s\<lparr> sh_sessions := AList.update peer (Opening []) (sh_sessions s), sh_tasks := us @ Draining peer i (p # qs) # vs \<rparr>) = held s"
      by (simp add: held_def t ac_simps)
    then show ?thesis
      unfolding out using assms(1) slots_take [OF slots ps] ps Cons
      by (intro fine_quiet) (auto simp: shard_parts length_update_alist)
  qed
qed

lemma open_send_ok:
  assumes "shard_inv s" "k < length (sh_tasks s)" "sh_tasks s ! k = Draining peer i (packet # rest)"
  shows "fine_turn v hour (Some (Upload, peer, i, packet)) {#} s (open_send v hour now k peer i packet rest s)"
proof -
  obtain us vs where t: "sh_tasks s = us @ Draining peer i (packet # rest) # vs" "length us = k"
    using split_task [OF assms(2)] assms(3) by auto
  have "slots_inv (map_of (sh_sessions s)) (us @ Draining peer i (packet # rest) # vs) (length (sh_arena s))"
    using assms(1) t by (simp add: shard_inv_def slots_ok_def)
  then have here: "i < length (sh_arena s)" "small packet" by (simp_all add: slots_inv_def)
  obtain s1 r where run: "forward v hour now i packet s = Some (s1, r)" "same_slots s s1" "data_ok s1"
    "settles v hour (Some (Upload, peer, i, packet)) s s1"
    by (rule forward_runs [of s i packet v hour now]) (use assms here in \<open>simp_all add: shard_inv_def, blast?\<close>)
  then have inv1: "slots_ok s1" "loop_ok s1" "sh_max_sessions s1 = sh_max_sessions s"
    "tp_targets (sh_pool s1) = tp_targets (sh_pool s)"
    using assms(1) same_slots_ok [OF run(2)] by (simp_all add: shard_inv_def same_slots_def)
  have t1: "sh_tasks s1 = us @ Draining peer i (packet # rest) # vs" using run(2) t by (simp add: same_slots_def)
  then have slots: "slots_inv (map_of (sh_sessions s1)) (us @ Draining peer i (packet # rest) # vs) (length (sh_arena s1))"
    using inv1(1) by (simp add: slots_ok_def)
  have less: "{#(peer, packet)#} + held s2 \<subseteq># held s"
    if "held_slots (sh_sessions s2) \<subseteq># held_slots (sh_sessions s1)" "sh_tasks s2 = us @ vs \<or> sh_tasks s2 = us @ Draining peer i rest # vs"
      "sh_batch s2 = sh_batch s1" "sh_sending s2 = sh_sending s1" for s2
  proof -
    have "{#(peer, packet)#} + held_tasks (sh_tasks s2) \<subseteq># held_tasks (sh_tasks s1)"
      using that(2) by (auto simp: t1)
    with that(1) have "held_slots (sh_sessions s2) + ({#(peer, packet)#} + held_tasks (sh_tasks s2))
        \<subseteq># held_slots (sh_sessions s1) + held_tasks (sh_tasks s1)"
      by (rule subset_mset.add_mono)
    then have "{#(peer, packet)#} + held s2 \<subseteq># held s1"
      using that(3,4) by (simp add: held_def ac_simps)
    then show ?thesis using same_slots_held [OF run(2)] by simp
  qed
  show ?thesis
  proof (cases r)
    case (Inl e)
    have out: "open_send v hour now k peer i packet rest s = Some (s1\<lparr> sh_sessions := AList.delete peer (sh_sessions s1), sh_tasks := us @ vs \<rparr>)"
      using run(1) Inl finish_append [of "forget_peer peer s1", OF _ t(2)] t1 by (simp add: open_send_def forget_peer_def)
    show ?thesis
      unfolding out using inv1 run(3) settles_frame [OF run(4)] less slots_forget [OF slots]
        length_delete_le [of peer "sh_sessions s1"] held_slots_delete
      by (simp add: fine_turn_def shard_parts)
  next
    case (Inr u)
    have out: "open_send v hour now k peer i packet rest s = Some (s1\<lparr> sh_tasks := us @ Draining peer i rest # vs \<rparr>)"
      using run(1) Inr move_append [OF t1 t(2)] by (simp add: open_send_def)
    show ?thesis
      unfolding out using inv1 run(3) settles_frame [OF run(4)] less slots_sent [OF slots]
      by (simp add: fine_turn_def shard_parts)
  qed
qed

lemma relay_end_ok:
  assumes "shard_inv s" "k < length (sh_tasks s)" "sh_tasks s ! k = Relaying peer i"
  shows "shard_inv (relay_end k peer i s)" "held (relay_end k peer i s) \<subseteq># held s"
proof -
  obtain us vs where t: "sh_tasks s = us @ Relaying peer i # vs" "length us = k" using split_task [OF assms(2)] assms(3) by auto
  have slots: "slots_inv (map_of (sh_sessions s)) (us @ Relaying peer i # vs) (length (sh_arena s))"
    using assms(1) t by (simp add: shard_inv_def slots_ok_def)
  have "sh_tasks (remove_open peer i s) = us @ Relaying peer i # vs" using t by simp
  then have "relay_end k peer i s = (remove_open peer i s)\<lparr> sh_tasks := us @ vs \<rparr>"
    unfolding relay_end_def by (rule finish_append) (rule t(2))
  note out = this
  with slots_relay_end [OF slots] assms(1) length_delete_le [of peer "sh_sessions s"] show "shard_inv (relay_end k peer i s)"
    by (auto simp: shard_parts remove_open_def split: if_splits)
  have "held (relay_end k peer i s) \<subseteq># held (remove_open peer i s)"
    unfolding out by (rule held_less) (simp_all add: t)
  then show "held (relay_end k peer i s) \<subseteq># held s" using held_remove_open subset_mset.order_trans by blast
qed

lemma relay_end_frame [simp]:
  "sh_sent (relay_end k peer i s) = sh_sent s" "sh_pool (relay_end k peer i s) = sh_pool s" "sh_quota (relay_end k peer i s) = sh_quota s"
  "sh_max_sessions (relay_end k peer i s) = sh_max_sessions s"
  by (simp_all add: relay_end_def finish_task_def)

lemma relay_reply_ok:
  assumes "shard_inv s" "k < length (sh_tasks s)" "sh_tasks s ! k = Relaying peer i" "length data \<le> RECV_BUF"
  shows "fine_turn v hour (Some (Download, peer, i, \<lparr> pd_data = data, pd_stride = stride \<rparr>)) {#} s
    (relay_reply v hour now pool_ms data stride k peer i s)"
proof -
  let ?off = "Some (Download, peer, i, \<lparr> pd_data = data, pd_stride = stride \<rparr>)"
  have "Relaying peer i \<in> set (sh_tasks s)" using assms(2,3) nth_mem by metis
  then have i: "i < length (sh_arena s)" using assms(1) by (auto simp: shard_inv_def slots_ok_def slots_inv_def list_all_iff)
  then have sess: "session_ok (sh_pool s) (sh_arena s ! i)" using assms(1) by (simp add: shard_inv_def data_ok_def list_all_length)
  obtain p where p: "confirm pool_ms (un_target_index (sh_arena s ! i)) (sh_pool s) = Some p" "pool_inv p" "tp_targets p = tp_targets (sh_pool s)"
    using assms(1) sess by (auto simp: shard_inv_def data_ok_def session_ok_def elim: confirm_ok)
  obtain q ok where consume: "try_consume_at (word_of_nat (length data)) Download hour (sh_quota s) = (q, ok)" by fastforce
  let ?s1 = "s\<lparr> sh_pool := p, sh_quota := q \<rparr>"
  obtain n ds r where out: "endpoint_send v (sh_endpoint s) peer data stride = (n, ds, r)" using prod_cases3 by blast
  define t where "t = (if ok then (touch i now ?s1)\<lparr> sh_sent := sh_sent s @ ds \<rparr> else ?s1)"
  have run: "relay_reply v hour now pool_ms data stride k peer i s = Some (if ok \<and> \<not> isl r then t else relay_end k peer i t)"
    by (cases r) (simp_all add: relay_reply_def p(1) consume out Let_def t_def)
  have inv1: "shard_inv ?s1" using assms(1) p session_ok_pool(2) [OF p(3)] by (simp add: shard_parts)
  then have inv: "shard_inv t" using touch_sessions [of p ?s1 i now] i by (simp add: t_def shard_parts)
  have same: "sh_max_sessions t = sh_max_sessions s" "tp_targets (sh_pool t) = tp_targets (sh_pool s)" "held t = held s"
    "sh_tasks t = sh_tasks s"
    by (simp_all add: t_def p(3) held_def)
  have sends: "sends (n, ds, r) (mails Download peer i \<lparr> pd_data = data, pd_stride = stride \<rparr> s)" if "cuts_segments v"
    using endpoint_send_sends [OF that, of "sh_endpoint s" peer data stride] assms(1) out
    by (simp add: shard_inv_def data_ok_def mails_def)
  have "\<not> isl r" if "\<forall>n. ue_fails v n = None"
    using endpoint_send_answers [OF that, of "sh_endpoint s" peer data stride] out by simp
  with sends i assms(4) have settles: "settles v hour ?off s t"
    by (auto simp: settles_def consume sends_def small_def t_def)
  have "k < length (sh_tasks t)" "sh_tasks t ! k = Relaying peer i" using assms(2,3) same(4) by simp_all
  note ended = relay_end_ok [OF inv this]
  from settles have "settles v hour ?off s (relay_end k peer i t)" by (rule settles_frame) simp_all
  with settles run inv same ended show ?thesis by (auto simp: fine_turn_def)
qed

lemma relay_turn_ok:
  assumes "shard_inv s" "k < length (sh_tasks s)" "sh_tasks s ! k = Relaying peer i"
  shows "fine_turn v hour (offered (RelayTurn k ev) s) {#} s (relay_turn v hour now pool_ms ev k peer i s)"
proof (cases "\<exists>data stride. ev = Reply data stride \<and> length data \<le> RECV_BUF")
  case True
  then obtain data stride where ev: "ev = Reply data stride" "length data \<le> RECV_BUF" by blast
  from relay_reply_ok [OF assms ev(2)] show ?thesis using assms(2,3) ev by (simp add: relay_turn_def offered_def)
next
  case False
  then have "offered (RelayTurn k ev) s = None" by (auto simp: offered_def split: upstream_event.split)
  with False relay_end_ok [OF assms] assms(1) show ?thesis
    by (cases ev) (auto simp: relay_turn_def Let_def intro!: fine_quiet)
qed

lemma receive_ok: "shard_inv s \<Longrightarrow> shard_inv (receive packets s)"
  by (auto simp: receive_def small_def shard_parts)

lemma receive_frame [simp]:
  "sh_sent (receive packets s) = sh_sent s" "sh_pool (receive packets s) = sh_pool s" "sh_quota (receive packets s) = sh_quota s" "sh_max_sessions (receive packets s) = sh_max_sessions s"
  by (simp_all add: receive_def)

lemma receive_held: "held (receive packets s) \<subseteq># held s + mset packets"
  by (simp add: receive_def held_def)

lemma dispatch_next_cases:
  obtains (idle) "dispatch_next s = s"
  | (packet) peer packet rest where "sh_batch s = (peer, packet) # rest" "sh_sending s = None"
      "dispatch_next s = dispatch_lookup peer packet (s\<lparr> sh_batch := rest \<rparr>)"
  by (cases "sh_sending s"; cases "sh_batch s") (auto simp: dispatch_next_def)

lemma dispatch_next_ok:
  assumes "shard_inv s"
  shows "fine_turn v hour None {#} s (Some (dispatch_next s))"
proof (cases rule: dispatch_next_cases [of s])
  case (packet peer packet rest)
  let ?s = "s\<lparr> sh_batch := rest \<rparr>"
  have "shard_inv ?s" "small packet" using assms packet by (auto simp: shard_parts)
  moreover have "held (dispatch_lookup peer packet ?s) \<subseteq># held s"
    using held_dispatch_lookup [of ?s peer packet] packet by (simp add: held_def ac_simps)
  ultimately show ?thesis using dispatch_lookup_ok [of ?s packet peer] packet by (simp add: fine_quiet)
qed (use assms in \<open>simp add: fine_quiet\<close>)

lemma send_now_ok:
  assumes "shard_inv s"
  shows "fine_turn v hour (offered SendNow s) {#} s (send_now v hour now s)"
proof (cases "sh_sending s")
  case (Some x)
  obtain peer i packet where x: "x = (peer, i, packet)" by (cases x) auto
  let ?s = "s\<lparr> sh_sending := None \<rparr>" and ?off = "Some (Upload, peer, i, packet)"
  have "shard_inv ?s" "i < length (sh_arena ?s)" "small packet" using assms Some x by (auto simp: shard_parts)
  then obtain s' where s': "dispatch_send v hour now peer i packet ?s = Some s'" "shard_inv s'"
    "sh_max_sessions s' = sh_max_sessions ?s" "tp_targets (sh_pool s') = tp_targets (sh_pool ?s)"
    "settles v hour ?off ?s s'" "held s' \<subseteq># held ?s"
    by (rule dispatch_send_ok)
  have "settles v hour ?off s s'" using s'(5) settles_from [of ?s s v hour ?off s'] by simp
  moreover have "held s = {#(peer, packet)#} + held ?s" using Some x by (simp add: held_def ac_simps)
  ultimately show ?thesis using s' Some x by (simp add: send_now_def fine_turn_def offered_def)
qed (use assms in \<open>simp add: send_now_def fine_quiet offered_def\<close>)

lemma open_turn_ok:
  assumes "shard_inv s"
  shows "fine_turn v hour (offered (OpenTurn k d) s) {#} s (open_turn v hour now k d s)"
proof (cases "k < length (sh_tasks s)")
  case True
  have stay: "fine_turn v hour None {#} s (Some s)" using assms by (simp add: fine_quiet)
  show ?thesis
  proof (cases "sh_tasks s ! k")
    case (Draining peer i ps)
    then show ?thesis
      using True open_drain_ok [OF assms True] open_send_ok [OF assms True] by (cases ps) (simp_all add: open_turn_def offered_def)
  qed (use True open_connect_ok [OF assms True] stay in \<open>simp_all add: open_turn_def offered_def\<close>)
qed (use assms in \<open>simp add: open_turn_def offered_def fine_quiet\<close>)

lemma upstream_turn_ok:
  assumes "shard_inv s"
  shows "fine_turn v hour (offered (RelayTurn k e) s) {#} s (upstream_turn v hour now pool_ms k e s)"
proof (cases "\<exists>peer i. k < length (sh_tasks s) \<and> sh_tasks s ! k = Relaying peer i")
  case True
  then obtain peer i where k: "k < length (sh_tasks s)" "sh_tasks s ! k = Relaying peer i" by blast
  with relay_turn_ok [OF assms k] show ?thesis by (simp add: upstream_turn_def)
next
  case False
  then have "offered (RelayTurn k e) s = None" "upstream_turn v hour now pool_ms k e s = Some s"
    by (auto simp: offered_def upstream_turn_def not_le split: upstream_event.split udp_task.split)
  with assms show ?thesis by (simp add: fine_quiet)
qed

lemma shard_turn_ok:
  assumes "shard_inv s"
  shows "fine_turn v hour (offered ev s) (arrived ev) s (shard_turn v hour now pool_ms ev s)"
proof -
  have "shard_inv (s\<lparr> sh_stop := True \<rparr>)" "held (s\<lparr> sh_stop := True \<rparr>) = held s"
    using assms by (simp_all add: shard_parts held_def)
  with dispatch_next_ok [OF assms] send_now_ok [OF assms] open_turn_ok [OF assms] upstream_turn_ok [OF assms]
    receive_ok [OF assms] receive_held [of _ s] show ?thesis
    by (cases ev) (simp_all add: shard_turn_def fine_quiet arrived_def, simp_all add: offered_def fine_quiet)
qed

lemma shard_turnD:
  assumes "shard_inv s" "shard_turn v hour now pool_ms ev s = Some s'"
  shows "shard_inv s'" "sh_max_sessions s' = sh_max_sessions s" "tp_targets (sh_pool s') = tp_targets (sh_pool s)"
    "settles v hour (offered ev s) s s'" "uploaded (offered ev s) + held s' \<subseteq># held s + arrived ev"
  using shard_turn_ok [OF assms(1), of v hour ev now pool_ms] assms(2) by (simp_all add: fine_turn_def)

section \<open>From the start on\<close>

text \<open>Between two turns other tasks may change the health of the targets and the user's account.\<close>

inductive shard_run :: "shard \<Rightarrow> shard \<Rightarrow> bool" where
  served: "shard_run s s"
| turned: "shard_run s s1 \<Longrightarrow> shard_turn v hour now_ms pool_ms ev s1 = Some s2 \<Longrightarrow> shard_run s s2"
| elsewhere: "shard_run s s1 \<Longrightarrow> pool_inv p \<Longrightarrow> tp_targets p = tp_targets (sh_pool s1)
    \<Longrightarrow> shard_run s (s1\<lparr> sh_pool := p, sh_quota := q \<rparr>)"

lemma shard_run_inv: "shard_run s s' \<Longrightarrow> shard_inv s \<Longrightarrow> shard_inv s' \<and> sh_max_sessions s' = sh_max_sessions s"
proof (induction rule: shard_run.induct)
  case (turned s s1 v hour now_ms pool_ms ev s2)
  with shard_turnD(1,2) [of s1] show ?case by fastforce
next
  case (elsewhere s s1 p q)
  have old: "shard_inv s1" "sh_max_sessions s1 = sh_max_sessions s" using elsewhere.IH elsewhere.prems by blast+
  from session_ok_pool(2) [OF elsewhere.hyps(3)] have "list_all (session_ok p) (sh_arena s1)"
    using old(1) by (simp add: shard_inv_def data_ok_def)
  with old elsewhere.hyps(2) show ?case
    by (simp add: shard_parts)
qed simp

lemma endpoints_new_fresh: "endpoints_new prepare xs = Inr eps \<Longrightarrow> length eps = length xs \<and> (\<forall>ep\<in>set eps. ep_peer ep = None)"
proof (induction xs arbitrary: eps)
  case (Cons x xs)
  obtain socket a where x: "x = (socket, a)" by (cases x)
  from Cons.prems x obtain rest where "endpoints_new prepare xs = Inr rest"
    "eps = \<lparr> ep_socket = socket, ep_peer = None \<rparr> # rest"
    by (auto split: option.splits sum.splits)
  with Cons.IH show ?case by simp
qed simp

lemma bind_loop_length: "bind_loop os shared n i addr = Inr xs \<Longrightarrow> length xs = n"
proof (induction n arbitrary: i addr xs)
  case (Suc n)
  from Suc.prems obtain socket addr' rest where "bind_loop os shared n (Suc i) addr' = Inr rest" "xs = (socket, addr') # rest"
    by (auto split: sum.splits)
  with Suc.IH show ?case by simp
qed simp

lemma udp_bind_endpoints:
  "udp_bind os prepare par addr = Inr eps \<Longrightarrow> length eps \<le> max 1 MAX_SHARDS \<and> eps \<noteq> [] \<and> (\<forall>ep\<in>set eps. ep_peer ep = None)"
  by (auto simp: udp_bind_def bind_sockets_def shard_count_def MAX_SHARDS_def split: sum.splits
      dest!: bind_loop_length endpoints_new_fresh)

lemma served_shard_inv:
  assumes "udp_bind os prepare par addr = Inr eps" "s0 \<in> set (serve_with_limit eps pool quota max_sessions idle_ms)" "pool_inv pool"
  shows "shard_inv s0 \<and> sh_max_sessions s0 = per_shard max_sessions (length eps)"
  using assms udp_bind_endpoints [OF assms(1)]
  by (auto simp: serve_with_limit_def shard_start_def shard_inv_def slots_ok_def slots_inv_def loop_ok_def data_ok_def list_all_iff)

text \<open>The shards together hold the configured number of sessions, rounded up to a multiple of the shards.\<close>

lemma per_shard_bounds: "max_sessions \<le> per_shard max_sessions n * max n 1 \<and> per_shard max_sessions n * max n 1 < max_sessions + max n 1"
proof -
  let ?n = "max n 1" and ?x = "max_sessions + max n 1 - 1"
  have "?x div ?n * ?n + ?x mod ?n = ?x" "?x mod ?n < ?n" by (rule div_mult_mod_eq) simp
  then show ?thesis unfolding per_shard_def by linarith
qed

section \<open>One client per session\<close>

fun task_use :: "udp_task \<Rightarrow> (socket_addr \<times> nat) option" where
  "task_use (Connecting _) = None"
| "task_use (Draining peer i _) = Some (peer, i)"
| "task_use (Relaying peer i) = Some (peer, i)"

text \<open>Which client's datagrams may pass through which session.\<close>

definition uses :: "shard \<Rightarrow> (socket_addr \<times> nat) set" where
  "uses s = {(peer, i). map_of (sh_sessions s) peer = Some (Open i)} \<union> {x. \<exists>t\<in>set (sh_tasks s). task_use t = Some x}
     \<union> {(peer, i). \<exists>packet. sh_sending s = Some (peer, i, packet)}"

lemma forward_frame:
  assumes "forward v hour now i packet s = Some (s', r)"
  shows "uses s' = uses s" "length (sh_arena s') = length (sh_arena s)" "sh_tasks s' = sh_tasks s"
  using assms by (auto simp: forward_def uses_def Let_def bind_eq_Some_conv split: prod.splits if_splits sum.splits)

lemma task_uses: "k < length (sh_tasks s) \<Longrightarrow> task_use (sh_tasks s ! k) = Some x \<Longrightarrow> x \<in> uses s"
  unfolding uses_def using nth_mem by blast

lemma finish_uses: "uses (finish_task k s) \<subseteq> uses s"
  by (auto simp: uses_def finish_task_def dest: in_set_takeD in_set_dropD)

lemma move_uses: "uses (move_task k t s) \<subseteq> uses s \<union> {x. task_use t = Some x}"
  using set_update_subset_insert [of "sh_tasks s" k t] by (fastforce simp: uses_def move_task_def)

lemma remove_open_uses: "uses (remove_open peer i s) \<subseteq> uses s"
  by (auto simp: uses_def remove_open_def split: if_splits)

lemma forget_uses: "uses (forget_peer peer s) \<subseteq> uses s"
  by (auto simp: uses_def forget_peer_def split: if_splits)

lemma relay_end_uses: "uses (relay_end k peer i s) \<subseteq> uses s"
  using finish_uses remove_open_uses unfolding relay_end_def by blast

lemma arena_frame [simp]:
  "sh_arena (finish_task k s) = sh_arena s" "sh_arena (move_task k t s) = sh_arena s" "sh_arena (remove_open peer i s) = sh_arena s"
  "sh_arena (forget_peer peer s) = sh_arena s" "sh_arena (relay_end k peer i s) = sh_arena s"
  "sh_arena (dispatch_lookup peer packet s) = sh_arena s" "sh_arena (open_drain k peer i s) = sh_arena s"
  "sh_arena (receive packets s) = sh_arena s"
  by (simp_all add: finish_task_def move_task_def remove_open_def forget_peer_def relay_end_def dispatch_lookup_def
      open_drain_def receive_def split: option.split slot.split list.split)

text \<open>A turn uses no session for a new client, except a session that is new itself.\<close>

definition new_uses :: "shard \<Rightarrow> shard \<Rightarrow> bool" where
  "new_uses s s' \<longleftrightarrow> uses s' \<subseteq> uses s \<and> length (sh_arena s') = length (sh_arena s)
     \<or> (\<exists>peer. uses s' \<subseteq> insert (peer, length (sh_arena s)) (uses s) \<and> length (sh_arena s') = Suc (length (sh_arena s)))"

lemma dispatch_lookup_uses: "uses (dispatch_lookup peer packet s) \<subseteq> uses s \<union> {(peer, i) | i. map_of (sh_sessions s) peer = Some (Open i)}"
  by (auto simp: dispatch_lookup_def uses_def split: option.splits slot.splits if_splits)

lemma open_turn_uses:
  assumes "k < length (sh_tasks s)" "open_turn v hour now k d s = Some s'"
  shows "new_uses s s'"
proof (cases "sh_tasks s ! k")
  case (Connecting peer)
  then obtain p r where c: "udp_connect_active d now (sh_pool s) = Some (p, r)"
    using assms by (auto simp: open_turn_def open_connect_def bind_eq_Some_conv)
  have run: "s' = (case r of Inl _ \<Rightarrow> finish_task k (forget_peer peer (s\<lparr> sh_pool := p \<rparr>))
      | Inr sess \<Rightarrow> move_task k (Draining peer (length (sh_arena s)) []) (s\<lparr> sh_pool := p, sh_arena := sh_arena s @ [sess] \<rparr>))"
    using assms Connecting by (cases r) (simp_all add: open_turn_def open_connect_def c Let_def)
  have same: "uses (s\<lparr> sh_pool := p \<rparr>) = uses s" "uses (s\<lparr> sh_pool := p, sh_arena := ar \<rparr>) = uses s" for ar
    by (simp_all add: uses_def)
  show ?thesis
  proof (cases r)
    case (Inl e)
    have "uses s' \<subseteq> uses s" using finish_uses forget_uses same(1) unfolding run Inl by fastforce
    then show ?thesis using run Inl by (simp add: new_uses_def)
  next
    case (Inr sess)
    then have "uses s' \<subseteq> insert (peer, length (sh_arena s)) (uses s)"
      using move_uses [of k "Draining peer (length (sh_arena s)) []" "s\<lparr> sh_pool := p, sh_arena := sh_arena s @ [sess] \<rparr>"] same(2)
      by (auto simp: run)
    then show ?thesis using run Inr by (auto simp: new_uses_def)
  qed
next
  case (Draining peer i ps)
  have used: "(peer, i) \<in> uses s" using task_uses [OF assms(1)] Draining by simp
  show ?thesis
  proof (cases ps)
    case Nil
    have upd: "uses (s\<lparr> sh_sessions := AList.update peer sl (sh_sessions s) \<rparr>) \<subseteq> insert (peer, i) (uses s)"
      if "\<forall>j. sl = Open j \<longrightarrow> j = i" for sl
      using that by (auto simp: uses_def split: if_splits)
    have "uses (open_drain k peer i s) \<subseteq> uses s"
      using used by (auto simp: open_drain_def split: option.splits slot.splits list.splits
          dest!: move_uses [THEN subsetD] upd [THEN subsetD, rotated])
    then show ?thesis using assms Draining Nil by (auto simp: open_turn_def new_uses_def)
  next
    case (Cons packet rest)
    then obtain s1 r where run: "forward v hour now i packet s = Some (s1, r)"
      "s' = (case r of Inr _ \<Rightarrow> move_task k (Draining peer i rest) s1 | Inl _ \<Rightarrow> finish_task k (forget_peer peer s1))"
      using assms Draining by (auto simp: open_turn_def open_send_def bind_eq_Some_conv)
    have "uses s' \<subseteq> uses s"
      using used forward_frame(1) [OF run(1)] finish_uses [of k "forget_peer peer s1"] forget_uses [of peer s1]
        move_uses [of k "Draining peer i rest" s1]
      by (cases r) (auto simp: run(2))
    then show ?thesis using run(2) forward_frame(2) [OF run(1)] by (cases r) (simp_all add: new_uses_def)
  qed
qed (use assms in \<open>simp add: open_turn_def new_uses_def\<close>)

lemma relay_reply_uses:
  assumes "relay_reply v hour now pool_ms data stride k peer i s = Some s'"
  shows "uses s' \<subseteq> uses s \<and> length (sh_arena s') = length (sh_arena s)"
proof -
  obtain p where p: "confirm pool_ms (un_target_index (sh_arena s ! i)) (sh_pool s) = Some p"
    using assms by (auto simp: relay_reply_def bind_eq_Some_conv)
  obtain q ok where q: "try_consume_at (word_of_nat (length data)) Download hour (sh_quota s) = (q, ok)" by fastforce
  obtain n ds r where out: "endpoint_send v (sh_endpoint s) peer data stride = (n, ds, r)" using prod_cases3 by blast
  let ?s1 = "s\<lparr> sh_pool := p, sh_quota := q \<rparr>"
  define t where "t = (if ok then (touch i now ?s1)\<lparr> sh_sent := sh_sent s @ ds \<rparr> else ?s1)"
  have "relay_reply v hour now pool_ms data stride k peer i s
      = Some (if ok \<and> \<not> isl r then t else relay_end k peer i t)"
    by (cases r) (simp_all add: relay_reply_def p q out Let_def t_def)
  then have "s' = t \<or> s' = relay_end k peer i t" using assms by (simp split: if_splits)
  moreover have "uses t = uses s" "length (sh_arena t) = length (sh_arena s)"
    by (simp_all add: t_def uses_def)
  ultimately show ?thesis using relay_end_uses [of k peer i t] by auto
qed

lemma new_uses_same [intro]: "uses s' \<subseteq> uses s \<Longrightarrow> length (sh_arena s') = length (sh_arena s) \<Longrightarrow> new_uses s s'"
  by (simp add: new_uses_def)

lemma dispatch_next_uses: "new_uses s (dispatch_next s)"
proof (cases rule: dispatch_next_cases [of s])
  case (packet peer packet rest)
  have "uses (dispatch_next s) \<subseteq> uses s"
    using dispatch_lookup_uses [of peer packet "s\<lparr> sh_batch := rest \<rparr>"] packet(3) by (auto simp: uses_def)
  then show ?thesis using packet(3) by auto
qed auto

lemma send_now_uses:
  assumes "send_now v hour now s = Some s'"
  shows "new_uses s s'"
proof (cases "sh_sending s")
  case (Some x)
  obtain peer i packet where x: "x = (peer, i, packet)" by (cases x) auto
  let ?s = "s\<lparr> sh_sending := None \<rparr>"
  obtain s1 r where run: "forward v hour now i packet ?s = Some (s1, r)" "s' = (case r of Inr _ \<Rightarrow> s1 | Inl _ \<Rightarrow> remove_open peer i s1)"
    using assms Some x by (auto simp: send_now_def dispatch_send_def bind_eq_Some_conv)
  have "uses ?s \<subseteq> uses s" by (auto simp: uses_def)
  with forward_frame(1,2) [OF run(1)] remove_open_uses [of peer i s1] run(2) show ?thesis
    by (cases r) (auto simp: new_uses_def)
qed (use assms in \<open>auto simp: send_now_def\<close>)

lemma upstream_turn_uses:
  assumes "k < length (sh_tasks s)" "upstream_turn v hour now pool_ms k e s = Some s'"
  shows "new_uses s s'"
proof (cases "sh_tasks s ! k")
  case (Relaying peer i)
  with assms have "relay_turn v hour now pool_ms e k peer i s = Some s'" by (simp add: upstream_turn_def)
  then have "uses s' \<subseteq> uses s \<and> length (sh_arena s') = length (sh_arena s)"
    using relay_end_uses [of k peer i s]
    by (auto simp: relay_turn_def Let_def dest: relay_reply_uses split: upstream_event.splits if_splits)
  then show ?thesis by auto
qed (use assms in \<open>auto simp: upstream_turn_def\<close>)

lemma shard_turn_uses:
  assumes "shard_turn v hour now pool_ms ev s = Some s'"
  shows "new_uses s s'"
proof (cases ev)
  case (OpenTurn k d)
  then have run: "open_turn v hour now k d s = Some s'" using assms by (simp add: shard_turn_def)
  show ?thesis
  proof (cases "k < length (sh_tasks s)")
    case True
    from open_turn_uses [OF this run] show ?thesis .
  qed (use run in \<open>auto simp: open_turn_def\<close>)
next
  case (RelayTurn k e)
  then have run: "upstream_turn v hour now pool_ms k e s = Some s'" using assms by (simp add: shard_turn_def)
  show ?thesis
  proof (cases "k < length (sh_tasks s)")
    case True
    from upstream_turn_uses [OF this run] show ?thesis .
  qed (use run in \<open>auto simp: upstream_turn_def\<close>)
qed (use assms dispatch_next_uses send_now_uses in \<open>auto simp: shard_turn_def uses_def receive_def split: if_splits\<close>)

definition one_client :: "shard \<Rightarrow> bool" where
  "one_client s \<longleftrightarrow> (\<forall>peer i. (peer, i) \<in> uses s \<longrightarrow> i < length (sh_arena s) \<and> (\<forall>other. (other, i) \<in> uses s \<longrightarrow> other = peer))"

lemma one_client_turn:
  assumes "one_client s" "new_uses s s'"
  shows "one_client s'"
proof -
  have "i < length (sh_arena s')" if "(peer, i) \<in> uses s'" for peer i
    using assms that by (fastforce simp: one_client_def new_uses_def)
  moreover have "other = peer" if "(peer, i) \<in> uses s'" "(other, i) \<in> uses s'" for peer other i
  proof (cases "i < length (sh_arena s)")
    case True
    then have "(peer, i) \<in> uses s" "(other, i) \<in> uses s" using assms(2) that by (auto simp: new_uses_def)
    then show ?thesis using assms(1) unfolding one_client_def by blast
  next
    case False
    then have old: "(p, i) \<notin> uses s" for p using assms(1) by (auto simp: one_client_def)
    then obtain p where "uses s' \<subseteq> insert (p, length (sh_arena s)) (uses s)"
      using assms(2) that(1) by (auto simp: new_uses_def)
    with that old have "(peer, i) = (p, length (sh_arena s))" "(other, i) = (p, length (sh_arena s))" by blast+
    then show ?thesis by simp
  qed
  ultimately show ?thesis by (simp add: one_client_def)
qed

lemma shard_run_one_client: "shard_run s s' \<Longrightarrow> one_client s \<Longrightarrow> one_client s'"
proof (induction rule: shard_run.induct)
  case (turned s s1 v hour now_ms pool_ms ev s2)
  with one_client_turn shard_turn_uses show ?case by blast
next
  case (elsewhere s s1 p q)
  have "uses (s1\<lparr> sh_pool := p, sh_quota := q \<rparr>) = uses s1" by (simp add: uses_def)
  with elsewhere.IH elsewhere.prems show ?case by (simp add: one_client_def)
qed simp

section \<open>The relay\<close>

lemma served_run:
  assumes "udp_bind os prepare par addr = Inr eps" "pool_new user targets cooldown = Some pool"
    "s0 \<in> set (serve_with_limit eps pool quota max_sessions idle_ms)" "shard_run s0 s"
  shows "shard_inv s" "sh_max_sessions s = per_shard max_sessions (length eps)" "one_client s"
proof -
  have s0: "shard_inv s0" "sh_max_sessions s0 = per_shard max_sessions (length eps)"
    using served_shard_inv [OF assms(1,3)] pool_new_inv [OF assms(2)] by blast+
  with shard_run_inv [OF assms(4)] show "shard_inv s" "sh_max_sessions s = per_shard max_sessions (length eps)" by auto
  have "one_client s0" using assms(3) by (auto simp: serve_with_limit_def shard_start_def one_client_def uses_def)
  with shard_run_one_client [OF assms(4)] show "one_client s" .
qed

text \<open>C23: the sessions of a UDP rule are bounded, owned and separate.  However packets, connections, replies,
  failures and timers interleave, no turn panics; a shard never holds more sessions than its share of the
  limit, and never more than 32 packets for a session that is being opened; every entry
  of the session map has a running task that will remove it, and a client has at most one task opening
  for it; and a session, with its upstream socket, only ever serves a single client.\<close>

theorem udp_sessions_stay_in_bounds:
  assumes "udp_bind os prepare par addr = Inr eps" "pool_new user targets cooldown = Some pool"
    "s0 \<in> set (serve_with_limit eps pool quota max_sessions idle_ms)" "shard_run s0 s"
  shows "shard_turn v hour now_ms pool_ms ev s \<noteq> None
    \<and> length (sh_sessions s) \<le> per_shard max_sessions (length eps)
    \<and> (\<forall>(peer, slot)\<in>set (sh_sessions s). case slot of
         Opening ps \<Rightarrow> peer \<in> set (openers (sh_tasks s)) \<and> length ps \<le> 32
       | Open i \<Rightarrow> Relaying peer i \<in> set (sh_tasks s))
    \<and> distinct (openers (sh_tasks s))
    \<and> (\<forall>peer other i. (peer, i) \<in> uses s \<and> (other, i) \<in> uses s \<longrightarrow> other = peer)"
proof -
  note run = served_run [OF assms]
  have slots: "length (sh_sessions s) \<le> sh_max_sessions s" "distinct (map fst (sh_sessions s))"
    "slots_inv (map_of (sh_sessions s)) (sh_tasks s) (length (sh_arena s))"
    using run(1) by (auto simp: shard_inv_def slots_ok_def)
  have entry: "case slot of Opening ps \<Rightarrow> peer \<in> set (openers (sh_tasks s)) \<and> length ps \<le> 32
      | Open i \<Rightarrow> Relaying peer i \<in> set (sh_tasks s)" if "(peer, slot) \<in> set (sh_sessions s)" for peer slot
    using map_of_is_SomeI [OF slots(2) that] slots(3)
    by (cases slot) (auto simp: slots_inv_def MAX_PENDING_PACKETS_def)
  have "shard_turn v hour now_ms pool_ms ev s \<noteq> None"
    using shard_turn_ok [OF run(1), of v hour ev now_ms pool_ms] by (auto simp: fine_turn_def)
  moreover have "distinct (openers (sh_tasks s))" using slots(3) by (simp add: slots_inv_def)
  moreover have "\<forall>peer other i. (peer, i) \<in> uses s \<and> (other, i) \<in> uses s \<longrightarrow> other = peer"
    using run(3) unfolding one_client_def by blast
  ultimately show ?thesis using slots(1) run(2) entry by auto
qed

text \<open>
  A history of a shard with what came in: every packet that was received, with its client, and every packet that was
  offered to an upstream since.
\<close>

inductive shard_history :: "shard \<Rightarrow> (socket_addr \<times> pending) multiset \<Rightarrow> (socket_addr \<times> pending) multiset \<Rightarrow> shard \<Rightarrow> bool" for s0 where
  begun: "shard_history s0 {#} {#} s0"
| took_turn: "shard_history s0 got gone s \<Longrightarrow> shard_turn v hour now_ms pool_ms ev s = Some s'
    \<Longrightarrow> shard_history s0 (got + arrived ev) (gone + uploaded (offered ev s)) s'"
| others: "shard_history s0 got gone s \<Longrightarrow> pool_inv p \<Longrightarrow> tp_targets p = tp_targets (sh_pool s)
    \<Longrightarrow> shard_history s0 got gone (s\<lparr> sh_pool := p, sh_quota := q \<rparr>)"

lemma shard_history_run: "shard_history s0 got gone s \<Longrightarrow> shard_run s0 s"
  by (induction rule: shard_history.induct) (auto intro: shard_run.intros)

lemma shard_history_held:
  assumes "shard_history s0 got gone s" "shard_inv s0" "held s0 = {#}"
  shows "gone + held s \<subseteq># got"
  using assms(1)
proof (induction rule: shard_history.induct)
  case (took_turn got gone s v hour now_ms pool_ms ev s')
  have "shard_inv s" using shard_run_inv [OF shard_history_run [OF took_turn.hyps(1)]] assms(2) by blast
  from shard_turnD(5) [OF this took_turn.hyps(2)] have "gone + (uploaded (offered ev s) + held s') \<subseteq># gone + (held s + arrived ev)"
    by (rule subset_mset.add_left_mono)
  also have "gone + (held s + arrived ev) \<subseteq># got + arrived ev"
    using took_turn.IH by (simp add: add.assoc [symmetric])
  finally show ?case by (simp add: ac_simps)
next
  case (others got gone s p q)
  then show ?case by (simp add: held_def)
qed (use assms(3) in simp)

lemma offered_uses: "offered ev s = Some (dir, peer, i, packet) \<Longrightarrow> (peer, i) \<in> uses s"
  using task_uses [of _ s]
  by (fastforce simp: offered_def uses_def not_le split: shard_event.splits upstream_event.splits udp_task.splits list.splits if_splits)

lemma offered_held:
  assumes "offered ev s = Some (Upload, peer, i, packet)"
  shows "{#(peer, packet)#} \<subseteq># held s"
proof -
  consider "ev = SendNow" "sh_sending s = Some (peer, i, packet)"
    | k d rest where "ev = OpenTurn k d" "k < length (sh_tasks s)" "sh_tasks s ! k = Draining peer i (packet # rest)"
    using assms by (auto simp: offered_def not_le split: shard_event.splits upstream_event.splits udp_task.splits list.splits if_splits)
  then show ?thesis
  proof cases
    case 1
    then show ?thesis by (simp add: held_def)
  next
    case (2 k d rest)
    then obtain us vs where "sh_tasks s = us @ Draining peer i (packet # rest) # vs" using split_task by metis
    then show ?thesis by (simp add: held_def)
  qed
qed

text \<open>C24: a turn of the UDP relay sends at most the one buffer that is its turn, counts all of it first, and sends it as
  the very datagrams it was received in.  A turn that has no buffer to send sends nothing and leaves the account alone.
  Otherwise the account is what charging the length of the buffer makes of it; if that is refused nothing is sent;
  if it is granted, what leaves is a prefix of the datagrams of the buffer cut at its stride, and all of them unless a
  call of the system fails, however it batches or refuses segments.  An upload leaves through the socket of the
  session to its target and is a packet that was received from the client of that session and not sent before; a
  download leaves through the socket of the shard for the client of the session that the reply came to; and that
  session serves no other client.\<close>

theorem udp_turn_bills_what_it_sends:
  assumes "udp_bind os prepare par addr = Inr eps" "pool_new user targets cooldown = Some pool"
    "s0 \<in> set (serve_with_limit eps pool quota max_sessions idle_ms)" "shard_history s0 got gone s"
    "shard_turn v hour now_ms pool_ms ev s = Some s'"
    "\<forall>stride data. 0 < stride \<longrightarrow> ue_segments v stride data = chunks stride data"
  shows "case offered ev s of
      None \<Rightarrow> sh_sent s' = sh_sent s \<and> sh_quota s' = sh_quota s
    | Some (dir, peer, i, packet) \<Rightarrow>
        length (pd_data packet) \<le> 65536 \<and> i < length (sh_arena s)
        \<and> (case dir of Upload \<Rightarrow> add_mset (peer, packet) gone \<subseteq># got
           | Download \<Rightarrow> \<exists>k. ev = RelayTurn k (Reply (pd_data packet) (pd_stride packet)) \<and> sh_tasks s ! k = Relaying peer i)
        \<and> (\<forall>other. (other, i) \<in> uses s \<longleftrightarrow> other = peer)
        \<and> (let whole = map (case dir of
                 Upload \<Rightarrow> mail (un_upstream (sh_arena s ! i)) (un_target (sh_arena s ! i))
               | Download \<Rightarrow> mail (sh_endpoint s) peer) (datagrams (pd_stride packet) (pd_data packet));
               (q, ok) = try_consume_at (word_of_nat (length (pd_data packet))) dir hour (sh_quota s)
           in sh_quota s' = q \<and> (\<exists>new. sh_sent s' = sh_sent s @ new
             \<and> (if ok then prefix new whole \<and> ((\<forall>n. ue_fails v n = None) \<longrightarrow> new = whole) else new = [])))"
proof -
  note run = served_run [OF assms(1-3) shard_history_run [OF assms(4)]]
  note turn = shard_turnD [OF run(1) assms(5)]
  have cuts: "cuts_segments v" using assms(6) by (simp add: cuts_segments_def)
  have "shard_inv s0" using served_shard_inv [OF assms(1,3)] pool_new_inv [OF assms(2)] by blast
  moreover have "held s0 = {#}"
    using assms(3) by (auto simp: serve_with_limit_def shard_start_def held_def held_slots_def)
  ultimately have "gone + held s \<subseteq># got" by (rule shard_history_held [OF assms(4)])
  show ?thesis
  proof (cases "offered ev s")
    case (Some off)
    obtain dir peer i packet where off: "off = (dir, peer, i, packet)" by (cases off) auto
    have "(other, i) \<in> uses s \<longleftrightarrow> other = peer" for other
      using offered_uses [of ev s dir peer i packet] Some off run(3) unfolding one_client_def by blast
    moreover have "case dir of Upload \<Rightarrow> add_mset (peer, packet) gone \<subseteq># got
        | Download \<Rightarrow> \<exists>k. ev = RelayTurn k (Reply (pd_data packet) (pd_stride packet)) \<and> sh_tasks s ! k = Relaying peer i"
    proof (cases dir)
      case Upload
      then have "{#(peer, packet)#} \<subseteq># held s"
        using offered_held [of ev s peer i packet] Some off by simp
      then have "gone + {#(peer, packet)#} \<subseteq># gone + held s" by (rule subset_mset.add_left_mono)
      from subset_mset.order_trans [OF this \<open>gone + held s \<subseteq># got\<close>] Upload show ?thesis by simp
    next
      case Download
      with Some off show ?thesis
        by (auto simp: offered_def split: shard_event.splits upstream_event.splits udp_task.splits list.splits if_splits)
    qed
    ultimately show ?thesis
      using turn(4) cuts Some off by (simp add: settles_def small_def RECV_BUF_def mails_def split: prod.splits if_splits)
  qed (use turn(4) in simp)
qed

section \<open>A session at work\<close>

text \<open>One client sends a buffer of five bytes in datagrams of two; the system takes two segments at a time.\<close>

definition demo_env :: udp_env where
  "demo_env = \<lparr> ue_fails = (\<lambda>_. None), ue_max_gso = 2, ue_segments = chunks \<rparr>"

definition demo_client :: socket_addr where
  "demo_client = SocketAddr (V4 [10, 0, 0, 9]) 0 5000"

definition demo_dial :: dial_env where
  "demo_dial = \<lparr> de_late = (\<lambda>_. False), de_lookup = (\<lambda>_. Inr []), de_socket = (\<lambda>_ _. Inr 7) \<rparr>"

definition demo_os :: bind_os where
  "demo_os = (\<lambda>i addr _. Inr (i, Inr addr))"

definition demo_quota :: user_quota where
  "demo_quota = new_metered_at ''ann'' (Some 100) saved_default MeterMax 3"

fun turns :: "shard_event list \<Rightarrow> shard \<Rightarrow> shard option" where
  "turns [] s = Some s"
| "turns (ev # evs) s = Option.bind (shard_turn demo_env 3 50 50 ev s) (turns evs)"

definition demo_events :: "shard_event list" where
  "demo_events = [Receive [(demo_client, \<lparr> pd_data = [1, 2, 3, 4, 5], pd_stride = 2 \<rparr>)], DispatchNext,
     OpenTurn 0 demo_dial, OpenTurn 0 demo_dial]"

definition demo_start :: shard where
  "demo_start = shard_start (per_shard 4096 1) 60000 \<lparr> ep_socket = 0, ep_peer = None \<rparr>
     (the (pool_new ''ann'' [''10.0.0.1:53''] None)) demo_quota"

lemma turns_run: "turns evs s = Some s' \<Longrightarrow> shard_run s0 s \<Longrightarrow> shard_run s0 s'"
  by (induction evs arbitrary: s) (auto simp: bind_eq_Some_conv intro: shard_run.turned)

lemma demo_bind:
  "udp_bind demo_os (\<lambda>_. None) (Some 1) demo_client = Inr [\<lparr> ep_socket = 0, ep_peer = None \<rparr>]"
  by (simp add: udp_bind_def bind_sockets_def shard_count_def MAX_SHARDS_def demo_os_def)

lemma demo_pool: "pool_new ''ann'' [''10.0.0.1:53''] None = Some (the (pool_new ''ann'' [''10.0.0.1:53''] None))"
  by (simp add: pool_new_def)

lemma demo_served: "demo_start \<in> set (serve_with_limit [\<lparr> ep_socket = 0, ep_peer = None \<rparr>]
    (the (pool_new ''ann'' [''10.0.0.1:53''] None)) demo_quota 4096 60000)"
  by (simp add: serve_with_limit_def demo_start_def)

lemma demo_turns: "map_option (\<lambda>s. (sh_sent s, sh_tasks s)) (turns demo_events demo_start)
    = Some ([], [Draining demo_client 0 [\<lparr> pd_data = [1, 2, 3, 4, 5], pd_stride = 2 \<rparr>]])"
  "map_option (\<lambda>s. map dg_data (sh_sent s)) (Option.bind (turns demo_events demo_start)
      (shard_turn demo_env 3 50 50 (OpenTurn 0 demo_dial))) = Some [[1, 2], [3, 4], [5]]"
  by code_simp+

theorem udp_sessions_stay_in_bounds_witness:
  "\<exists>s. turns demo_events demo_start = Some s \<and> length (sh_sessions s) \<le> 4096
     \<and> shard_turn demo_env 3 50 50 (OpenTurn 0 demo_dial) s \<noteq> None"
proof -
  obtain s where s: "turns demo_events demo_start = Some s" using demo_turns(1) by auto
  have "per_shard 4096 1 = 4096" by (simp add: per_shard_def)
  with s udp_sessions_stay_in_bounds [OF demo_bind demo_pool demo_served turns_run [OF s shard_run.served]]
  show ?thesis by auto
qed

lemma turns_history:
  "turns evs s = Some s' \<Longrightarrow> shard_history s0 got gone s
     \<Longrightarrow> \<exists>gone'. shard_history s0 (got + sum_list (map arrived evs)) gone' s'"
proof (induction evs arbitrary: s got gone)
  case (Cons ev evs)
  then obtain s1 where "shard_turn demo_env 3 50 50 ev s = Some s1" "turns evs s1 = Some s'"
    by (auto simp: bind_eq_Some_conv)
  with Cons.IH [OF _ shard_history.took_turn [OF Cons.prems(2)]] show ?case by (simp add: add.assoc)
qed auto

theorem udp_turn_bills_what_it_sends_witness:
  "\<exists>s s'. turns demo_events demo_start = Some s \<and> shard_turn demo_env 3 50 50 (OpenTurn 0 demo_dial) s = Some s'
     \<and> map dg_data (sh_sent s') = [[1, 2], [3, 4], [5]]
     \<and> sh_quota s' = fst (try_consume_at 5 Upload 3 (sh_quota s))"
proof -
  let ?p = "\<lparr> pd_data = [1, 2, 3, 4, 5], pd_stride = 2 \<rparr>"
  obtain s s' where s: "turns demo_events demo_start = Some s" "sh_sent s = []" "sh_tasks s = [Draining demo_client 0 [?p]]"
    and s': "shard_turn demo_env 3 50 50 (OpenTurn 0 demo_dial) s = Some s'" "map dg_data (sh_sent s') = [[1, 2], [3, 4], [5]]"
    using demo_turns by (auto simp: map_option_eq_Some bind_eq_Some_conv)
  obtain gone where run: "shard_history demo_start {#(demo_client, ?p)#} gone s"
    using turns_history [OF s(1) shard_history.begun] by (auto simp: demo_events_def arrived_def)
  have env: "\<forall>stride data. 0 < stride \<longrightarrow> ue_segments demo_env stride data = chunks stride data"
    by (simp add: demo_env_def)
  have "offered (OpenTurn 0 demo_dial) s = Some (Upload, demo_client, 0, ?p)" by (simp add: offered_def s(3))
  with udp_turn_bills_what_it_sends [OF demo_bind demo_pool demo_served run s'(1) env]
  have "sh_quota s' = fst (try_consume_at 5 Upload 3 (sh_quota s))"
    by (cases "try_consume_at 5 Upload 3 (sh_quota s)") (simp add: Let_def)
  with s(1) s' show ?thesis by (intro exI [of _ s] exI [of _ s']) simp
qed

end
