(* ===== verification/Traffic_Props.thy ===== *)
theory Traffic_Props
  imports Copy_Props Udp_Props
begin

text \<open>
  What holds of all forwarding tasks together.  The contract of a task towards the tasks it shares a scope with is the
  locale \<open>shared_task\<close>, which TCP connections and UDP shards meet; the invariant of a rule and of the node, and the
  account of what was forwarded, follow from the contract alone.
\<close>

section \<open>Tasks that share a scope\<close>

definition scope_ok :: "scope \<Rightarrow> bool" where
  "scope_ok sc \<longleftrightarrow> idle_empty (sc_idle sc) \<and> pool_inv (sc_pool sc)"

text \<open>A turn leaves the scope in order, counts at least \<open>k\<close> and at most \<open>b\<close> bytes, and does not touch the rest.\<close>

definition scope_step :: "nat \<Rightarrow> nat \<Rightarrow> scope \<Rightarrow> scope \<Rightarrow> bool" where
  "scope_step b k sc sc' \<longleftrightarrow> scope_ok sc' \<and> tp_targets (sc_pool sc') = tp_targets (sc_pool sc) \<and> sc_stop sc' = sc_stop sc
     \<and> consumed b k (sc_quota sc) (sc_quota sc')"

lemma scope_step_refl [simp]: "scope_step b 0 sc sc \<longleftrightarrow> scope_ok sc"
  by (simp add: scope_step_def)

text \<open>
  What a forwarding task promises to the other tasks of its rule, whoever they are: its turns never panic, keep
  its own invariant, which depends on the pool only through its size; they count no more than the bytes that
  were received and not counted yet, those still \<open>waiting\<close> in the task and those the event brings, and at most
  \<open>cost\<close>; and, when the system is \<open>honest\<close>, it never passes on more than it has counted.
\<close>

locale shared_task =
  fixes turn :: "'e \<Rightarrow> 's \<Rightarrow> scope \<Rightarrow> ('s \<times> scope) option"
    and ok :: "nat \<Rightarrow> 's \<Rightarrow> bool"
    and paid :: "'s \<Rightarrow> nat"
    and waiting :: "'s \<Rightarrow> nat"
    and cost :: "'e \<Rightarrow> nat"
    and brings :: "'e \<Rightarrow> nat"
    and honest :: "'e \<Rightarrow> bool"
  assumes turn_runs: "scope_ok sc \<Longrightarrow> ok (pool_len (sc_pool sc)) s \<Longrightarrow>
      \<exists>s' sc' b k. turn e s sc = Some (s', sc') \<and> ok (pool_len (sc_pool sc)) s' \<and> scope_step b k sc sc'
        \<and> b \<le> cost e \<and> b + waiting s' \<le> waiting s + brings e \<and> (honest e \<longrightarrow> paid s' \<le> paid s + k)"

context shared_task
begin

lemma nth_turn_runs:
  assumes "scope_ok sc" "list_all (ok (pool_len (sc_pool sc))) ss"
  obtains ss' sc' b k where "nth_turn (turn e) i ss sc = Some (ss', sc')" "list_all (ok (pool_len (sc_pool sc))) ss'"
    "length ss' = length ss" "scope_step b k sc sc'" "b \<le> cost e"
    "b + sum_list (map waiting ss') \<le> sum_list (map waiting ss) + brings e"
    "honest e \<Longrightarrow> sum_list (map paid ss') \<le> sum_list (map paid ss) + k"
proof (cases "i < length ss")
  case True
  then have s: "ok (pool_len (sc_pool sc)) (ss ! i)" using assms(2) by (simp add: list_all_length)
  obtain s' sc' b k where run: "turn e (ss ! i) sc = Some (s', sc')" "ok (pool_len (sc_pool sc)) s'"
    "scope_step b k sc sc'" "b \<le> cost e" "b + waiting s' \<le> waiting (ss ! i) + brings e"
    "honest e \<longrightarrow> paid s' \<le> paid (ss ! i) + k"
    using turn_runs [OF assms(1) s, of e] by blast
  have "honest e \<Longrightarrow> sum_list (map paid (ss[i := s'])) \<le> sum_list (map paid ss) + k"
    "b + sum_list (map waiting (ss[i := s'])) \<le> sum_list (map waiting ss) + brings e"
    using sum_list_nth_update [OF True, of paid s'] sum_list_nth_update [OF True, of waiting s'] run(5,6) by simp_all
  moreover have "list_all (ok (pool_len (sc_pool sc))) (ss[i := s'])"
    using assms(2) run(2) by (auto simp: list_all_iff dest!: set_update_subset_insert [THEN subsetD])
  ultimately show thesis using True run by (intro that [of "ss[i := s']" sc' b k]) (simp_all add: nth_turn_def)
next
  case False
  with assms show thesis by (intro that [of ss sc 0 0]) (simp_all add: nth_turn_def)
qed

end

section \<open>A TCP connection is such a task\<close>

definition conn_ok :: "conn \<Rightarrow> bool" where
  "conn_ok c \<longleftrightarrow> half_ok (cn_up c) \<and> half_ok (cn_down c)
     \<and> (case cn_phase c of
          Dialing \<Rightarrow> cn_up c = half_start \<and> cn_down c = half_start
        | Copying \<Rightarrow> True
        | Closed reason \<Rightarrow> hf_pipe (cn_up c) = None \<and> hf_pipe (cn_down c) = None
            \<and> (reason = BothEnded \<longrightarrow> hf_phase (cn_up c) = Ended Finished \<and> hf_phase (cn_down c) = Ended Finished))"

definition conn_paid :: "conn \<Rightarrow> nat" where
  "conn_paid c = half_paid (cn_up c) + half_paid (cn_down c)"

definition conn_cost :: "conn_event \<Rightarrow> nat" where
  "conn_cost ev = (case ev of ConnCopy _ e \<Rightarrow> half_bytes e | _ \<Rightarrow> 0)"

lemma half_drop_ok:
  assumes "half_ok h" "idle_empty idle" "half_drop h idle = (h', idle')"
  shows "half_ok h'" "idle_empty idle'" "half_paid h' \<le> half_paid h" "hf_pipe h' = None"
    "hf_phase h = Ended st \<Longrightarrow> h' = h"
proof -
  have "half_ok h' \<and> idle_empty idle' \<and> half_paid h' \<le> half_paid h \<and> hf_pipe h' = None \<and> (hf_phase h = Ended st \<longrightarrow> h' = h)"
  proof (cases "\<exists>st. hf_phase h = Ended st")
    case True
    with assms show ?thesis by (auto simp: half_drop_def half_ok_def)
  next
    case False
    then have "half_end Cancelled h idle = (h', idle')" using assms(3) by (auto simp: half_drop_def split: half_phase.splits)
    with half_end_ok [OF assms(2,1) _ _ this] False show ?thesis by simp
  qed
  then show "half_ok h'" "idle_empty idle'" "half_paid h' \<le> half_paid h" "hf_pipe h' = None"
    "hf_phase h = Ended st \<Longrightarrow> h' = h" by blast+
qed

lemma conn_close_ok:
  assumes "half_ok (cn_up c)" "half_ok (cn_down c)" "idle_empty (sc_idle sc)" "conn_close reason c sc = (c', sc')"
    "reason = BothEnded \<longrightarrow> hf_phase (cn_up c) = Ended Finished \<and> hf_phase (cn_down c) = Ended Finished"
  shows "conn_ok c'" "conn_paid c' \<le> conn_paid c" "\<exists>idle. idle_empty idle \<and> sc' = sc\<lparr> sc_idle := idle \<rparr>"
proof -
  obtain u idle1 where u: "half_drop (cn_up c) (sc_idle sc) = (u, idle1)" by fastforce
  obtain d idle2 where d: "half_drop (cn_down c) idle1 = (d, idle2)" by fastforce
  note u' = half_drop_ok [OF assms(1,3) u]
  note d' = half_drop_ok [OF assms(2) u'(2) d]
  have c': "c' = \<lparr> cn_phase = Closed reason, cn_up = u, cn_down = d \<rparr>" "sc' = sc\<lparr> sc_idle := idle2 \<rparr>"
    using assms(4) u d by (simp_all add: conn_close_def)
  show "conn_ok c'" using u'(1,4,5) d'(1,4,5) assms(5) by (auto simp: c' conn_ok_def)
  show "conn_paid c' \<le> conn_paid c" using u'(3) d'(3) by (simp add: c' conn_paid_def)
  show "\<exists>idle. idle_empty idle \<and> sc' = sc\<lparr> sc_idle := idle \<rparr>" using d'(2) c'(2) by blast
qed

lemma conn_join_ok:
  assumes "half_ok (cn_up c)" "half_ok (cn_down c)" "cn_phase c = Copying" "idle_empty (sc_idle sc)" "conn_join c sc = (c', sc')"
  shows "conn_ok c'" "conn_paid c' \<le> conn_paid c" "\<exists>idle. idle_empty idle \<and> sc' = sc\<lparr> sc_idle := idle \<rparr>"
proof -
  have "conn_ok c' \<and> conn_paid c' \<le> conn_paid c \<and> (\<exists>idle. idle_empty idle \<and> sc' = sc\<lparr> sc_idle := idle \<rparr>)"
  proof (cases "\<exists>reason. conn_close reason c sc = (c', sc') \<and> (reason = BothEnded \<longrightarrow> hf_phase (cn_up c) = Ended Finished \<and> hf_phase (cn_down c) = Ended Finished)")
    case True
    then obtain reason where r: "conn_close reason c sc = (c', sc')"
      "reason = BothEnded \<longrightarrow> hf_phase (cn_up c) = Ended Finished \<and> hf_phase (cn_down c) = Ended Finished" by blast
    from conn_close_ok [OF assms(1,2,4) r] show ?thesis by blast
  next
    case False
    then have "c' = c" "sc' = sc" using assms(5) by (auto simp: conn_join_def split: if_splits)
    then show ?thesis using assms(1-4) by (auto simp: conn_ok_def intro!: exI [of _ "sc_idle sc"])
  qed
  then show "conn_ok c'" "conn_paid c' \<le> conn_paid c" "\<exists>idle. idle_empty idle \<and> sc' = sc\<lparr> sc_idle := idle \<rparr>" by blast+
qed

definition conn_fine :: "nat \<Rightarrow> conn \<Rightarrow> scope \<Rightarrow> (conn \<times> scope) option \<Rightarrow> bool" where
  "conn_fine b c sc r \<longleftrightarrow> (\<exists>c' sc' k. r = Some (c', sc') \<and> conn_ok c' \<and> scope_step b k sc sc'
     \<and> conn_paid c' \<le> conn_paid c + k)"

lemma conn_fine_quiet:
  assumes "scope_ok sc" "conn_ok c'" "conn_paid c' \<le> conn_paid c" "idle_empty idle"
  shows "conn_fine b c sc (Some (c', sc\<lparr> sc_idle := idle \<rparr>))"
  unfolding conn_fine_def
  by (intro exI [of _ c'] exI [of _ "sc\<lparr> sc_idle := idle \<rparr>"] exI [of _ 0])
    (use assms in \<open>simp add: scope_step_def scope_ok_def\<close>)

lemma conn_fine_same: "scope_ok sc \<Longrightarrow> conn_ok c' \<Longrightarrow> conn_paid c' \<le> conn_paid c
    \<Longrightarrow> conn_fine b c sc (Some (c', sc))"
  using conn_fine_quiet [of sc c' c "sc_idle sc"] by (simp add: scope_ok_def)

lemma conn_copy_fine:
  assumes "scope_ok sc" "conn_ok c" "cn_phase c = Copying"
  shows "conn_fine (half_bytes ev) c sc (Some (conn_copy dir ev c sc))"
proof -
  have ok: "half_ok (cn_up c)" "half_ok (cn_down c)" "idle_empty (sc_idle sc)"
    using assms by (simp_all add: conn_ok_def scope_ok_def)
  let ?h = "case dir of Upload \<Rightarrow> cn_up c | Download \<Rightarrow> cn_down c"
  let ?c = "\<lambda>h. case dir of Upload \<Rightarrow> c\<lparr> cn_up := h \<rparr> | Download \<Rightarrow> c\<lparr> cn_down := h \<rparr>"
  obtain h idle q where turn: "half_turn dir ev ?h (sc_idle sc) (sc_quota sc) = (h, idle, q)" using prod_cases3 by blast
  have "half_ok ?h" using ok by (cases dir) simp_all
  from half_turn_ok [OF this ok(3), of ev "sc_quota sc" dir] turn obtain k where
    h: "half_ok h" "idle_empty idle" "consumed (half_bytes ev) k (sc_quota sc) q" "half_paid h \<le> half_paid ?h + k"
    by (auto simp: half_fine_def)
  let ?sc = "sc\<lparr> sc_idle := idle, sc_quota := q \<rparr>"
  obtain c' sc' where join: "conn_join (?c h) ?sc = (c', sc')" by fastforce
  have "half_ok (cn_up (?c h))" "half_ok (cn_down (?c h))" "cn_phase (?c h) = Copying"
    using ok h(1) assms(3) by (cases dir; simp)+
  note j = conn_join_ok [OF this _ join]
  have "conn_paid (?c h) \<le> conn_paid c + k" using h(4) by (cases dir) (simp_all add: conn_paid_def)
  moreover have "conn_copy dir ev c sc = (c', sc')" using turn join by (cases dir) (simp_all add: conn_copy_def)
  ultimately show ?thesis
    unfolding conn_fine_def using j h(2,3) assms(1)
    by (intro exI [of _ c'] exI [of _ sc'] exI [of _ k]) (auto simp: scope_step_def scope_ok_def)
qed

lemma confirm_total: "pool_inv p \<Longrightarrow> i < length (tp_targets p) \<Longrightarrow> confirm now i p \<noteq> None"
  using confirm_laws [of p i now] by (fastforce simp: pool_len_def)

lemma confirm_keeps: "pool_inv p \<Longrightarrow> confirm now i p = Some p' \<Longrightarrow> pool_inv p' \<and> tp_targets p' = tp_targets p"
  using pool_step_inv [OF pool_step.confirmed] by blast

lemma conn_dial_fine:
  assumes "scope_ok sc" "conn_ok c" "cn_phase c = Dialing"
  shows "conn_fine b c sc (conn_dial dial now c sc)"
proof -
  have inv: "pool_inv (sc_pool sc)" using assms(1) by (simp add: scope_ok_def)
  obtain p r where run: "tcp_connect_active dial now (sc_pool sc) = Some (p, r)"
    unfolding tcp_connect_active_def
    by (rule tp.connect_loop_runs [OF inv confirm_total, where dial = dial and n = "pool_len (sc_pool sc)" and err = None])
  have p: "pool_inv p" "tp_targets p = tp_targets (sc_pool sc)"
    using tp.connect_loop_keeps [OF inv run [unfolded tcp_connect_active_def] confirm_keeps] by simp_all
  define c' where "c' = c\<lparr> cn_phase := (case r of Inl _ \<Rightarrow> Closed NoUpstream | Inr _ \<Rightarrow> Copying) \<rparr>"
  have "conn_dial dial now c sc = Some (c', sc\<lparr> sc_pool := p \<rparr>)"
    using run by (cases r) (simp_all add: conn_dial_def c'_def)
  moreover have "conn_ok c'"
    using assms(2,3) by (cases r) (simp_all add: c'_def conn_ok_def)
  moreover have "conn_paid c' = conn_paid c" by (simp add: c'_def conn_paid_def)
  ultimately show ?thesis
    unfolding conn_fine_def using p assms(1)
    by (intro exI [of _ c'] exI [of _ "sc\<lparr> sc_pool := p \<rparr>"] exI [of _ 0]) (simp add: scope_step_def scope_ok_def)
qed

lemma conn_closing_fine:
  assumes "scope_ok sc" "conn_ok c" "reason \<noteq> BothEnded"
  shows "conn_fine b c sc (Some (conn_close reason c sc))"
proof -
  obtain c' sc' where close: "conn_close reason c sc = (c', sc')" by fastforce
  have "half_ok (cn_up c)" "half_ok (cn_down c)" "idle_empty (sc_idle sc)"
    using assms by (simp_all add: conn_ok_def scope_ok_def)
  from conn_close_ok [OF this close] assms show ?thesis
    unfolding close by (auto intro: conn_fine_quiet)
qed

lemma conn_turn_fine:
  assumes "scope_ok sc" "conn_ok c"
  shows "conn_fine (conn_cost ev) c sc (conn_turn ev c sc)"
proof -
  have still: "conn_fine b c sc (Some (c, sc))" for b using assms by (simp add: conn_fine_same)
  have removed: "conn_ok (c\<lparr> cn_phase := Closed RuleRemoved \<rparr>)" if "cn_phase c = Dialing"
    using that assms(2) by (simp add: conn_ok_def)
  show ?thesis
  proof (cases "cn_phase c")
    case Dialing
    then show ?thesis
      using still conn_dial_fine [OF assms] conn_fine_same [OF assms(1) removed, of c]
      by (cases ev) (simp_all add: conn_turn_def conn_paid_def)
  next
    case Copying
    then show ?thesis
      using still conn_copy_fine [OF assms] conn_closing_fine [OF assms]
      by (cases ev) (simp_all add: conn_turn_def conn_cost_def)
  qed (simp add: conn_turn_def still)
qed

text \<open>A connection counts what it reads at once, so nothing is waiting in it.\<close>

interpretation tcp_task: shared_task conn_turn "\<lambda>_. conn_ok" conn_paid "\<lambda>_. 0" conn_cost conn_cost "\<lambda>_. True"
  using conn_turn_fine by unfold_locales (fastforce simp: conn_fine_def)

section \<open>A UDP shard is such a task\<close>

definition shard_ok :: "nat \<Rightarrow> nat \<Rightarrow> shard \<Rightarrow> bool" where
  "shard_ok cap n s \<longleftrightarrow> shard_inv s \<and> one_client s \<and> pool_len (sh_pool s) = n \<and> sh_max_sessions s = cap"

definition shard_paid :: "shard \<Rightarrow> nat" where
  "shard_paid s = sum_list (map (length \<circ> dg_data) (sh_sent s))"

text \<open>The bytes of the packets that wait in a shard, and those that an event brings to it.\<close>

definition packet_bytes :: "(socket_addr \<times> pending) multiset \<Rightarrow> nat" where
  "packet_bytes M = sum_mset (image_mset (\<lambda>(_, p). length (pd_data p)) M)"

definition shard_waiting :: "shard \<Rightarrow> nat" where
  "shard_waiting s = packet_bytes (held s)"

fun input_brings :: "udp_input \<Rightarrow> nat" where
  "input_brings (UdpInput _ _ _ _ ev) = (case ev of
      Receive packets \<Rightarrow> packet_bytes (mset packets)
    | RelayTurn _ (Reply data _) \<Rightarrow> length data
    | _ \<Rightarrow> 0)"

lemma packet_bytes_simps [simp]:
  "packet_bytes {#} = 0" "packet_bytes (add_mset (peer, p) M) = length (pd_data p) + packet_bytes M"
  "packet_bytes (M + N) = packet_bytes M + packet_bytes N"
  by (simp_all add: packet_bytes_def)

lemma packet_bytes_mono: "M \<subseteq># N \<Longrightarrow> packet_bytes M \<le> packet_bytes N"
  by (auto simp: subset_mset.le_iff_add)

fun input_honest :: "udp_input \<Rightarrow> bool" where
  "input_honest (UdpInput v _ _ _ _) = cuts_segments v"

lemma shard_view_ok:
  assumes "shard_ok cap n s" "pool_inv p" "pool_len p = n"
  shows "shard_inv (s\<lparr> sh_pool := p, sh_quota := q, sh_stop := b \<rparr>)" "one_client (s\<lparr> sh_pool := p, sh_quota := q, sh_stop := b \<rparr>)"
proof -
  let ?s = "s\<lparr> sh_pool := p, sh_quota := q, sh_stop := b \<rparr>"
  have "session_ok p = session_ok (sh_pool s)" using assms(1,3) by (intro session_ok_pool(1)) (simp add: shard_ok_def)
  with assms(1,2) show "shard_inv ?s" by (simp add: shard_ok_def shard_parts)
  have "uses ?s = uses s" by (simp add: uses_def)
  with assms(1) show "one_client ?s" by (simp add: shard_ok_def one_client_def)
qed

lemma mailed_bytes:
  assumes "prefix new (map (mail ep dest) (datagrams stride data))"
  shows "sum_list (map (length \<circ> dg_data) new) \<le> length data"
proof -
  obtain rest where "map (mail ep dest) (datagrams stride data) = new @ rest" using assms by (auto simp: prefix_def)
  then have "map (length \<circ> dg_data) (new @ rest) = map length (datagrams stride data)"
    by (metis (no_types, lifting) comp_def datagram.select_convs(3) mail_def list.map_comp list.map_cong0)
  then have "sum_list (map (length \<circ> dg_data) (new @ rest)) = length data"
    by (metis concat_datagrams length_concat)
  then show ?thesis by simp
qed

lemma mails_bytes: "prefix new (mails dir peer i packet s) \<Longrightarrow> sum_list (map (length \<circ> dg_data) new) \<le> length (pd_data packet)"
  by (cases dir) (simp_all add: mails_def mailed_bytes)

lemma arrived_bytes: "packet_bytes (arrived ev) \<le> input_brings (UdpInput v hour now_ms pool_ms ev)"
  by (auto simp: arrived_def split: shard_event.split upstream_event.split)

lemma offered_download:
  assumes "offered ev s = Some (Download, peer, i, packet)"
  obtains k where "ev = RelayTurn k (Reply (pd_data packet) (pd_stride packet))"
  using assms by (auto simp: offered_def split: shard_event.splits upstream_event.splits udp_task.splits list.splits if_splits)

text \<open>What a turn counts was received: it is the packet that leaves the shard, or the reply.\<close>

lemma settled_bytes:
  assumes "settles v hour (offered ev s) s s'" "uploaded (offered ev s) + held s' \<subseteq># held s + arrived ev"
  obtains b k where "consumed b k (sh_quota s) (sh_quota s')" "b \<le> RECV_BUF"
    "b + shard_waiting s' \<le> shard_waiting s + input_brings (UdpInput v hour now_ms pool_ms ev)"
    "cuts_segments v \<longrightarrow> shard_paid s' \<le> shard_paid s + k"
proof (cases "offered ev s")
  case None
  with assms packet_bytes_mono [OF assms(2)] arrived_bytes [of ev v hour now_ms pool_ms] show thesis
    by (intro that [of 0 0]) (simp_all add: shard_paid_def shard_waiting_def)
next
  case (Some off)
  obtain dir peer i packet where off: "off = (dir, peer, i, packet)" by (cases off) auto
  let ?n = "length (pd_data packet)"
  obtain q ok where charge: "try_consume_at (word_of_nat ?n) dir hour (sh_quota s) = (q, ok)" by fastforce
  have q: "sh_quota s' = q" and small: "small packet"
    and sent: "if ok then cuts_segments v \<longrightarrow> (\<exists>new. sh_sent s' = sh_sent s @ new \<and> prefix new (mails dir peer i packet s))
       else sh_sent s' = sh_sent s"
    using assms(1) Some off charge by (auto simp: settles_def)
  have "?n + shard_waiting s' \<le> shard_waiting s + input_brings (UdpInput v hour now_ms pool_ms ev)"
  proof (cases dir)
    case Upload
    with packet_bytes_mono [OF assms(2)] arrived_bytes [of ev v hour now_ms pool_ms] Some off show ?thesis
      by (simp add: shard_waiting_def)
  next
    case Download
    with Some off obtain k where "ev = RelayTurn k (Reply (pd_data packet) (pd_stride packet))"
      by (auto elim: offered_download)
    with packet_bytes_mono [OF assms(2)] Some off Download show ?thesis by (simp add: shard_waiting_def arrived_def)
  qed
  moreover have "shard_paid s' \<le> shard_paid s + (if ok then ?n else 0)" if "cuts_segments v"
    using sent that mails_bytes [of _ dir peer i packet s] by (auto simp: shard_paid_def split: if_splits)
  ultimately show thesis
    using try_consume_consumed [OF charge] q small by (intro that [of ?n "if ok then ?n else 0"]) (simp_all add: small_def)
qed

lemma shard_task_runs:
  assumes "scope_ok sc" "shard_ok cap (pool_len (sc_pool sc)) s"
  shows "\<exists>s' sc' b k. shard_task e s sc = Some (s', sc') \<and> shard_ok cap (pool_len (sc_pool sc)) s' \<and> scope_step b k sc sc'
    \<and> b \<le> RECV_BUF \<and> b + shard_waiting s' \<le> shard_waiting s + input_brings e
    \<and> (input_honest e \<longrightarrow> shard_paid s' \<le> shard_paid s + k)"
proof -
  obtain v hour now_ms pool_ms ev where e: "e = UdpInput v hour now_ms pool_ms ev" by (cases e)
  let ?s = "s\<lparr> sh_pool := sc_pool sc, sh_quota := sc_quota sc, sh_stop := sc_stop sc \<rparr>"
  have p: "pool_inv (sc_pool sc)" using assms(1) by (simp add: scope_ok_def)
  note view = shard_view_ok [OF assms(2) p refl, where q = "sc_quota sc" and b = "sc_stop sc"]
  from shard_turn_ok [OF view(1), of v hour ev now_ms pool_ms] obtain s' where
    turn: "shard_turn v hour now_ms pool_ms ev ?s = Some s'" by (auto simp: fine_turn_def)
  note s' = shard_turnD [OF view(1) turn]
  have same: "shard_waiting ?s = shard_waiting s" "shard_paid ?s = shard_paid s"
    by (simp_all add: shard_waiting_def held_def shard_paid_def)
  obtain b k where counts: "consumed b k (sh_quota ?s) (sh_quota s')" "b \<le> RECV_BUF"
    "b + shard_waiting s' \<le> shard_waiting ?s + input_brings e" "cuts_segments v \<longrightarrow> shard_paid s' \<le> shard_paid ?s + k"
    unfolding e by (rule settled_bytes [OF s'(4,5), of now_ms pool_ms])
  have "shard_ok cap (pool_len (sc_pool sc)) s'"
    using s' one_client_turn [OF view(2) shard_turn_uses [OF turn]] assms(2) by (simp add: shard_ok_def pool_len_def)
  moreover have "scope_ok (sc\<lparr> sc_pool := sh_pool s', sc_quota := sh_quota s' \<rparr>)"
    using assms(1) s'(1) by (simp add: scope_ok_def shard_parts)
  ultimately show ?thesis
    using turn s'(3) counts unfolding same e
    by (intro exI [of _ s'] exI [of _ "sc\<lparr> sc_pool := sh_pool s', sc_quota := sh_quota s' \<rparr>"] exI [of _ b] exI [of _ k])
      (simp add: scope_step_def)
qed

interpretation udp_task: shared_task shard_task "shard_ok cap" shard_paid shard_waiting "\<lambda>_. RECV_BUF" input_brings input_honest for cap
  using shard_task_runs by unfold_locales

section \<open>A rule\<close>

definition rule_io_ok :: "nat \<Rightarrow> rule_io \<Rightarrow> bool" where
  "rule_io_ok users ru \<longleftrightarrow> ru_quota ru < users \<and> pool_inv (ru_pool ru) \<and> list_all conn_ok (ru_conns ru)
     \<and> list_all (shard_ok (per_shard MAX_SESSIONS (length (ru_shards ru))) (pool_len (ru_pool ru))) (ru_shards ru)"

definition rule_paid :: "rule_io \<Rightarrow> nat" where
  "rule_paid ru = sum_list (map conn_paid (ru_conns ru)) + sum_list (map shard_paid (ru_shards ru))"

definition rule_cost :: "rule_event \<Rightarrow> nat" where
  "rule_cost ev = (case ev of TcpTurn _ e \<Rightarrow> conn_cost e | UdpTurn _ _ \<Rightarrow> RECV_BUF | _ \<Rightarrow> 0)"

definition rule_waiting :: "rule_io \<Rightarrow> nat" where
  "rule_waiting ru = sum_list (map shard_waiting (ru_shards ru))"

definition rule_brings :: "rule_event \<Rightarrow> nat" where
  "rule_brings ev = (case ev of TcpTurn _ e \<Rightarrow> conn_cost e | UdpTurn _ e \<Rightarrow> input_brings e | _ \<Rightarrow> 0)"

definition rule_honest :: "rule_event \<Rightarrow> bool" where
  "rule_honest ev = (case ev of UdpTurn _ e \<Rightarrow> input_honest e | _ \<Rightarrow> True)"

definition rule_fine :: "nat \<Rightarrow> rule_event \<Rightarrow> rule_io \<Rightarrow> user_quota \<Rightarrow> (rule_io \<times> pipe list \<times> user_quota) option \<Rightarrow> bool" where
  "rule_fine users ev ru q r \<longleftrightarrow> (\<exists>ru' idle' q' b k. r = Some (ru', idle', q') \<and> rule_io_ok users ru' \<and> ru_quota ru' = ru_quota ru
     \<and> tp_targets (ru_pool ru') = tp_targets (ru_pool ru) \<and> idle_empty idle' \<and> consumed b k q q'
     \<and> b \<le> rule_cost ev \<and> b + rule_waiting ru' \<le> rule_waiting ru + rule_brings ev \<and> (rule_honest ev \<longrightarrow> rule_paid ru' \<le> rule_paid ru + k))"

lemma rule_fine_quiet:
  assumes "rule_io_ok users ru'" "ru_quota ru' = ru_quota ru" "tp_targets (ru_pool ru') = tp_targets (ru_pool ru)"
    "idle_empty idle" "rule_paid ru' = rule_paid ru" "rule_waiting ru' = rule_waiting ru"
  shows "rule_fine users ev ru q (Some (ru', idle, q))"
  unfolding rule_fine_def
  by (intro exI [of _ ru'] exI [of _ idle] exI [of _ q] exI [of _ 0])
    (use assms in \<open>simp add: exI [of _ 0]\<close>)

lemma tcp_turn_fine:
  assumes "rule_io_ok users ru" "idle_empty idle"
  shows "rule_fine users (TcpTurn i e) ru q (tcp_turn i e ru idle q)"
proof -
  have sc: "scope_ok (scope_of ru idle q)" using assms by (simp add: scope_ok_def scope_of_def rule_io_ok_def)
  have cs: "list_all conn_ok (ru_conns ru)" using assms(1) by (simp add: rule_io_ok_def)
  obtain cs' sc' b k where run: "nth_turn (conn_turn e) i (ru_conns ru) (scope_of ru idle q) = Some (cs', sc')"
    "list_all conn_ok cs'" "scope_step b k (scope_of ru idle q) sc'" "b \<le> conn_cost e"
    "sum_list (map conn_paid cs') \<le> sum_list (map conn_paid (ru_conns ru)) + k"
    by (rule tcp_task.nth_turn_runs [OF sc cs, of e i]) blast
  let ?ru = "ru\<lparr> ru_conns := cs', ru_pool := sc_pool sc' \<rparr>"
  have "rule_io_ok users ?ru" "idle_empty (sc_idle sc')" "consumed b k q (sc_quota sc')"
    "b \<le> rule_cost (TcpTurn i e)" "b + rule_waiting ?ru \<le> rule_waiting ru + rule_brings (TcpTurn i e)"
    "tp_targets (ru_pool ?ru) = tp_targets (ru_pool ru)"
    using assms(1) run(2-4) by (simp_all add: rule_io_ok_def rule_cost_def rule_waiting_def rule_brings_def scope_step_def
      scope_ok_def scope_of_def pool_len_def)
  moreover have "rule_paid ?ru \<le> rule_paid ru + k" using run(5) by (simp add: rule_paid_def)
  ultimately show ?thesis
    unfolding rule_fine_def tcp_turn_def using run(1)
    by (intro exI [of _ ?ru] exI [of _ "sc_idle sc'"] exI [of _ "sc_quota sc'"] exI [of _ b] exI [of _ k]) simp
qed

lemma udp_turn_fine:
  assumes "rule_io_ok users ru" "idle_empty idle"
  shows "rule_fine users (UdpTurn i e) ru q (udp_turn i e ru idle q)"
proof -
  let ?cap = "per_shard MAX_SESSIONS (length (ru_shards ru))"
  have sc: "scope_ok (scope_of ru idle q)" using assms by (simp add: scope_ok_def scope_of_def rule_io_ok_def)
  have ss: "list_all (shard_ok ?cap (pool_len (sc_pool (scope_of ru idle q)))) (ru_shards ru)"
    using assms(1) by (simp add: rule_io_ok_def scope_of_def)
  obtain ss' sc' b k where run: "nth_turn (shard_task e) i (ru_shards ru) (scope_of ru idle q) = Some (ss', sc')"
    "list_all (shard_ok ?cap (pool_len (ru_pool ru))) ss'" "length ss' = length (ru_shards ru)"
    "scope_step b k (scope_of ru idle q) sc'" "b \<le> RECV_BUF"
    "b + sum_list (map shard_waiting ss') \<le> sum_list (map shard_waiting (ru_shards ru)) + input_brings e"
    "input_honest e \<Longrightarrow> sum_list (map shard_paid ss') \<le> sum_list (map shard_paid (ru_shards ru)) + k"
    by (rule udp_task.nth_turn_runs [OF sc ss, of e i]) (simp add: scope_of_def)
  let ?ru = "ru\<lparr> ru_shards := ss', ru_pool := sc_pool sc' \<rparr>"
  have "rule_io_ok users ?ru" "idle_empty (sc_idle sc')" "consumed b k q (sc_quota sc')"
    "b \<le> rule_cost (UdpTurn i e)" "b + rule_waiting ?ru \<le> rule_waiting ru + rule_brings (UdpTurn i e)"
    "tp_targets (ru_pool ?ru) = tp_targets (ru_pool ru)"
    using assms(1) run(2-6) by (simp_all add: rule_io_ok_def rule_cost_def rule_waiting_def rule_brings_def scope_step_def
      scope_ok_def scope_of_def pool_len_def)
  moreover have "rule_honest (UdpTurn i e) \<longrightarrow> rule_paid ?ru \<le> rule_paid ru + k"
    using run(7) by (simp add: rule_paid_def rule_honest_def)
  ultimately show ?thesis
    unfolding rule_fine_def udp_turn_def using run(1)
    by (intro exI [of _ ?ru] exI [of _ "sc_idle sc'"] exI [of _ "sc_quota sc'"] exI [of _ b] exI [of _ k]) simp
qed

lemma pool_turn_ok:
  assumes "pool_inv p"
  shows "\<exists>p'. pool_turn e p = Some p' \<and> pool_inv p' \<and> tp_targets p' = tp_targets p"
proof (cases e)
  case (ProbeDone i up now)
  with assms confirm_laws [OF assms, of i now] mark_down_laws [OF assms, of i] show ?thesis
    by (auto simp: pool_turn_def pool_len_def)
next
  case (Rearmed i)
  let ?p = "p\<lparr> tp_timers := remove1 i (tp_timers p) \<rparr>"
  have "pool_inv ?p" using assms notin_set_remove1 by (fastforce simp: pool_inv_def)
  moreover have "i < pool_len ?p" if "i \<in> set (tp_timers p)" using that assms by (simp add: pool_inv_def pool_len_def)
  ultimately show ?thesis
    using assms mark_up_laws [of ?p i] Rearmed by (auto simp: pool_turn_def timer_fires_def pool_len_def)
qed

lemma rule_turn_fine:
  assumes "rule_io_ok users ru" "idle_empty idle"
  shows "rule_fine users ev ru q (rule_turn ev ru idle q)"
proof (cases ev)
  case RuleStop
  then show ?thesis using assms by (auto simp: rule_turn_def rule_io_ok_def rule_paid_def rule_waiting_def intro!: rule_fine_quiet)
next
  case (TcpAccept r)
  have "conn_ok conn_start" "conn_paid conn_start = 0" by (simp_all add: conn_start_def conn_ok_def conn_paid_def)
  with TcpAccept assms show ?thesis
    by (auto simp: rule_turn_def tcp_accept_def rule_io_ok_def rule_paid_def rule_waiting_def split: accept_action.splits intro!: rule_fine_quiet)
next
  case (PoolTurn e)
  have "pool_inv (ru_pool ru)" using assms(1) by (simp add: rule_io_ok_def)
  from pool_turn_ok [OF this, of e] PoolTurn assms show ?thesis
    by (auto simp: rule_turn_def rule_io_ok_def rule_paid_def rule_waiting_def pool_len_def intro!: rule_fine_quiet)
qed (use tcp_turn_fine [OF assms] udp_turn_fine [OF assms] in \<open>simp_all add: rule_turn_def\<close>)

lemma quota_run_name: "quota_run q q' \<Longrightarrow> q_name q' = q_name q"
proof (induction rule: quota_run.induct)
  case (step q q1 q2)
  from step.hyps(2) have "q_name q2 = q_name q1"
    by (cases rule: quota_stepE) (auto simp: try_consume_at_def record_bytes_def roll_over_at_def settle_to_def Let_def
      set_limit_def set_metering_def split: if_splits option.splits direction.splits prod.splits)
  with step.IH show ?case by simp
qed simp

section \<open>The node\<close>

definition tasks_ok :: "node \<Rightarrow> bool" where
  "tasks_ok n \<longleftrightarrow> list_all idle_empty (nd_idle n) \<and> list_all (rule_io_ok (length (nd_quotas n))) (nd_rules n)"

definition node_ok :: "node \<Rightarrow> bool" where
  "node_ok n \<longleftrightarrow> list_all quota_inv (nd_quotas n) \<and> tasks_ok n"

text \<open>A rule has targets and unconnected sockets, a limit is a number of bytes.\<close>

fun good_event :: "node_event \<Rightarrow> bool" where
  "good_event (RuleStarted u tcp targets cooldown eps) \<longleftrightarrow> targets \<noteq> [] \<and> (\<forall>ep\<in>set eps. ep_peer ep = None)"
| "good_event (QuotaTurn u (LimitSet l)) \<longleftrightarrow> l \<noteq> Some NO_LIMIT"
| "good_event _ \<longleftrightarrow> True"

text \<open>The bytes that an event, and that a whole run, brings to the tasks of the \<open>u\<close>-th user.\<close>

definition brings_to :: "nat \<Rightarrow> node_event \<Rightarrow> node \<Rightarrow> nat" where
  "brings_to u ev n = (case ev of
      RuleTurn i w e \<Rightarrow> if i < length (nd_rules n) \<and> ru_quota (nd_rules n ! i) = u then rule_brings e else 0
    | _ \<Rightarrow> 0)"

fun received_for :: "nat \<Rightarrow> node_event list \<Rightarrow> node \<Rightarrow> nat" where
  "received_for u [] n = 0"
| "received_for u (ev # evs) n = brings_to u ev n
     + (case node_turn ev n of None \<Rightarrow> 0 | Some n' \<Rightarrow> received_for u evs n')"

text \<open>The bytes of the packets that wait in the shards of the user.\<close>

definition waiting_for :: "nat \<Rightarrow> node \<Rightarrow> nat" where
  "waiting_for u n = sum_list (map (\<lambda>ru. if ru_quota ru = u then rule_waiting ru else 0) (nd_rules n))"

definition event_honest :: "node_event \<Rightarrow> bool" where
  "event_honest ev = (case ev of RuleTurn _ _ e \<Rightarrow> rule_honest e | _ \<Rightarrow> True)"

definition node_paid :: "nat \<Rightarrow> node \<Rightarrow> nat" where
  "node_paid u n = sum_list (map (\<lambda>ru. if ru_quota ru = u then rule_paid ru else 0) (nd_rules n))"

text \<open>From one state to a later one: every account counted what its user's tasks were paid for, and at most \<open>b\<close> bytes.\<close>

definition accounts_step :: "nat \<Rightarrow> bool \<Rightarrow> node \<Rightarrow> node \<Rightarrow> bool" where
  "accounts_step b honest n n' \<longleftrightarrow> length (nd_quotas n') = length (nd_quotas n) \<and> length (nd_idle n') = length (nd_idle n)
     \<and> (\<forall>u b'. u < length (nd_quotas n) \<longrightarrow> room_for (b + b') (nd_quotas n ! u) \<longrightarrow>
          room_for b' (nd_quotas n' ! u) \<and> counted (nd_quotas n' ! u) \<le> counted (nd_quotas n ! u) + b
          \<and> (honest \<longrightarrow> counted (nd_quotas n ! u) + node_paid u n' \<le> counted (nd_quotas n' ! u) + node_paid u n))"

text \<open>The same for one user, against what was received for it: \<open>r\<close> bytes.\<close>

definition account_step :: "nat \<Rightarrow> nat \<Rightarrow> bool \<Rightarrow> node \<Rightarrow> node \<Rightarrow> bool" where
  "account_step u r honest n n' \<longleftrightarrow> (\<forall>more. room_for (waiting_for u n + r + more) (nd_quotas n ! u) \<longrightarrow>
     room_for (waiting_for u n' + more) (nd_quotas n' ! u)
     \<and> counted (nd_quotas n' ! u) + waiting_for u n' \<le> counted (nd_quotas n ! u) + waiting_for u n + r
     \<and> (honest \<longrightarrow> counted (nd_quotas n ! u) + node_paid u n' \<le> counted (nd_quotas n' ! u) + node_paid u n))"

lemma account_step_trans:
  assumes "account_step u r h n n1" "account_step u r1 h1 n1 n2"
  shows "account_step u (r + r1) (h \<and> h1) n n2"
  unfolding account_step_def
proof (intro allI impI)
  fix more assume "room_for (waiting_for u n + (r + r1) + more) (nd_quotas n ! u)"
  then have "room_for (waiting_for u n + r + (r1 + more)) (nd_quotas n ! u)" by (simp add: ac_simps)
  with assms(1) have 1: "room_for (waiting_for u n1 + (r1 + more)) (nd_quotas n1 ! u)"
    "counted (nd_quotas n1 ! u) + waiting_for u n1 \<le> counted (nd_quotas n ! u) + waiting_for u n + r"
    "h \<longrightarrow> counted (nd_quotas n ! u) + node_paid u n1 \<le> counted (nd_quotas n1 ! u) + node_paid u n"
    unfolding account_step_def by blast+
  then have "room_for (waiting_for u n1 + r1 + more) (nd_quotas n1 ! u)" by (simp add: ac_simps)
  with assms(2) have 2: "room_for (waiting_for u n2 + more) (nd_quotas n2 ! u)"
    "counted (nd_quotas n2 ! u) + waiting_for u n2 \<le> counted (nd_quotas n1 ! u) + waiting_for u n1 + r1"
    "h1 \<longrightarrow> counted (nd_quotas n1 ! u) + node_paid u n2 \<le> counted (nd_quotas n2 ! u) + node_paid u n1"
    unfolding account_step_def by blast+
  from 1 2 show "room_for (waiting_for u n2 + more) (nd_quotas n2 ! u)
      \<and> counted (nd_quotas n2 ! u) + waiting_for u n2 \<le> counted (nd_quotas n ! u) + waiting_for u n + (r + r1)
      \<and> (h \<and> h1 \<longrightarrow> counted (nd_quotas n ! u) + node_paid u n2 \<le> counted (nd_quotas n2 ! u) + node_paid u n)"
    by auto
qed

lemma account_step_same:
  assumes "\<And>b. room_for b (nd_quotas n' ! u) = room_for b (nd_quotas n ! u)" "counted (nd_quotas n' ! u) = counted (nd_quotas n ! u)"
    "node_paid u n' \<le> node_paid u n" "waiting_for u n' = waiting_for u n"
  shows "account_step u r h n n'"
  unfolding account_step_def
proof (intro allI impI)
  fix more assume "room_for (waiting_for u n + r + more) (nd_quotas n ! u)"
  then have "room_for (waiting_for u n' + more) (nd_quotas n' ! u)"
    unfolding assms(1) by (rule room_for_mono) (simp add: assms(4))
  with assms(2-4) show "room_for (waiting_for u n' + more) (nd_quotas n' ! u)
      \<and> counted (nd_quotas n' ! u) + waiting_for u n' \<le> counted (nd_quotas n ! u) + waiting_for u n + r
      \<and> (h \<longrightarrow> counted (nd_quotas n ! u) + node_paid u n' \<le> counted (nd_quotas n' ! u) + node_paid u n)"
    by simp
qed

lemma forward_rule_ok:
  assumes "pool_inv p" "\<forall>ep\<in>set eps. ep_peer ep = None" "u < users"
  shows "rule_io_ok users (forward_rule u tcp p eps q) \<and> rule_paid (forward_rule u tcp p eps q) = 0
    \<and> rule_waiting (forward_rule u tcp p eps q) = 0"
proof -
  have "shard_ok (per_shard MAX_SESSIONS (length eps)) (pool_len p) s \<and> shard_paid s = 0
      \<and> shard_waiting s = 0"
    if "s \<in> set (udp_serve eps p q)" for s
    using that assms
    by (auto simp: udp_serve_def serve_with_limit_def shard_start_def shard_ok_def shard_parts slots_inv_def one_client_def uses_def shard_paid_def
        shard_waiting_def held_def held_slots_def)
  then have "list_all (shard_ok (per_shard MAX_SESSIONS (length eps)) (pool_len p)) (udp_serve eps p q)"
    "sum_list (map shard_paid (udp_serve eps p q)) = 0" "sum_list (map shard_waiting (udp_serve eps p q)) = 0"
    by (auto simp: list_all_iff sum_list_eq_0_iff)
  moreover have "length (udp_serve eps p q) = length eps" by (simp add: udp_serve_def serve_with_limit_def)
  ultimately show ?thesis using assms(1,3) by (simp add: forward_rule_def rule_io_ok_def rule_paid_def rule_waiting_def)
qed

lemma start_forwarding_ok:
  assumes "targets \<noteq> []" "\<forall>ep\<in>set eps. ep_peer ep = None" "u < users"
  shows "\<exists>ru. start_forwarding u tcp targets cooldown eps q = Some ru \<and> rule_io_ok users ru \<and> rule_paid ru = 0
    \<and> rule_waiting ru = 0"
proof -
  obtain p where p: "pool_new (q_name q) targets cooldown = Some p" using assms(1) by (simp add: pool_new_def)
  then have "pool_inv p" using pool_new_inv by blast
  from forward_rule_ok [OF this assms(2,3)] p show ?thesis by (simp add: start_forwarding_def)
qed

lemma accounts_stepD:
  assumes "accounts_step b True n n'" "u < length (nd_quotas n)" "room_for b (nd_quotas n ! u)"
  shows "counted (nd_quotas n ! u) + node_paid u n' \<le> counted (nd_quotas n' ! u) + node_paid u n"
    "counted (nd_quotas n' ! u) \<le> counted (nd_quotas n ! u) + b"
proof -
  have "room_for (b + 0) (nd_quotas n ! u)" using assms(3) by simp
  with assms(1,2) show "counted (nd_quotas n ! u) + node_paid u n' \<le> counted (nd_quotas n' ! u) + node_paid u n"
    "counted (nd_quotas n' ! u) \<le> counted (nd_quotas n ! u) + b"
    unfolding accounts_step_def by blast+
qed

lemma accounts_step_same:
  assumes "length (nd_quotas n') = length (nd_quotas n)" "length (nd_idle n') = length (nd_idle n)"
    "\<And>u b. room_for b (nd_quotas n' ! u) = room_for b (nd_quotas n ! u)"
    "\<And>u. counted (nd_quotas n' ! u) = counted (nd_quotas n ! u)" "\<And>u. node_paid u n' \<le> node_paid u n"
  shows "accounts_step b h n n'"
  unfolding accounts_step_def
proof (intro conjI allI impI)
  show "room_for b' (nd_quotas n' ! u)" if "room_for (b + b') (nd_quotas n ! u)" for u b'
    using room_for_mono [OF that, of b'] assms(3) by simp
qed (use assms in simp_all)

lemma quota_turn_totals [simp]: "total_of d (quota_turn e q) = total_of d q"
  by (cases e; cases d)
    (simp_all add: quota_turn_def total_of_def set_limit_def set_metering_def Let_def split: option.split)

lemma quota_turn_counts [simp]: "room_for b (quota_turn e q) = room_for b q" "counted (quota_turn e q) = counted q"
  using quota_turn_totals [of Upload e q] quota_turn_totals [of Download e q]
  by (simp add: room_for_def, simp add: counted_def total_of_def)

lemma quota_turn_inv: "good_event (QuotaTurn u e) \<Longrightarrow> quota_inv q \<Longrightarrow> quota_inv (quota_turn e q)"
  by (cases e) (simp_all add: quota_turn_def quota_inv_set_limit quota_inv_set_metering, simp add: quota_inv_def)

lemma rule_turn_ok:
  assumes "tasks_ok n" "i < length (nd_rules n)" "w < length (nd_idle n)"
  shows "\<exists>n'. node_turn (RuleTurn i w e) n = Some n' \<and> tasks_ok n' \<and> accounts_step (rule_cost e) (rule_honest e) n n'
    \<and> (\<forall>u. account_step u (brings_to u (RuleTurn i w e) n) (rule_honest e) n n')
    \<and> length (nd_rules n') = length (nd_rules n)
    \<and> map (tp_targets \<circ> ru_pool) (nd_rules n') = map (tp_targets \<circ> ru_pool) (nd_rules n)
    \<and> list_all2 quota_run (nd_quotas n) (nd_quotas n')"
proof -
  let ?ru = "nd_rules n ! i" and ?idle = "nd_idle n ! w"
  let ?u = "ru_quota ?ru"
  let ?q = "nd_quotas n ! ?u"
  have ok: "rule_io_ok (length (nd_quotas n)) ?ru" "idle_empty ?idle" and u: "?u < length (nd_quotas n)"
    using assms by (auto simp: tasks_ok_def list_all_length rule_io_ok_def)
  from rule_turn_fine [OF ok, of e ?q] obtain ru idle q b k where run: "rule_turn e ?ru ?idle ?q = Some (ru, idle, q)"
    "rule_io_ok (length (nd_quotas n)) ru" "ru_quota ru = ?u" "idle_empty idle" "consumed b k ?q q"
    "rule_honest e \<longrightarrow> rule_paid ru \<le> rule_paid ?ru + k" "tp_targets (ru_pool ru) = tp_targets (ru_pool ?ru)"
    "b \<le> rule_cost e" "b + rule_waiting ru \<le> rule_waiting ?ru + rule_brings e"
    by (auto simp: rule_fine_def)
  define n' where "n' = n\<lparr> nd_rules := (nd_rules n)[i := ru], nd_idle := (nd_idle n)[w := idle],
    nd_quotas := (nd_quotas n)[?u := q] \<rparr>"
  have "node_turn (RuleTurn i w e) n = Some n'"
    using assms(2,3) run(1) by (simp add: node_turn_def n'_def Let_def)
  moreover have "tasks_ok n'"
    using assms(1) run(2,4) by (simp add: tasks_ok_def n'_def list_all_update)
  moreover have "map (tp_targets \<circ> ru_pool) (nd_rules n') = map (tp_targets \<circ> ru_pool) (nd_rules n)"
    using assms(2) run(7) by (simp add: n'_def map_update list_update_same_conv)
  moreover have "list_all2 quota_run (nd_quotas n) (nd_quotas n')"
    using run(5) u by (auto simp: n'_def list_all2_conv_all_nth nth_list_update consumed_def quota_run.still)
  moreover have paid: "node_paid x n' \<le> node_paid x n + (if x = ?u then k else 0)" if "rule_honest e" for x
    using sum_list_nth_update [OF assms(2), of "\<lambda>r. if ru_quota r = x then rule_paid r else 0" ru] run(3,6) that
    by (auto simp: node_paid_def n'_def split: if_splits)
  moreover have q: "nd_quotas n' ! x = (if x = ?u then q else nd_quotas n ! x)" for x
    using u by (simp add: n'_def nth_list_update)
  moreover have "accounts_step (rule_cost e) (rule_honest e) n n'"
    unfolding accounts_step_def
  proof (intro conjI allI impI)
    fix x b' assume x: "x < length (nd_quotas n)" and room: "room_for (rule_cost e + b') (nd_quotas n ! x)"
    note counts = consumed_counted [OF consumed_mono [OF run(5,8) order_refl], of b']
    show "room_for b' (nd_quotas n' ! x)"
      using counts(3) room room_for_mono [OF room, of b'] by (auto simp: q)
    show "counted (nd_quotas n' ! x) \<le> counted (nd_quotas n ! x) + rule_cost e"
      using counts(2) room by (auto simp: q)
    show "counted (nd_quotas n ! x) + node_paid x n' \<le> counted (nd_quotas n' ! x) + node_paid x n" if "rule_honest e"
      using counts(1) room paid [OF that, of x] by (auto simp: q split: if_splits)
  qed (simp_all add: n'_def)
  moreover have "account_step x (brings_to x (RuleTurn i w e) n) (rule_honest e) n n'" for x
    unfolding account_step_def
  proof (intro allI impI)
    fix more assume room: "room_for (waiting_for x n + brings_to x (RuleTurn i w e) n + more) (nd_quotas n ! x)"
    have bytes: "(if x = ?u then b else 0) + waiting_for x n' \<le> waiting_for x n + brings_to x (RuleTurn i w e) n"
      using sum_list_nth_update [OF assms(2), of "\<lambda>r. if ru_quota r = x then rule_waiting r else 0" ru] run(3,9) assms(2)
      by (auto simp: waiting_for_def brings_to_def n'_def split: if_splits)
    then have enough: "room_for ((if x = ?u then b else 0) + (waiting_for x n' + more)) (nd_quotas n ! x)"
      by (intro room_for_mono [OF room]) simp
    note counts = consumed_counted [OF run(5), of "waiting_for x n' + more"]
    show "room_for (waiting_for x n' + more) (nd_quotas n' ! x)
        \<and> counted (nd_quotas n' ! x) + waiting_for x n' \<le> counted (nd_quotas n ! x) + waiting_for x n + brings_to x (RuleTurn i w e) n
        \<and> (rule_honest e \<longrightarrow> counted (nd_quotas n ! x) + node_paid x n' \<le> counted (nd_quotas n' ! x) + node_paid x n)"
    proof (cases "x = ?u")
      case True
      with counts enough bytes paid [of x] show ?thesis by (auto simp: q)
    next
      case False
      with enough bytes paid [of x] show ?thesis by (auto simp: q)
    qed
  qed
  ultimately show ?thesis by (auto simp: n'_def)
qed

lemma node_turn_ok:
  assumes "node_ok n" "good_event ev"
  shows "\<exists>n'. node_turn ev n = Some n' \<and> node_ok n' \<and> length (nd_quotas n') = length (nd_quotas n)
    \<and> (\<forall>u. account_step u (brings_to u ev n) (event_honest ev) n n')"
proof -
  have still: "account_step u r h n n" for u r h by (rule account_step_same) simp_all
  show ?thesis
  proof (cases ev)
    case (RuleStarted u tcp targets cooldown eps)
    show ?thesis
    proof (cases "u < length (nd_quotas n)")
      case True
      have "targets \<noteq> []" "\<forall>ep\<in>set eps. ep_peer ep = None" using assms(2) RuleStarted by simp_all
      from start_forwarding_ok [OF this True] obtain ru where
        ru: "start_forwarding u tcp targets cooldown eps (nd_quotas n ! u) = Some ru"
        "rule_io_ok (length (nd_quotas n)) ru" "rule_paid ru = 0" "rule_waiting ru = 0" by blast
      have "account_step x r h n (n\<lparr> nd_rules := nd_rules n @ [ru] \<rparr>)" for x r h
        by (rule account_step_same) (simp_all add: node_paid_def waiting_for_def ru(3,4))
      with RuleStarted True ru assms(1) show ?thesis by (simp add: node_turn_def node_ok_def tasks_ok_def)
    qed (use assms(1) RuleStarted still in \<open>simp add: node_turn_def\<close>)
  next
    case (QuotaTurn u e)
    let ?n = "n\<lparr> nd_quotas := (nd_quotas n)[u := quota_turn e (nd_quotas n ! u)] \<rparr>"
    have "quota_inv (quota_turn e (nd_quotas n ! u))" if "u < length (nd_quotas n)"
      using that assms quota_turn_inv [of u e] QuotaTurn by (simp add: node_ok_def list_all_length)
    then have "node_ok ?n" using assms(1) by (simp add: node_ok_def tasks_ok_def list_all_update)
    moreover have "account_step x r h n ?n" for x r h
    proof (rule account_step_same)
      have "nd_quotas ?n ! x = (if x = u \<and> u < length (nd_quotas n) then quota_turn e (nd_quotas n ! x) else nd_quotas n ! x)"
        by (cases "u < length (nd_quotas n)") (simp_all add: nth_list_update list_update_beyond not_less)
      then show "room_for b (nd_quotas ?n ! x) = room_for b (nd_quotas n ! x)"
        "counted (nd_quotas ?n ! x) = counted (nd_quotas n ! x)" for b by simp_all
    qed (simp_all add: node_paid_def waiting_for_def)
    ultimately show ?thesis using QuotaTurn by (simp add: node_turn_def)
  next
    case (RuleTurn i w e)
    show ?thesis
    proof (cases "i < length (nd_rules n) \<and> w < length (nd_idle n)")
      case True
      have "tasks_ok n" "list_all quota_inv (nd_quotas n)" using assms(1) by (simp_all add: node_ok_def)
      with rule_turn_ok [of n i w e] True obtain n' where n': "node_turn (RuleTurn i w e) n = Some n'" "tasks_ok n'"
        "\<forall>u. account_step u (brings_to u (RuleTurn i w e) n) (rule_honest e) n n'" "list_all2 quota_run (nd_quotas n) (nd_quotas n')"
        by auto
      have "list_all quota_inv (nd_quotas n')"
        using n'(4) \<open>list_all quota_inv (nd_quotas n)\<close> quota_inv_run by (auto simp: list_all2_conv_all_nth list_all_length)
      with n' list_all2_lengthD [OF n'(4)] show ?thesis using RuleTurn by (simp add: event_honest_def node_ok_def)
    next
      case False
      then show ?thesis using assms(1) RuleTurn still by (auto simp: node_turn_def not_less)
    qed
  qed
qed

lemma node_run_ok:
  assumes "node_ok n" "list_all good_event evs"
  shows "\<exists>n'. node_run evs n = Some n' \<and> node_ok n' \<and> length (nd_quotas n') = length (nd_quotas n)
    \<and> (\<forall>u. account_step u (received_for u evs n) (list_all event_honest evs) n n')"
  using assms
proof (induction evs arbitrary: n)
  case Nil
  then show ?case by (simp add: account_step_same)
next
  case (Cons ev evs)
  obtain n1 where n1: "node_turn ev n = Some n1" "node_ok n1" "length (nd_quotas n1) = length (nd_quotas n)"
    "\<forall>u. account_step u (brings_to u ev n) (event_honest ev) n n1"
    using node_turn_ok [OF Cons.prems(1), of ev] Cons.prems(2) by auto
  moreover obtain n2 where n2: "node_run evs n1 = Some n2" "node_ok n2" "length (nd_quotas n2) = length (nd_quotas n1)"
    "\<forall>u. account_step u (received_for u evs n1) (list_all event_honest evs) n1 n2"
    using Cons.IH [OF n1(2)] Cons.prems(2) by auto
  moreover have "account_step u (brings_to u ev n + received_for u evs n1) (event_honest ev \<and> list_all event_honest evs) n n2" for u
    using account_step_trans n1(4) n2(4) by blast
  ultimately show ?case by simp
qed

lemma node_start_ok: "list_all quota_inv quotas \<Longrightarrow> node_ok (node_start quotas threads)"
  by (simp add: node_ok_def tasks_ok_def node_start_def list_all_iff idle_empty_def)

section \<open>What the tasks forwarded\<close>

definition conn_forwarded :: "conn \<Rightarrow> nat" where
  "conn_forwarded c = length (hf_written (cn_up c)) + length (hf_written (cn_down c))"

definition forwarded :: "nat \<Rightarrow> node \<Rightarrow> nat" where
  "forwarded u n = sum_list (map (\<lambda>ru. if ru_quota ru = u
     then sum_list (map conn_forwarded (ru_conns ru)) + sum_list (map shard_paid (ru_shards ru)) else 0) (nd_rules n))"

lemma half_written_paid: "half_ok h \<Longrightarrow> length (hf_written h) \<le> half_paid h"
  by (auto simp: half_ok_def half_paid_def split: half_phase.splits)

lemma forwarded_paid:
  assumes "tasks_ok n"
  shows "forwarded u n \<le> node_paid u n"
proof -
  have "conn_forwarded c \<le> conn_paid c" if "conn_ok c" for c
    using that half_written_paid [of "cn_up c"] half_written_paid [of "cn_down c"]
    by (simp add: conn_ok_def conn_forwarded_def conn_paid_def)
  then have "sum_list (map conn_forwarded (ru_conns ru)) \<le> sum_list (map conn_paid (ru_conns ru))"
    if "ru \<in> set (nd_rules n)" for ru
    using that assms by (intro sum_list_mono) (auto simp: tasks_ok_def list_all_iff rule_io_ok_def)
  then show ?thesis
    unfolding forwarded_def node_paid_def by (intro sum_list_mono) (simp add: rule_paid_def)
qed

lemma half_stream: "half_ok h \<Longrightarrow> prefix (hf_written h) (hf_read h) \<and> (hf_phase h = Ended Finished \<longrightarrow> hf_written h = hf_read h)"
  by (auto simp: half_ok_def split: half_phase.splits)

text \<open>C21: no interleaving breaks the relay.  However the tasks of all rules, TCP connections, UDP shards and their
  sessions, probes and re-arming timers, take turns with each other, with the hour, new limits and new rules, and on
  whatever worker threads they run, no turn panics.  Every account keeps its exhausted flag equal to what
  its bill says, every idle pipe is empty, every pool has its first healthy target active, a closed connection holds no
  pipe, and a shard holds no more sessions than its share.\<close>

theorem node_stays_well_formed:
  assumes "list_all quota_inv quotas" "list_all good_event evs"
  shows "\<exists>n. node_run evs (node_start quotas threads) = Some n
    \<and> (\<forall>q\<in>set (nd_quotas n). is_exhausted q \<longleftrightarrow> (\<exists>lim. limit_of q = Some lim \<and> lim \<le> used q))
    \<and> (\<forall>idle\<in>set (nd_idle n). length idle \<le> 16 \<and> (\<forall>p\<in>set idle. pp_data p = []))
    \<and> (\<forall>ru\<in>set (nd_rules n). ru_quota ru < length quotas \<and> tp_active (ru_pool ru) = first_healthy (tp_healthy (ru_pool ru))
        \<and> (\<forall>c\<in>set (ru_conns ru). \<forall>reason. cn_phase c = Closed reason \<longrightarrow> hf_pipe (cn_up c) = None \<and> hf_pipe (cn_down c) = None)
        \<and> (\<forall>s\<in>set (ru_shards ru). length (sh_sessions s) \<le> per_shard 4096 (length (ru_shards ru)) \<and> one_client s))"
proof -
  obtain n where run: "node_run evs (node_start quotas threads) = Some n" and ok: "node_ok n"
    and "length (nd_quotas n) = length (nd_quotas (node_start quotas threads))"
    using node_run_ok [OF node_start_ok [OF assms(1)] assms(2)] by blast
  then have len: "length (nd_quotas n) = length quotas" by (simp add: node_start_def)
  have "is_exhausted q \<longleftrightarrow> (\<exists>lim. limit_of q = Some lim \<and> lim \<le> used q)" if "q \<in> set (nd_quotas n)" for q
    using that ok by (auto simp: node_ok_def list_all_iff quota_inv_def over_limit_def is_exhausted_def split: option.splits)
  moreover have "length idle \<le> 16 \<and> (\<forall>p\<in>set idle. pp_data p = [])" if "idle \<in> set (nd_idle n)" for idle
    using that ok by (auto simp: node_ok_def tasks_ok_def list_all_iff idle_empty_def MAX_IDLE_def)
  moreover have "rule_io_ok (length quotas) ru" if "ru \<in> set (nd_rules n)" for ru
    using that ok len by (simp add: node_ok_def tasks_ok_def list_all_iff)
  ultimately show ?thesis
    using run by (fastforce simp: rule_io_ok_def list_all_iff pool_inv_def conn_ok_def shard_ok_def shard_parts MAX_SESSIONS_def)
qed

text \<open>C20: every TCP stream arrives as it was sent.  In every interleaving of any number of connections, with pipes going from
  one connection to the next through the idle lists of the threads, what a connection has written in a direction is
  a prefix of what it has read in that direction: no byte is lost in between, reordered, repeated or
  taken from another connection; and a connection that ended because both sides closed wrote everything.\<close>

theorem streams_are_forwarded_intact:
  assumes "list_all quota_inv quotas" "list_all good_event evs" "node_run evs (node_start quotas threads) = Some n"
    "ru \<in> set (nd_rules n)" "c \<in> set (ru_conns ru)"
  shows "prefix (hf_written (cn_up c)) (hf_read (cn_up c)) \<and> prefix (hf_written (cn_down c)) (hf_read (cn_down c))
    \<and> (cn_phase c = Closed BothEnded \<longrightarrow>
         hf_written (cn_up c) = hf_read (cn_up c) \<and> hf_written (cn_down c) = hf_read (cn_down c))"
proof -
  have "node_ok n" using node_run_ok [OF node_start_ok [OF assms(1)] assms(2), of threads] assms(3) by auto
  then have "conn_ok c" using assms(4,5) by (auto simp: node_ok_def tasks_ok_def rule_io_ok_def list_all_iff)
  then show ?thesis
    using half_stream [of "cn_up c"] half_stream [of "cn_down c"] by (auto simp: conn_ok_def)
qed

text \<open>C19: nothing is forwarded that its user was not billed for, and nothing is billed that was not received, whatever runs
  beside it.  Over any interleaving of all tasks of all rules, the totals of a user's account grow by at least the bytes
  that the user's TCP connections and UDP sessions have passed on, in both directions and over all rules that share the
  account, and together with the bytes of the packets that still wait in the user's UDP shards by no more than the bytes that
  the system delivered to the user's own tasks: to its connections from both sides, to its shards from clients and to its
  sessions from their targets (an answer that comes to a task that is not reading counts too); provided those fit
  the totals without wrapping around and segmented sends cut where they are told.\<close>

theorem node_bills_before_it_forwards:
  assumes "list_all quota_inv quotas" "list_all good_event evs" "list_all event_honest evs"
    "node_run evs (node_start quotas threads) = Some n" "u < length quotas"
    "\<forall>d. unat (total_of d (quotas ! u)) + received_for u evs (node_start quotas threads) < 2 ^ 64"
  shows "counted (quotas ! u) + forwarded u n \<le> counted (nd_quotas n ! u)
    \<and> counted (nd_quotas n ! u) + waiting_for u n \<le> counted (quotas ! u) + received_for u evs (node_start quotas threads)"
proof -
  let ?n0 = "node_start quotas threads"
  have run: "node_ok n" "account_step u (received_for u evs ?n0) True ?n0 n"
    using node_run_ok [OF node_start_ok [OF assms(1)] assms(2), of threads] assms(3,4) by auto
  have start: "nd_quotas ?n0 = quotas" "node_paid u ?n0 = 0" "waiting_for u ?n0 = 0"
    by (simp_all add: node_start_def node_paid_def waiting_for_def)
  have "room_for (waiting_for u ?n0 + received_for u evs ?n0 + 0) (nd_quotas ?n0 ! u)"
    using assms(6) by (simp add: room_for_def start)
  from run(2) [unfolded account_step_def, rule_format, OF this] have "counted (quotas ! u) + node_paid u n \<le> counted (nd_quotas n ! u)"
    "counted (nd_quotas n ! u) + waiting_for u n \<le> counted (quotas ! u) + received_for u evs ?n0"
    by (simp_all add: start)
  with forwarded_paid [of n u] run(1) [unfolded node_ok_def] show ?thesis by linarith
qed

section \<open>Two connections and a UDP client of one user\<close>

text \<open>The second connection gets the pipe that the first one gave back.\<close>

definition up :: "nat \<Rightarrow> half_event \<Rightarrow> node_event" where
  "up k e = RuleTurn 0 0 (TcpTurn k (ConnCopy Upload e))"

definition relay :: "shard_event \<Rightarrow> node_event" where
  "relay e = RuleTurn 0 0 (UdpTurn 0 (UdpInput demo_env 3 50 50 e))"

definition busy_events :: "node_event list" where
  "busy_events =
     [RuleStarted 0 True [''10.0.0.1:53''] None [\<lparr> ep_socket = 0, ep_peer = None \<rparr>],
      RuleTurn 0 0 (TcpAccept Accepted), RuleTurn 0 0 (TcpTurn 0 (ConnDial (\<lambda>_. Inr ()) 9)),
      up 0 (HalfRead (Some 65536) (ReadBytes [1, 2, 3]) 0 3), up 0 (HalfWrite (Sent 2)),
      RuleTurn 0 0 (TcpAccept Accepted), relay (Receive [(demo_client, \<lparr> pd_data = [1, 2, 3, 4, 5], pd_stride = 2 \<rparr>)]),
      relay DispatchNext, up 0 (HalfWrite (Sent 1)), relay (OpenTurn 0 demo_dial), relay (OpenTurn 0 demo_dial),
      up 0 (HalfRead None WouldBlock 0 3), RuleTurn 0 0 (TcpTurn 1 (ConnDial (\<lambda>_. Inr ()) 10)),
      up 1 (HalfRead None (ReadBytes [9]) 0 3), relay (OpenTurn 0 demo_dial), up 1 (HalfWrite (Sent 1)),
      up 0 (HalfRead None (ReadBytes []) 0 3), RuleTurn 0 0 (TcpTurn 0 (ConnCopy Download (HalfRead None (ReadBytes []) 0 3)))]"

definition busy_node :: node where
  "busy_node = the (node_run busy_events (node_start [demo_quota] 1))"

definition busy_view :: "node \<Rightarrow> nat \<times> (conn_phase \<times> octets \<times> octets) list" where
  "busy_view n = (forwarded 0 n, map (\<lambda>c. (cn_phase c, hf_read (cn_up c), hf_written (cn_up c))) (concat (map ru_conns (nd_rules n))))"

lemma busy_run: "map_option busy_view (node_run busy_events (node_start [demo_quota] 1))
    = Some (9, [(Closed BothEnded, [1, 2, 3], [1, 2, 3]), (Copying, [9], [9])])"
  by code_simp

lemma busy_facts: "node_run busy_events (node_start [demo_quota] 1) = Some busy_node" "forwarded 0 busy_node = 9"
  "map (\<lambda>c. (cn_phase c, hf_read (cn_up c), hf_written (cn_up c))) (concat (map ru_conns (nd_rules busy_node)))
     = [(Closed BothEnded, [1, 2, 3], [1, 2, 3]), (Copying, [9], [9])]"
  using busy_run by (auto simp: busy_node_def busy_view_def)

lemma busy_good: "list_all good_event busy_events" "list_all quota_inv [demo_quota]" "list_all event_honest busy_events"
  by (simp_all add: busy_events_def up_def relay_def event_honest_def rule_honest_def cuts_segments_def demo_env_def
      demo_quota_def quota_inv_new NO_LIMIT_def u64_max_def)

theorem node_stays_well_formed_witness:
  "\<exists>n. node_run busy_events (node_start [demo_quota] 1) = Some n \<and> forwarded 0 n = 9
     \<and> (\<forall>ru\<in>set (nd_rules n). \<forall>s\<in>set (ru_shards ru). one_client s)"
  using node_stays_well_formed [OF busy_good(2,1), of 1] busy_facts(1,2) by auto

theorem streams_are_forwarded_intact_witness:
  "\<exists>ru c. ru \<in> set (nd_rules busy_node) \<and> c \<in> set (ru_conns ru) \<and> hf_read (cn_up c) = [1, 2, 3]
     \<and> hf_written (cn_up c) = hf_read (cn_up c)"
proof -
  have "(Closed BothEnded, [1, 2, 3], [1, 2, 3]) \<in> set (map (\<lambda>c. (cn_phase c, hf_read (cn_up c), hf_written (cn_up c)))
      (concat (map ru_conns (nd_rules busy_node))))"
    unfolding busy_facts(3) by simp
  then obtain ru c where c: "ru \<in> set (nd_rules busy_node)" "c \<in> set (ru_conns ru)" "cn_phase c = Closed BothEnded"
    "hf_read (cn_up c) = [1, 2, 3]" by auto
  with streams_are_forwarded_intact [OF busy_good(2,1) busy_facts(1) c(1,2)] show ?thesis by blast
qed

text \<open>Four bytes of TCP and five of UDP were received, passed on and counted.\<close>

lemma busy_received: "received_for 0 busy_events (node_start [demo_quota] 1) = 9"
  by code_simp

theorem node_bills_before_it_forwards_witness:
  "counted (nd_quotas busy_node ! 0) = counted demo_quota + 9 \<and> waiting_for 0 busy_node = 0"
proof -
  have "total_of d demo_quota = 0" for d
    by (cases d) (simp_all add: total_of_def demo_quota_def saved_default_def)
  then have "\<forall>d. unat (total_of d ([demo_quota] ! 0)) + received_for 0 busy_events (node_start [demo_quota] 1) < 2 ^ 64"
    unfolding busy_received by simp
  from node_bills_before_it_forwards [OF busy_good(2,1,3) busy_facts(1) _ this] show ?thesis
    unfolding busy_received by (simp add: busy_facts(2))
qed

end
