(* ===== verification/Runtime_Props.thy ===== *)
theory Runtime_Props
  imports Runtime
begin

text \<open>
  What holds of the running configuration: every rule that runs serves its targets, listens on the
  sockets its protocol asks for and bills the quota of its owner, and applying a configuration leads
  from one such state to the next, or changes nothing.
\<close>

section \<open>The invariant\<close>

definition rule_ok :: "user_set \<Rightarrow> target_pool list \<Rightarrow> rule_spec \<Rightarrow> running_rule \<Rightarrow> bool" where
  "rule_ok users pools spec rule \<longleftrightarrow> rr_pool rule < length pools
     \<and> tp_targets (pools ! rr_pool rule) = sp_targets spec
     \<and> (rr_tcp rule \<noteq> None \<longleftrightarrow> proto_tcp (sp_protocol spec)) \<and> (rr_udp rule \<noteq> None \<longleftrightarrow> proto_udp (sp_protocol spec))
     \<and> (\<exists>quota. us_get users (sp_user spec) = Some quota
          \<and> rr_tasks rule = rule_tasks spec (rr_tcp rule) (rr_udp rule) quota)"

definition runtime_inv :: "world \<Rightarrow> runtime \<Rightarrow> bool" where
  "runtime_inv w rt \<longleftrightarrow> users_wf (wd_store w) (wd_users w) \<and> distinct (map fst (rt_rules rt))
     \<and> (\<forall>(spec, rule)\<in>set (rt_rules rt). rule_ok (wd_users w) (rt_pool_store rt) spec rule)"

section \<open>The wanted rules\<close>

lemma distinct_by_parts:
  assumes "distinct (map f (filter P xs))" "distinct (map f (filter Q xs))" "\<forall>x\<in>set xs. P x \<or> Q x"
  shows "distinct xs"
  using assms
proof (induction xs)
  case (Cons x xs)
  have "x \<notin> set xs"
  proof
    assume "x \<in> set xs"
    then have "f x \<in> f ` set (filter P xs) \<and> P x \<or> f x \<in> f ` set (filter Q xs) \<and> Q x" using Cons.prems(3) by auto
    then show False using Cons.prems(1,2) by auto
  qed
  moreover have "distinct xs" using Cons by (auto split: if_splits)
  ultimately show ?case by simp
qed simp

definition spec_of :: "string \<Rightarrow> rule \<Rightarrow> rule_spec" where
  "spec_of nm r = \<lparr> sp_user = nm, sp_listen = rl_listen r, sp_protocol = rl_protocol r,
     sp_targets = rl_target r # rl_fallback r, sp_check_secs = rl_check_secs r \<rparr>"

lemma specs_of_eq: "specs_of c = concat (map (\<lambda>u. map (spec_of (uc_name u)) (filter rl_enabled (uc_rules u))) (cf_users c))"
  by (simp add: specs_of_def spec_of_def [abs_def])

lemma specs_listens:
  "map sp_listen (filter (\<lambda>s. P (sp_protocol s)) (specs_of c))
     = map rl_listen (filter (\<lambda>r. P (rl_protocol r)) (enabled_rules (cf_users c)))"
proof -
  have "map sp_listen (filter (\<lambda>s. P (sp_protocol s)) (concat (map (\<lambda>u. map (spec_of (uc_name u)) (filter rl_enabled (uc_rules u))) us)))
     = map rl_listen (filter (\<lambda>r. P (rl_protocol r)) (enabled_rules us))" for us
    by (induction us) (simp_all add: enabled_rules_def filter_map comp_def spec_of_def)
  then show ?thesis by (simp add: specs_of_eq)
qed

lemma distinct_specs: "good_config c \<Longrightarrow> distinct (specs_of c)"
  using specs_listens [of proto_tcp c] specs_listens [of proto_udp c]
  by (intro distinct_by_parts [where f = sp_listen and P = "\<lambda>s. proto_tcp (sp_protocol s)" and Q = "\<lambda>s. proto_udp (sp_protocol s)"])
    (auto simp: good_config_def tcp_listens_def udp_listens_def proto_tcp_def proto_udp_def intro: protocol.exhaust)

lemma spec_owner: "spec \<in> set (specs_of c) \<Longrightarrow> sp_user spec \<in> uc_name ` set (cf_users c) \<and> sp_targets spec \<noteq> []"
  by (auto simp: specs_of_eq spec_of_def)

section \<open>Preparing and starting\<close>

lemma take_socket_wants: "take_socket wants spare answer = Inr s \<Longrightarrow> s \<noteq> None \<longleftrightarrow> wants"
  by (auto simp: take_socket_def split: if_splits option.splits sum.splits)

lemma prepare_rules_specs:
  "prepare_rules v known specs tcp udp = Inr ps \<Longrightarrow> map pr_spec ps = filter (\<lambda>s. s \<notin> known) specs
     \<and> (\<forall>p\<in>set ps. (pr_tcp p \<noteq> None \<longleftrightarrow> proto_tcp (sp_protocol (pr_spec p)))
          \<and> (pr_udp p \<noteq> None \<longleftrightarrow> proto_udp (sp_protocol (pr_spec p))))"
proof (induction specs arbitrary: tcp udp ps)
  case (Cons spec specs)
  show ?case
  proof (cases "spec \<in> known")
    case True
    with Cons show ?thesis by simp
  next
    case False
    with Cons.prems obtain t u ps' where
      ps: "ps = \<lparr> pr_spec = spec, pr_tcp = t, pr_udp = u \<rparr> # ps'"
      and rest: "prepare_rules v known specs (tcp(sp_listen spec := None)) (udp(sp_listen spec := None)) = Inr ps'"
      and "take_socket (proto_tcp (sp_protocol spec)) (tcp (sp_listen spec)) (ae_bind_tcp v (sp_listen spec)) = Inr t"
      and "take_socket (proto_udp (sp_protocol spec)) (udp (sp_listen spec)) (ae_bind_udp v (sp_listen spec)) = Inr u"
      by (auto simp: Let_def split: sum.splits)
    note t = take_socket_wants [OF this(3)] and u = take_socket_wants [OF this(4)]
    from Cons.IH [OF rest] False t u show ?thesis by (simp add: ps)
  qed
qed simp

lemma update_fresh: "k \<notin> fst ` set xs \<Longrightarrow> AList.update k r xs = xs @ [(k, r)]"
  by (induction xs) auto

lemma start_rule_laws:
  assumes "sp_targets (pr_spec p) \<noteq> []" "us_get users (sp_user (pr_spec p)) = Some quota"
    "pr_tcp p \<noteq> None \<longleftrightarrow> proto_tcp (sp_protocol (pr_spec p))" "pr_udp p \<noteq> None \<longleftrightarrow> proto_udp (sp_protocol (pr_spec p))"
    "pr_spec p \<notin> fst ` set (rt_rules rt)"
  obtains rt1 rule pool where "start_rule p quota rt = Some rt1" "rt_rules rt1 = rt_rules rt @ [(pr_spec p, rule)]"
    "rt_pool_store rt1 = rt_pool_store rt @ [pool]" "rule_ok users (rt_pool_store rt1) (pr_spec p) rule"
proof -
  let ?cool = "if length (sp_targets (pr_spec p)) > 1 \<and> \<not> proto_tcp (sp_protocol (pr_spec p))
    then Some (sp_check_secs (pr_spec p)) else None"
  obtain pool where pool: "pool_new (sp_user (pr_spec p)) (sp_targets (pr_spec p)) ?cool = Some pool"
    "tp_targets pool = sp_targets (pr_spec p)"
    using assms(1) by (simp add: pool_new_def)
  let ?rule = "\<lparr> rr_pool = length (rt_pool_store rt), rr_tcp = pr_tcp p, rr_udp = pr_udp p,
    rr_tasks = rule_tasks (pr_spec p) (pr_tcp p) (pr_udp p) quota \<rparr>"
  let ?rt1 = "rt\<lparr> rt_pool_store := rt_pool_store rt @ [pool], rt_rules := rt_rules rt @ [(pr_spec p, ?rule)] \<rparr>"
  have "start_rule p quota rt = Some ?rt1"
    using pool(1) by (simp add: start_rule_def Let_def update_fresh [OF assms(5)])
  moreover have "rule_ok users (rt_pool_store ?rt1) (pr_spec p) ?rule"
    using assms(2-4) pool(2) by (simp add: rule_ok_def)
  ultimately show thesis using that [of ?rt1 ?rule pool] by simp
qed

lemma rule_ok_append: "rule_ok users pools spec rule \<Longrightarrow> rule_ok users (pools @ extra) spec rule"
  by (auto simp: rule_ok_def nth_append)

lemma start_rules_laws:
  assumes "\<forall>p\<in>set ps. sp_targets (pr_spec p) \<noteq> [] \<and> us_get users (sp_user (pr_spec p)) \<noteq> None
      \<and> (pr_tcp p \<noteq> None \<longleftrightarrow> proto_tcp (sp_protocol (pr_spec p))) \<and> (pr_udp p \<noteq> None \<longleftrightarrow> proto_udp (sp_protocol (pr_spec p)))"
    "distinct (map fst (rt_rules rt) @ map pr_spec ps)"
    "\<forall>(spec, rule)\<in>set (rt_rules rt). rule_ok users (rt_pool_store rt) spec rule"
  shows "\<exists>rt1 new. start_rules ps users rt = Some rt1 \<and> rt_rules rt1 = rt_rules rt @ new \<and> map fst new = map pr_spec ps
    \<and> (\<exists>extra. rt_pool_store rt1 = rt_pool_store rt @ extra)
    \<and> (\<forall>(spec, rule)\<in>set (rt_rules rt1). rule_ok users (rt_pool_store rt1) spec rule)"
  using assms
proof (induction ps arbitrary: rt)
  case (Cons p ps)
  obtain quota where quota: "us_get users (sp_user (pr_spec p)) = Some quota" using Cons.prems(1) by auto
  obtain rt1 rule pool where one: "start_rule p quota rt = Some rt1" "rt_rules rt1 = rt_rules rt @ [(pr_spec p, rule)]"
    "rt_pool_store rt1 = rt_pool_store rt @ [pool]" "rule_ok users (rt_pool_store rt1) (pr_spec p) rule"
    by (rule start_rule_laws [OF _ quota, of rt]) (use Cons.prems(1,2) in auto)
  have "\<forall>(spec, rule)\<in>set (rt_rules rt1). rule_ok users (rt_pool_store rt1) spec rule"
    using Cons.prems(3) one(2-4) rule_ok_append by fastforce
  moreover have "distinct (map fst (rt_rules rt1) @ map pr_spec ps)" using Cons.prems(2) one(2) by auto
  ultimately obtain rt2 new where "start_rules ps users rt1 = Some rt2" "rt_rules rt2 = rt_rules rt1 @ new"
    "map fst new = map pr_spec ps" "\<exists>extra. rt_pool_store rt2 = rt_pool_store rt1 @ extra"
    "\<forall>(spec, rule)\<in>set (rt_rules rt2). rule_ok users (rt_pool_store rt2) spec rule"
    using Cons.IH [of rt1] Cons.prems(1) by auto
  with quota one show ?case
    by (intro exI [of _ rt2] exI [of _ "(pr_spec p, rule) # new"]) auto
qed auto

section \<open>Applying\<close>

lemma resolve_quotas_total: "u \<in> set (cf_users c) \<Longrightarrow> resolve_quotas c (uc_name u) \<noteq> None"
  unfolding resolve_quotas_def map_of_eq_None_iff by force

lemma flush_gone_frame [simp]:
  "wd_store (flush_gone v users w) = wd_store w" "wd_users (flush_gone v users w) = wd_users w"
  "wd_limits (flush_gone v users w) = wd_limits w" "wd_live (flush_gone v users w) = wd_live w"
  by (simp_all add: flush_gone_def Let_def split: option.splits)

lemma follows_names:
  "list_all2 (follows v c remote usage current n st) us rs \<Longrightarrow> map (\<lambda>r. q_name (st ! r)) rs = map uc_name us
     \<and> (\<forall>r\<in>set rs. r < length st)"
  by (induction rule: list_all2_induct) (auto simp: follows_def)

text \<open>The next set of users, by name.\<close>

lemma next_set:
  assumes "list_all2 (follows v c remote usage current n st) us rs" "distinct (map uc_name us)"
  shows "users_wf st (user_set_new st rs)" "names_of st (user_set_new st rs) = map uc_name us"
    "\<And>u. u \<in> set us \<Longrightarrow> \<exists>r. us_get (user_set_new st rs) (uc_name u) = Some r \<and> follows v c remote usage current n st u r"
proof -
  note names = follows_names [OF assms(1)]
  show wf: "users_wf st (user_set_new st rs)" by (rule user_set_new_wf) (use names assms(2) in simp_all)
  show "names_of st (user_set_new st rs) = map uc_name us" using names by (simp add: names_of_def user_set_new_def)
  fix u assume "u \<in> set us"
  then obtain i where i: "i < length us" "us ! i = u" by (auto simp: in_set_conv_nth)
  then have "follows v c remote usage current n st u (rs ! i)" "rs ! i \<in> set rs"
    using assms(1) by (auto simp: list_all2_conv_all_nth)
  then show "\<exists>r. us_get (user_set_new st rs) (uc_name u) = Some r \<and> follows v c remote usage current n st u r"
    using us_get_iff [OF wf] by (auto simp: user_set_new_def follows_def)
qed

lemma commit_apply_run:
  assumes "runtime_inv w rt" "good_config c" "prepare_rules v (fst ` set (rt_rules rt)) (specs_of c) tcp udp = Inr added"
  shows "\<exists>w' rt' st rs. commit_apply v c added usage w rt = Some (w', rt') \<and> runtime_inv w' rt'
    \<and> fst ` set (rt_rules rt') = set (specs_of c)
    \<and> {x \<in> set (rt_rules rt). fst x \<in> set (specs_of c)} \<subseteq> set (rt_rules rt')
    \<and> next_users v c (remote_snapshot c w) usage (wd_users w) (cf_users c) (wd_store w) = Some (st, rs)
    \<and> wd_store w' = st \<and> wd_users w' = user_set_new st rs
    \<and> wd_db w' = wd_db (flush_gone v (user_set_new st rs) (w\<lparr> wd_store := st \<rparr>))
    \<and> names_of (wd_store w') (wd_users w') = map uc_name (cf_users c)"
proof -
  have inv: "users_wf (wd_store w) (wd_users w)" "distinct (map fst (rt_rules rt))"
    "\<forall>(spec, rule)\<in>set (rt_rules rt). rule_ok (wd_users w) (rt_pool_store rt) spec rule"
    using assms(1) by (simp_all add: runtime_inv_def)
  have dist: "distinct (map uc_name (cf_users c))" using assms(2) by (simp add: good_config_def)
  obtain st rs where nu: "next_users v c (remote_snapshot c w) usage (wd_users w) (cf_users c) (wd_store w) = Some (st, rs)"
    and fol: "list_all2 (follows v c (remote_snapshot c w) usage (wd_users w) (length (wd_store w)) st) (cf_users c) rs"
    using next_users_run [OF inv(1) dist] resolve_quotas_total by blast
  let ?users = "user_set_new st rs" and ?keep = "\<lambda>(spec, _). spec \<in> set (specs_of c)"
  let ?kept = "rt\<lparr> rt_rules := filter ?keep (rt_rules rt) \<rparr>"
  note users = next_set [OF fol dist]
  note prep = prepare_rules_specs [OF assms(3)]
  have owner: "\<exists>r. us_get ?users (sp_user spec) = Some r \<and> (\<forall>r0. us_get (wd_users w) (sp_user spec) = Some r0 \<longrightarrow> r = r0)"
    if "spec \<in> set (specs_of c)" for spec
    using spec_owner [OF that] users(3) by (fastforce simp: follows_def)
  have kept_ok: "\<forall>(spec, rule)\<in>set (rt_rules ?kept). rule_ok ?users (rt_pool_store ?kept) spec rule"
    using inv(3) owner by (fastforce simp: rule_ok_def)
  have kept_keys: "fst ` set (rt_rules ?kept) = {s \<in> fst ` set (rt_rules rt). s \<in> set (specs_of c)}" by force
  have added_specs: "pr_spec ` set added = {s \<in> set (specs_of c). s \<notin> fst ` set (rt_rules rt)}"
    using prep by (metis list.set_map set_filter)
  have "distinct (map fst (rt_rules ?kept) @ map pr_spec added)"
    using inv(2) prep distinct_specs [OF assms(2)] kept_keys by (auto simp: distinct_map_filter)
  moreover have "\<forall>p\<in>set added. sp_targets (pr_spec p) \<noteq> [] \<and> us_get ?users (sp_user (pr_spec p)) \<noteq> None
      \<and> (pr_tcp p \<noteq> None \<longleftrightarrow> proto_tcp (sp_protocol (pr_spec p))) \<and> (pr_udp p \<noteq> None \<longleftrightarrow> proto_udp (sp_protocol (pr_spec p)))"
    using prep added_specs owner spec_owner by fastforce
  ultimately obtain rt1 new where rt1: "start_rules added ?users ?kept = Some rt1" "rt_rules rt1 = rt_rules ?kept @ new"
    "map fst new = map pr_spec added" "\<forall>(spec, rule)\<in>set (rt_rules rt1). rule_ok ?users (rt_pool_store rt1) spec rule"
    and dk: "distinct (map fst (rt_rules ?kept) @ map pr_spec added)"
    using start_rules_laws [OF _ _ kept_ok] by metis
  let ?rt' = "rt1\<lparr> rt_pools := pool_map rt1, rt_started := True \<rparr>"
  let ?w' = "(flush_gone v ?users (w\<lparr> wd_store := st \<rparr>))\<lparr> wd_users := ?users \<rparr>"
  have "commit_apply v c added usage w rt = Some (?w', ?rt')" using nu rt1(1) by (simp add: commit_apply_def Let_def)
  moreover have "runtime_inv ?w' ?rt'" using users(1) rt1 dk by (simp add: runtime_inv_def)
  moreover have "fst ` set new = pr_spec ` set added" using rt1(3) by (metis list.set_map)
  then have "fst ` set (rt_rules ?rt') = set (specs_of c)"
    using rt1(2) kept_keys added_specs by (simp add: image_Un) blast
  ultimately show ?thesis using nu users(2) rt1(2)
    by (intro exI [of _ ?w'] exI [of _ ?rt'] exI [of _ st] exI [of _ rs]) auto
qed

lemma apply_config_run:
  assumes "runtime_inv w rt" "good_config c"
  shows "\<exists>w' rt' r. apply_config v c w rt = Some (w', rt', r) \<and> runtime_inv w' rt'
    \<and> (case r of
         Inl e \<Rightarrow> w' = w \<and> rt' = rt
       | Inr _ \<Rightarrow> fst ` set (rt_rules rt') = set (specs_of c)
           \<and> {x \<in> set (rt_rules rt). fst x \<in> set (specs_of c)} \<subseteq> set (rt_rules rt')
           \<and> names_of (wd_store w') (wd_users w') = map uc_name (cf_users c))"
proof -
  obtain tcp udp where sp: "spare_sockets (removed_rules (specs_of c) rt) Map.empty Map.empty = (tcp, udp)" by fastforce
  show ?thesis
  proof (cases "prepare_rules v (fst ` set (rt_rules rt)) (specs_of c) tcp udp")
    case (Inl e)
    with assms(1) sp show ?thesis by (simp add: apply_config_def Let_def)
  next
    case prep: (Inr added)
    show ?thesis
    proof (cases "load_saved v c w")
      case (Inl e)
      with prep assms(1) sp show ?thesis by (simp add: apply_config_def Let_def)
    next
      case (Inr usage)
      with commit_apply_run [OF assms prep, of usage] prep sp show ?thesis
        by (fastforce simp: apply_config_def Let_def)
    qed
  qed
qed

text \<open>C25: applying a valid configuration never panics, and it switches over completely or not at all.  On success
  exactly the enabled rules run; a rule that was running and is still wanted keeps its pool, sockets
  and tasks, so its connections survive; the users are those of the configuration; and every rule
  listens as its protocol says, serves its targets and bills the quota of its owner, also when it
  was started long before.  On an error, a socket that cannot be bound or usage that cannot be
  loaded, nothing has changed.\<close>

theorem apply_config_switches_or_keeps:
  assumes "runtime_inv w rt" "good_config c"
  shows "\<exists>w' rt' r. apply_config v c w rt = Some (w', rt', r) \<and> runtime_inv w' rt'
    \<and> (case r of
         Inl e \<Rightarrow> w' = w \<and> rt' = rt
       | Inr _ \<Rightarrow> fst ` set (rt_rules rt') = set (specs_of c)
           \<and> {x \<in> set (rt_rules rt). fst x \<in> set (specs_of c)} \<subseteq> set (rt_rules rt')
           \<and> names_of (wd_store w') (wd_users w') = map uc_name (cf_users c))"
  using assms by (rule apply_config_run)

section \<open>No traffic is lost by a change\<close>

lemma apply_config_ok:
  assumes "apply_config v c w rt = Some (w', rt', Inr ())"
  obtains tcp udp added usage where "prepare_rules v (fst ` set (rt_rules rt)) (specs_of c) tcp udp = Inr added"
    "load_saved v c w = Inr usage" "commit_apply v c added usage w rt = Some (w', rt')"
  using assms by (auto simp: apply_config_def Let_def bind_eq_Some_conv split: prod.splits sum.splits)

lemma flush_gone_stores:
  assumes "driver_ok (ae_driver v)" "ae_flush_faults v = no_faults" "wd_db w = Some db" "db_inv (ae_driver v) db"
    "users_wf (wd_store w) (wd_users w)" "\<forall>r\<in>set (us_ordered (wd_users w)). write_row (ae_driver v) (snapshot (wd_store w ! r)) \<noteq> None"
    "r \<in> set (us_ordered (wd_users w))" "us_get users (q_name (wd_store w ! r)) = None"
  shows "\<exists>db'. wd_db (flush_gone v users w) = Some db' \<and> db_inv (ae_driver v) db'
    \<and> usage_of (ae_driver v) db' (q_name (wd_store w ! r)) = Some (snapshot (wd_store w ! r))"
proof -
  let ?dr = "ae_driver v"
  define gone where "gone = filter (\<lambda>r. us_get users (q_name (wd_store w ! r)) = None) (us_ordered (wd_users w))"
  let ?qs = "map (\<lambda>r. wd_store w ! r) gone"
  have r: "r \<in> set gone" using assms(7,8) by (simp add: gone_def)
  have dist: "distinct (map q_name ?qs)"
    using assms(5) by (simp add: gone_def users_wf_def names_of_def comp_def distinct_map_filter)
  have "\<forall>q\<in>set ?qs. write_row ?dr (snapshot q) \<noteq> None" using assms(6) by (auto simp: gone_def)
  from flush_no_faults [OF assms(4) this] obtain db' where f: "flush ?dr no_faults ?qs db = (db', Inr ())"
    by (metis prod.collapse)
  note flushed = flush_cases [OF assms(1,4) dist f]
  have "snapshots ?qs (q_name (wd_store w ! r)) = Some (snapshot (wd_store w ! r))"
    unfolding snapshots_def using r dist by (intro map_of_is_SomeI) (auto simp: comp_def)
  moreover have "gone \<noteq> []" using r by auto
  ultimately show ?thesis
    using flushed f assms(2,3) by (auto simp: flush_gone_def Let_def gone_def [symmetric] map_add_Some_iff)
qed

lemma used_snapshot: "used q = sv_settled (snapshot q) + bill (metering_of q) (sv_hour_upload (snapshot q)) (sv_hour_download (snapshot q))"
  by (simp add: used_def hour_used_def snapshot_def)

lemma create_user_used:
  assumes "resolve_quotas c nm \<noteq> None" "create_user v c remote usage nm = Some q"
  shows "used q = (case usage nm of None \<Rightarrow> 0
    | Some s \<Rightarrow> sv_settled s + bill (acc_metering (cf_accounting c)) (sv_hour_upload s) (sv_hour_download s))"
proof -
  let ?m = "acc_metering (cf_accounting c)"
  let ?new = "new_metered_at nm None (case usage nm of None \<Rightarrow> saved_default | Some s \<Rightarrow> s) ?m (ae_hour v)"
  have q: "metering_of q = ?m" "snapshot q = snapshot ?new"
    by (rule create_user_total [OF assms(1), of v remote usage]; use assms(2) in simp)+
  have "metering_of ?new = ?m" by (simp add: metering_of_def)
  then have "used q = used ?new" using used_snapshot [of q] used_snapshot [of ?new] q by simp
  then show ?thesis by (simp add: saved_default_def split: option.splits)
qed

text \<open>The users after a change, and the counters of those that were there before.\<close>

lemma apply_config_users:
  assumes "runtime_inv w rt" "good_config c" "apply_config v c w rt = Some (w', rt', Inr ())"
  obtains st rs usage where "load_saved v c w = Inr usage" "wd_store w' = st" "wd_users w' = user_set_new st rs"
    "wd_db w' = wd_db (flush_gone v (user_set_new st rs) (w\<lparr> wd_store := st \<rparr>))" "users_wf st (wd_users w)"
    "\<And>r. r \<in> set (us_ordered (wd_users w)) \<Longrightarrow> q_name (st ! r) = q_name (wd_store w ! r) \<and> snapshot (st ! r) = snapshot (wd_store w ! r)"
    "list_all2 (follows v c (remote_snapshot c w) usage (wd_users w) (length (wd_store w)) st) (cf_users c) rs"
    "distinct (map uc_name (cf_users c))"
proof -
  have wf: "users_wf (wd_store w) (wd_users w)" using assms(1) by (simp add: runtime_inv_def)
  have dist: "distinct (map uc_name (cf_users c))" using assms(2) by (simp add: good_config_def)
  obtain tcp udp added usage where prep: "prepare_rules v (fst ` set (rt_rules rt)) (specs_of c) tcp udp = Inr added"
    and ld: "load_saved v c w = Inr usage" and com: "commit_apply v c added usage w rt = Some (w', rt')"
    by (rule apply_config_ok [OF assms(3)])
  from commit_apply_run [OF assms(1,2) prep, of usage] com obtain st rs where
    nu: "next_users v c (remote_snapshot c w) usage (wd_users w) (cf_users c) (wd_store w) = Some (st, rs)"
    and w': "wd_store w' = st" "wd_users w' = user_set_new st rs"
      "wd_db w' = wd_db (flush_gone v (user_set_new st rs) (w\<lparr> wd_store := st \<rparr>))"
    by auto
  from next_users_run [OF wf dist, of c v "remote_snapshot c w" usage] nu resolve_quotas_total have
    run: "users_wf st (wd_users w)"
      "\<forall>r<length (wd_store w). q_name (st ! r) = q_name (wd_store w ! r) \<and> snapshot (st ! r) = snapshot (wd_store w ! r)"
      "list_all2 (follows v c (remote_snapshot c w) usage (wd_users w) (length (wd_store w)) st) (cf_users c) rs"
    by auto
  moreover have "r < length (wd_store w)" if "r \<in> set (us_ordered (wd_users w))" for r
    using wf that by (auto simp: users_wf_def)
  ultimately show thesis using ld w' dist by (intro that) auto
qed

lemma staying_user_keeps_counters:
  assumes "runtime_inv w rt" "good_config c" "apply_config v c w rt = Some (w', rt', Inr ())"
    "r \<in> set (us_ordered (wd_users w))" "q_name (wd_store w ! r) \<in> uc_name ` set (cf_users c)"
  shows "us_get (wd_users w') (q_name (wd_store w ! r)) = Some r \<and> snapshot (wd_store w' ! r) = snapshot (wd_store w ! r)"
proof (rule apply_config_users [OF assms(1-3)])
  fix st rs usage
  assume st: "wd_store w' = st" "wd_users w' = user_set_new st rs"
    and same: "\<And>r. r \<in> set (us_ordered (wd_users w)) \<Longrightarrow> q_name (st ! r) = q_name (wd_store w ! r) \<and> snapshot (st ! r) = snapshot (wd_store w ! r)"
    and fol: "list_all2 (follows v c (remote_snapshot c w) usage (wd_users w) (length (wd_store w)) st) (cf_users c) rs"
    and dist: "distinct (map uc_name (cf_users c))"
  obtain u where u: "u \<in> set (cf_users c)" "uc_name u = q_name (wd_store w ! r)" using assms(5) by auto
  have wf: "users_wf (wd_store w) (wd_users w)" using assms(1) by (simp add: runtime_inv_def)
  have "us_get (wd_users w) (uc_name u) = Some r" using us_get_iff [OF wf] assms(4) u(2) by simp
  with next_set(3) [OF fol dist u(1)] u(2) same [OF assms(4)] show ?thesis by (auto simp: st follows_def)
qed

lemma leaving_user_is_flushed:
  assumes "runtime_inv w rt" "good_config c" "apply_config v c w rt = Some (w', rt', Inr ())"
    "driver_ok (ae_driver v)" "ae_flush_faults v = no_faults" "wd_db w = Some db" "db_inv (ae_driver v) db"
    "\<forall>r\<in>set (us_ordered (wd_users w)). write_row (ae_driver v) (snapshot (wd_store w ! r)) \<noteq> None"
    "r \<in> set (us_ordered (wd_users w))" "q_name (wd_store w ! r) \<notin> uc_name ` set (cf_users c)"
  shows "\<exists>db' saved. wd_db w' = Some db' \<and> load (ae_driver v) no_faults db' = Inr saved
    \<and> saved (q_name (wd_store w ! r)) = Some (snapshot (wd_store w ! r))"
proof (rule apply_config_users [OF assms(1-3)])
  fix st rs usage
  assume st: "wd_db w' = wd_db (flush_gone v (user_set_new st rs) (w\<lparr> wd_store := st \<rparr>))" "users_wf st (wd_users w)"
    and same: "\<And>r. r \<in> set (us_ordered (wd_users w)) \<Longrightarrow> q_name (st ! r) = q_name (wd_store w ! r) \<and> snapshot (st ! r) = snapshot (wd_store w ! r)"
    and fol: "list_all2 (follows v c (remote_snapshot c w) usage (wd_users w) (length (wd_store w)) st) (cf_users c) rs"
    and dist: "distinct (map uc_name (cf_users c))"
  note users = next_set [OF fol dist]
  have "us_get (user_set_new st rs) (q_name (wd_store w ! r)) = None" using us_get_None [OF users(1)] users(2) assms(10) by simp
  with flush_gone_stores [of v "w\<lparr> wd_store := st \<rparr>" db r "user_set_new st rs"] assms(4-9) st(2) same
  obtain db' where "wd_db w' = Some db'" "db_inv (ae_driver v) db'"
    "usage_of (ae_driver v) db' (q_name (wd_store w ! r)) = Some (snapshot (wd_store w ! r))"
    by (auto simp: st(1))
  with load_view show ?thesis by blast
qed

lemma coming_user_is_restored:
  assumes "runtime_inv w rt" "good_config c" "apply_config v c w rt = Some (w', rt', Inr ())"
    "wd_db w = Some db" "u \<in> set (cf_users c)" "us_get (wd_users w) (uc_name u) = None"
  shows "\<exists>r usage. us_get (wd_users w') (uc_name u) = Some r \<and> load (ae_driver v) (ae_load_faults v) db = Inr usage
    \<and> used (wd_store w' ! r) = (case usage (uc_name u) of None \<Rightarrow> 0
        | Some s \<Rightarrow> sv_settled s + bill (acc_metering (cf_accounting c)) (sv_hour_upload s) (sv_hour_download s))"
proof (rule apply_config_users [OF assms(1-3)])
  fix st rs usage
  assume st: "wd_store w' = st" "wd_users w' = user_set_new st rs" and ld: "load_saved v c w = Inr usage"
    and fol: "list_all2 (follows v c (remote_snapshot c w) usage (wd_users w) (length (wd_store w)) st) (cf_users c) rs"
    and dist: "distinct (map uc_name (cf_users c))"
  have load: "load (ae_driver v) (ae_load_faults v) db = Inr usage"
    using ld assms(4-6) by (auto simp: load_saved_def list_ex_iff split: if_splits)
  obtain r where r: "us_get (wd_users w') (uc_name u) = Some r"
    and cr: "create_user v c (remote_snapshot c w) usage (uc_name u) = Some (st ! r)"
    using next_set(3) [OF fol dist assms(5)] assms(6) by (auto simp: st follows_def)
  with create_user_used [OF resolve_quotas_total [OF assms(5)] cr] load show ?thesis by (auto simp: st)
qed

text \<open>C26: a change of the configuration loses no traffic.  A user that stays keeps the very counters that the
  running connections write to; a user that goes is flushed first, so the database holds its last
  counters; and a user that comes, or comes back, starts with the bill that the database holds.\<close>

theorem reload_loses_no_traffic:
  assumes "runtime_inv w rt" "good_config c" "apply_config v c w rt = Some (w', rt', Inr ())"
    "driver_ok (ae_driver v)" "ae_flush_faults v = no_faults" "wd_db w = Some db" "db_inv (ae_driver v) db"
    "\<forall>r\<in>set (us_ordered (wd_users w)). write_row (ae_driver v) (snapshot (wd_store w ! r)) \<noteq> None"
  shows "(\<forall>r\<in>set (us_ordered (wd_users w)).
      let q = wd_store w ! r in
        if q_name q \<in> uc_name ` set (cf_users c)
        then us_get (wd_users w') (q_name q) = Some r \<and> snapshot (wd_store w' ! r) = snapshot q
        else \<exists>db' saved. wd_db w' = Some db' \<and> load (ae_driver v) no_faults db' = Inr saved \<and> saved (q_name q) = Some (snapshot q))
    \<and> (\<forall>u\<in>set (cf_users c). us_get (wd_users w) (uc_name u) = None \<longrightarrow>
      (\<exists>r usage. us_get (wd_users w') (uc_name u) = Some r \<and> load (ae_driver v) (ae_load_faults v) db = Inr usage
         \<and> used (wd_store w' ! r) = (case usage (uc_name u) of None \<Rightarrow> 0
             | Some s \<Rightarrow> sv_settled s + bill (acc_metering (cf_accounting c)) (sv_hour_upload s) (sv_hour_download s))))"
  using staying_user_keeps_counters [OF assms(1-3)] leaving_user_is_flushed [OF assms] coming_user_is_restored [OF assms(1-3,6)]
  by (auto simp: Let_def)

section \<open>Splitting a rule\<close>

text \<open>
  The spare sockets of an address are dropped by the first new rule on it, whatever its protocol.  When a
  rule for both protocols becomes a UDP rule followed by a TCP rule on the same address, the TCP rule
  finds no spare listener and binds while the old listener is still open: the change is refused
  although the runtime holds every socket it needs.
\<close>

lemma split_rule_is_refused:
  assumes "rt_rules rt = [(old, rule)]" "sp_protocol old = Both" "rr_tcp rule = Some s" "rr_udp rule = Some t"
    "specs_of c = [new_udp, new_tcp]" "sp_protocol new_udp = Udp" "sp_protocol new_tcp = Tcp"
    "sp_listen old = addr" "sp_listen new_udp = addr" "sp_listen new_tcp = addr"
    "ae_bind_tcp v addr = Inl in_use"
  shows "apply_config v c w rt = Some (w, rt, Inl (CannotBindTcp addr in_use))"
proof -
  have ne: "old \<noteq> new_udp" "old \<noteq> new_tcp" using assms(2,6,7) by auto
  then have removed: "removed_rules (specs_of c) rt = [(old, rule)]" using assms(1,5) by (simp add: removed_rules_def)
  show ?thesis
    using assms ne by (simp add: apply_config_def removed [unfolded assms(5)] Let_def take_socket_def proto_tcp_def proto_udp_def)
qed

section \<open>A change at work\<close>

definition rt_config :: "user_config list \<Rightarrow> config" where
  "rt_config us = \<lparr> cf_state_file = None, cf_api = None, cf_panel = None, cf_total_quota = Some 1000,
     cf_accounting = accounting_default, cf_rules = [], cf_users = us, cf_single_user = False \<rparr>"

definition rt_user :: "string \<Rightarrow> rule list \<Rightarrow> user_config" where
  "rt_user nm rules = \<lparr> uc_name = nm, uc_quota = None, uc_packages = [], uc_rules = rules \<rparr>"

definition rt_env :: apply_env where
  "rt_env = \<lparr> ae_driver = signed_driver book_default, ae_load_faults = no_faults, ae_flush_faults = no_faults,
     ae_bind_tcp = (\<lambda>_. Inr 1), ae_bind_udp = (\<lambda>_. Inr 2), ae_hour = 5 \<rparr>"

definition rt_world :: "state_db option \<Rightarrow> quota_store \<Rightarrow> world" where
  "rt_world db st = \<lparr> wd_db = db, wd_store = st, wd_users = user_set_new st [0..<length st], wd_limits = None,
     wd_live = \<lparr> lv_config = rt_config [], lv_revision = 0, lv_from_panel = False \<rparr> \<rparr>"

definition switched :: "(world \<times> runtime \<times> (apply_error + unit)) option \<Rightarrow> bool" where
  "switched r = (case r of Some (_, _, Inr _) \<Rightarrow> True | _ \<Rightarrow> False)"

definition bob_config :: config where
  "bob_config = rt_config [rt_user ''bob'' [sample_rule 8080 ''10.0.0.1:80'' [''example.com:81'']]]"

lemma bob_good: "good_config bob_config"
proof -
  have "validate bob_config = Inr ()" by code_simp
  then show ?thesis by (simp add: validate_iff)
qed

theorem apply_config_switches_or_keeps_witness:
  "\<exists>w' rt'. apply_config rt_env bob_config (rt_world None []) runtime_new = Some (w', rt', Inr ())
     \<and> runtime_inv w' rt' \<and> map sp_user (specs_of bob_config) = [''bob'']
     \<and> fst ` set (rt_rules rt') = set (specs_of bob_config)"
proof -
  have inv: "runtime_inv (rt_world None []) runtime_new"
    by (simp add: runtime_inv_def rt_world_def runtime_new_def user_set_new_wf)
  have "switched (apply_config rt_env bob_config (rt_world None []) runtime_new)" by code_simp
  moreover have "map sp_user (specs_of bob_config) = [''bob'']" by code_simp
  ultimately show ?thesis
    using apply_config_switches_or_keeps [OF inv bob_good, of rt_env] by (auto simp: switched_def split: sum.splits)
qed

theorem reload_loses_no_traffic_witness:
  "\<exists>w' rt' db' saved r. apply_config rt_env bob_config (rt_world (Some example_db) [example_quota ''alice'' 9]) runtime_new
       = Some (w', rt', Inr ())
     \<and> wd_db w' = Some db' \<and> load (signed_driver book_default) no_faults db' = Inr saved
     \<and> saved ''alice'' = Some (example_usage 9)
     \<and> us_get (wd_users w') ''bob'' = Some r \<and> used (wd_store w' ! r) = 0"
proof -
  let ?w = "rt_world (Some example_db) [example_quota ''alice'' 9]" and ?d = "signed_driver book_default"
  have users: "us_ordered (wd_users ?w) = [0]" "wd_store ?w ! 0 = example_quota ''alice'' 9" "wd_db ?w = Some example_db"
    "us_get (wd_users ?w) ''bob'' = None"
    by (simp_all add: rt_world_def user_set_new_def us_get_def)
  have inv: "runtime_inv ?w runtime_new"
    by (simp add: runtime_inv_def rt_world_def runtime_new_def user_set_new_wf)
  have env: "ae_driver rt_env = ?d" "ae_flush_faults rt_env = no_faults" "ae_load_faults rt_env = no_faults"
    by (simp_all add: rt_env_def)
  have "switched (apply_config rt_env bob_config ?w runtime_new)" by code_simp
  then obtain w' rt' where run: "apply_config rt_env bob_config ?w runtime_new = Some (w', rt', Inr ())"
    by (auto simp: switched_def split: option.splits prod.splits sum.splits)
  have bob: "cf_users bob_config = [rt_user ''bob'' [sample_rule 8080 ''10.0.0.1:80'' [''example.com:81'']]]"
    "uc_name (rt_user ''bob'' rs) = ''bob''" for rs
    by (simp_all add: bob_config_def rt_config_def rt_user_def)
  have store: "\<forall>r\<in>set (us_ordered (wd_users ?w)). write_row (ae_driver rt_env) (snapshot (wd_store ?w ! r)) \<noteq> None"
    using example_storable by (simp add: users env)
  have usage: "load ?d no_faults example_db = Inr [''alice'' \<mapsto> example_usage 7]"
    using load_view [OF example_db_usage(2)] example_db_usage(1) by simp
  from reload_loses_no_traffic [OF inv bob_good run _ _ users(3) _ store] show ?thesis
    using run example_db_usage(2) signed_driver_ok [of book_default] by (auto simp: env users bob Let_def usage)
qed

end
