(* ===== verification/Control_Props.thy ===== *)
theory Control_Props
  imports Control Runtime_Props
begin

text \<open>
  What holds of the whole program between the turns of its main loop: the configuration that the panel and
  the engine see is the one that runs.  Edits of the panel are never lost to each other, a refused edit leaves
  no trace, and an accepted one is what a restart comes back with.
\<close>

section \<open>The invariant\<close>

definition control_inv :: "control \<Rightarrow> bool" where
  "control_inv s \<longleftrightarrow>
     (let w = ct_world s; c = world_config w in
      runtime_inv w (ct_runtime s) \<and> good_config c \<and> cf_rules c = []
      \<and> fst ` set (rt_rules (ct_runtime s)) = set (specs_of c)
      \<and> names_of (wd_store w) (wd_users w) = map uc_name (cf_users c))"

lemma finalize_good:
  assumes "finalize c = Inr c'"
  shows "good_config c' \<and> cf_rules c' = [] \<and> (cf_rules c = [] \<longrightarrow> c' = c)"
proof -
  have "validate c' = Inr () \<and> cf_rules c' = [] \<and> (cf_rules c = [] \<longrightarrow> c' = c)"
    using assms by (auto simp: finalize_def Let_def split: if_splits sum.splits)
  then show ?thesis by (simp add: validate_iff)
qed

lemma finalize_again: "good_config c \<Longrightarrow> cf_rules c = [] \<Longrightarrow> finalize c = Inr c"
  using validate_iff [of c] by (simp add: finalize_def Let_def)

lemma parse_good: "parse_config yaml json5 raw path = Inr c \<Longrightarrow> good_config c \<and> cf_rules c = []"
  by (auto simp: parse_config_def Let_def split: sum.splits dest: finalize_good)

lemma publish_frame' [simp]:
  "ct_runtime (publish c p s) = ct_runtime s" "ct_files (publish c p s) = ct_files s"
  "ct_file_raw (publish c p s) = ct_file_raw s" "ct_store_path (publish c p s) = ct_store_path s" "ct_path (publish c p s) = ct_path s"
  "wd_live (ct_world (publish c p s)) = \<lparr> lv_config = c, lv_revision = lv_revision (wd_live (ct_world s)) + 1, lv_from_panel = p \<rparr>"
  "wd_store (ct_world (publish c p s)) = wd_store (ct_world s)" "wd_users (ct_world (publish c p s)) = wd_users (ct_world s)"
  by (simp_all add: publish_def Let_def)

lemma runtime_inv_live [simp]: "runtime_inv (w\<lparr> wd_live := l \<rparr>) rt = runtime_inv w rt"
  by (simp add: runtime_inv_def)

lemma apply_config_live: "apply_config v c w rt = Some (w', rt', r) \<Longrightarrow> wd_live w' = wd_live w"
  by (auto simp: apply_config_def commit_apply_def Let_def bind_eq_Some_conv split: prod.splits sum.splits)

lemma apply_to_cases:
  assumes "runtime_inv (ct_world s) (ct_runtime s)" "good_config c"
  obtains (refused) e where "apply_to v c s = Some (s, Inl e)"
  | (applied) w rt where "apply_to v c s = Some (s\<lparr> ct_world := w, ct_runtime := rt \<rparr>, Inr ())" "runtime_inv w rt"
      "fst ` set (rt_rules rt) = set (specs_of c)" "names_of (wd_store w) (wd_users w) = map uc_name (cf_users c)"
      "wd_live w = wd_live (ct_world s)"
proof -
  from apply_config_run [OF assms, of "ce_apply v"] obtain w rt r where
    run: "apply_config (ce_apply v) c (ct_world s) (ct_runtime s) = Some (w, rt, r)" "runtime_inv w rt"
    and out: "case r of Inl e \<Rightarrow> w = ct_world s \<and> rt = ct_runtime s
      | Inr _ \<Rightarrow> fst ` set (rt_rules rt) = set (specs_of c) \<and> names_of (wd_store w) (wd_users w) = map uc_name (cf_users c)"
    by (fastforce split: sum.splits)
  note live = apply_config_live [OF run(1)]
  show thesis
  proof (cases r)
    case (Inl e)
    with run(1) out refused [of e] show thesis by (simp add: apply_to_def)
  next
    case (Inr u)
    with run out live applied [of rt w] show thesis by (simp add: apply_to_def)
  qed
qed

text \<open>A change that went through, and one that did not.\<close>

definition changed_to :: "config \<Rightarrow> bool \<Rightarrow> control \<Rightarrow> control \<Rightarrow> bool" where
  "changed_to c from_panel s s' \<longleftrightarrow> wd_live (ct_world s') = \<lparr> lv_config = c,
     lv_revision = lv_revision (wd_live (ct_world s)) + 1, lv_from_panel = from_panel \<rparr>"

definition unchanged :: "control \<Rightarrow> control \<Rightarrow> bool" where
  "unchanged s s' \<longleftrightarrow> ct_world s' = ct_world s \<and> ct_runtime s' = ct_runtime s"

lemma control_inv_unchanged: "control_inv s \<Longrightarrow> unchanged s s' \<Longrightarrow> control_inv s'"
  by (simp add: control_inv_def unchanged_def Let_def)

lemma stored_rules: "cf_rules (stored_config c st) = cf_rules c"
  by (simp add: stored_config_def)

lemma save_cases:
  assumes "control_inv s"
  obtains (stale) "ce_revision edit \<noteq> lv_revision (wd_live (ct_world s))" "save v edit s = Some (s, Inl Conflict)"
  | (invalid) e where "save v edit s = Some (s, Inl (Invalid e))"
  | (unwritten) f e where "write_store v (edited_store (ct_file_raw s) edit (world_config (ct_world s))) (ct_files s) = (f, Inl e)"
      "save v edit s = Some (s\<lparr> ct_files := f \<rparr>, Inl (SaveIo e))"
  | (unapplied) f e where "write_store v (edited_store (ct_file_raw s) edit (world_config (ct_world s))) (ct_files s) = (f, Inr ())"
      "save v edit s = Some (s\<lparr> ct_files := put_back v (case ce_io v ReadStore of None \<Rightarrow> fl_store (ct_files s) | Some _ \<Rightarrow> None) f \<rparr>,
         Inl (InvalidApply e))"
  | (saved) f s1 where "write_store v (edited_store (ct_file_raw s) edit (world_config (ct_world s))) (ct_files s) = (f, Inr ())"
      "let c = stored_config (world_config (ct_world s)) (edited_store (ct_file_raw s) edit (world_config (ct_world s)))
       in save v edit s = Some (publish c True s1, Inr (lv_revision (wd_live (ct_world s)) + 1))
          \<and> control_inv (publish c True s1) \<and> good_config c \<and> cf_rules c = []"
      "ct_files s1 = f" "ct_file_raw s1 = ct_file_raw s" "wd_live (ct_world s1) = wd_live (ct_world s)"
      "ce_revision edit = lv_revision (wd_live (ct_world s))"
proof -
  let ?cur = "world_config (ct_world s)"
  let ?st = "edited_store (ct_file_raw s) edit ?cur"
  have inv: "runtime_inv (ct_world s) (ct_runtime s)" "cf_rules ?cur = []" using assms by (simp_all add: control_inv_def Let_def)
  show thesis
  proof (cases "ce_revision edit = lv_revision (wd_live (ct_world s))")
    case False
    then show thesis by (intro stale) (simp_all add: save_def Let_def)
  next
    case rev: True
    show thesis
    proof (cases "check_config (stored_config ?cur ?st)")
      case (Inl e)
      with rev show thesis by (intro invalid) (simp add: save_def Let_def)
    next
      case (Inr c)
      have "cf_rules (stored_config ?cur ?st) = []" by (simp add: stored_rules inv(2))
      then have c: "c = stored_config ?cur ?st" "good_config c" "cf_rules c = []"
        using finalize_good [OF Inr [unfolded check_config_def]] by blast+
      obtain f r where w: "write_store v ?st (ct_files s) = (f, r)" by fastforce
      show thesis
      proof (cases r)
        case (Inl e)
        with rev Inr w show thesis by (intro unwritten [of f e]) (simp_all add: save_def Let_def)
      next
        case ok: (Inr u)
        have "runtime_inv (ct_world (s\<lparr> ct_files := f \<rparr>)) (ct_runtime (s\<lparr> ct_files := f \<rparr>))" using inv(1) by simp
        from this c(2) show thesis
        proof (cases rule: apply_to_cases [where v = v])
          case (refused e)
          with rev Inr w ok show thesis by (intro unapplied [of f e]) (simp_all add: save_def Let_def)
        next
          case (applied wd rt)
          let ?s1 = "s\<lparr> ct_files := f, ct_world := wd, ct_runtime := rt \<rparr>"
          have "control_inv (publish c True ?s1)"
            using applied(2-4) c(2,3) by (simp add: control_inv_def Let_def publish_def)
          with rev Inr w ok applied c show thesis
            by (intro saved [of f ?s1]) (simp_all add: save_def Let_def)
        qed
      qed
    qed
  qed
qed

lemma control_turn_inv:
  assumes "control_inv s" "control_turn v ev s = Some (s', r)"
  shows "control_inv s' \<and> (unchanged s s' \<or> (\<exists>c p. changed_to c p s s'))"
proof (cases ev)
  case (FileChanged raw)
  let ?s = "s\<lparr> ct_file_raw := raw \<rparr>"
  have un: "control_inv s1 \<and> unchanged s s1" if "unchanged s s1" for s1
    using control_inv_unchanged [OF assms(1) that] that by simp
  show ?thesis
  proof (cases "parse_config (ce_yaml v) (ce_json5 v) raw (ct_path s)")
    case (Inl e)
    with assms(2) FileChanged un [of ?s] show ?thesis by (auto simp: control_turn_def reload_def unchanged_def)
  next
    case (Inr c)
    note good = parse_good [OF Inr]
    have "runtime_inv (ct_world ?s) (ct_runtime ?s)" using assms(1) by (simp add: control_inv_def Let_def)
    from this good [THEN conjunct1] show ?thesis
    proof (cases rule: apply_to_cases [where v = v])
      case (refused e)
      with assms(2) FileChanged Inr un [of ?s] show ?thesis by (auto simp: control_turn_def reload_def unchanged_def)
    next
      case (applied w rt)
      then obtain s2 where s2: "s' = publish c False s2" "ct_world s2 = w" "ct_runtime s2 = rt"
        using assms(2) FileChanged Inr by (auto simp: control_turn_def reload_def Let_def)
      have "control_inv s'" using applied(2-4) good s2 by (simp add: control_inv_def Let_def publish_def)
      moreover have "changed_to c False s s'" using applied(5) s2 by (simp add: changed_to_def)
      ultimately show ?thesis by blast
    qed
  qed
next
  case (SaveRequested edit)
  show ?thesis
  proof (cases "ct_store_path s")
    case None
    with assms SaveRequested show ?thesis by (auto simp: control_turn_def unchanged_def)
  next
    case (Some path)
    with assms(2) SaveRequested obtain r' where sv: "save v edit s = Some (s', r')" by (auto simp: control_turn_def bind_eq_Some_conv)
    from assms(1) show ?thesis
    proof (cases rule: save_cases [where edit = edit and v = v])
      case (saved f s1)
      with sv show ?thesis by (auto simp: Let_def changed_to_def)
    qed (use sv assms(1) control_inv_unchanged [OF assms(1)] in \<open>auto simp: unchanged_def\<close>)
  qed
qed

section \<open>From the start on\<close>

text \<open>What the other tasks do between two turns of the main loop: traffic, syncs, flushes and health checks
  change counters, limits, tables and health, but not which users and rules there are.\<close>

definition elsewhere :: "control \<Rightarrow> control \<Rightarrow> bool" where
  "elsewhere s s' \<longleftrightarrow>
     wd_users (ct_world s') = wd_users (ct_world s) \<and> wd_live (ct_world s') = wd_live (ct_world s)
     \<and> map q_name (wd_store (ct_world s')) = map q_name (wd_store (ct_world s))
     \<and> rt_rules (ct_runtime s') = rt_rules (ct_runtime s)
     \<and> map tp_targets (rt_pool_store (ct_runtime s')) = map tp_targets (rt_pool_store (ct_runtime s))"

inductive control_run :: "control \<Rightarrow> control \<Rightarrow> bool" where
  started: "control_run s s"
| other_tasks: "control_run s s1 \<Longrightarrow> elsewhere s1 s2 \<Longrightarrow> control_run s s2"
| main_turn: "control_run s s1 \<Longrightarrow> control_turn v ev s1 = Some (s2, r) \<Longrightarrow> control_run s s2"

lemma map_eq_nth: "map f xs = map f ys \<Longrightarrow> length xs = length ys \<and> (\<forall>i<length xs. f (xs ! i) = f (ys ! i))"
  by (metis length_map nth_map)

lemma control_inv_elsewhere:
  assumes "control_inv s" "elsewhere s s'"
  shows "control_inv s'"
proof -
  let ?w = "ct_world s" and ?w' = "ct_world s'" and ?p = "rt_pool_store (ct_runtime s)" and ?p' = "rt_pool_store (ct_runtime s')"
  have names: "length (wd_store ?w') = length (wd_store ?w)" "\<forall>r<length (wd_store ?w). q_name (wd_store ?w' ! r) = q_name (wd_store ?w ! r)"
    and pools: "length ?p' = length ?p" "\<forall>i<length ?p. tp_targets (?p' ! i) = tp_targets (?p ! i)"
    using map_eq_nth [of q_name "wd_store ?w'" "wd_store ?w"] map_eq_nth [of tp_targets ?p' ?p] assms(2)
    by (auto simp: elsewhere_def)
  have wf: "users_wf (wd_store ?w) (wd_users ?w)" using assms(1) by (simp add: control_inv_def runtime_inv_def Let_def)
  note keep = names_keep [OF names wf]
  have "rule_ok (wd_users ?w') ?p' spec rule" if "rule_ok (wd_users ?w) ?p spec rule" for spec rule
    using that pools assms(2) by (auto simp: rule_ok_def elsewhere_def)
  with assms keep show ?thesis
    by (auto simp: control_inv_def runtime_inv_def Let_def elsewhere_def)
qed

lemma control_run_inv: "control_run s s' \<Longrightarrow> control_inv s \<Longrightarrow> control_inv s'"
  by (induction rule: control_run.induct) (auto dest: control_inv_elsewhere control_turn_inv)

lemma restore_good: "restore v file raw f = (f', Some c) \<Longrightarrow> good_config c \<and> cf_rules c = []"
  by (auto simp: restore_def check_config_def split: option.splits if_splits sum.splits dest: finalize_good)

definition boot_world :: "state_db option \<Rightarrow> book \<Rightarrow> live \<Rightarrow> world" where
  "boot_world db bk l = \<lparr> wd_db = db, wd_store = [], wd_users = user_set_empty, wd_limits = remote_limits_new bk, wd_live = l \<rparr>"

lemma boot_world_inv: "runtime_inv (boot_world db bk l) runtime_new"
  by (simp add: boot_world_def runtime_inv_def runtime_new_def user_set_empty_def users_wf_def names_of_def)

lemma boot_cases:
  assumes "boot b path raw = Some (Inr (s, rs))"
  obtains cfg db bk es where "parse_config (ce_yaml (be_control b)) (ce_json5 (be_control b)) raw path = Inr cfg"
    "open_state b cfg = Inr db" "restore_book (ae_driver (ce_apply (be_control b))) (be_faults b) db = Inr (bk, es)"
    "apply_config (ce_apply (be_control b)) (world_config (ct_world s)) (boot_world db bk (wd_live (ct_world s))) runtime_new
       = Some (ct_world s, ct_runtime s, Inr ())"
    "good_config (world_config (ct_world s))" "cf_rules (world_config (ct_world s)) = []"
    "lv_revision (wd_live (ct_world s)) = 0" "rs = run_start (be_clock b) (ct_world s) (engine_new (ct_world s) bk es)"
    "config_panel cfg = None \<longrightarrow> world_config (ct_world s) = cfg"
proof -
  let ?v = "be_control b"
  obtain c where parse: "parse_config (ce_yaml ?v) (ce_json5 ?v) raw path = Inr c"
    using assms by (auto simp: boot_def Let_def split: sum.splits)
  obtain db where db: "open_state b c = Inr db" using assms parse by (auto simp: boot_def Let_def split: sum.splits)
  obtain f stored where st: "(if map_option pn_path (config_panel c) = None then (be_files b, None) else restore ?v c raw (be_files b)) = (f, stored)"
    by fastforce
  obtain bk es where bk: "restore_book (ae_driver (ce_apply ?v)) (be_faults b) db = Inr (bk, es)"
    using assms parse db st by (auto simp: boot_def Let_def split: sum.splits)
  let ?e = "case stored of None \<Rightarrow> c | Some e \<Rightarrow> e"
  let ?l = "\<lparr> lv_config = ?e, lv_revision = 0, lv_from_panel = (stored \<noteq> None) \<rparr>"
  have good: "good_config ?e" "cf_rules ?e = []"
    using parse_good [OF parse] st restore_good [of ?v c raw "be_files b" f] by (auto split: option.splits if_splits)
  obtain w rt r where run: "apply_config (ce_apply ?v) ?e (boot_world db bk ?l) runtime_new = Some (w, rt, r)"
    using apply_config_run [OF boot_world_inv good(1)] by blast
  have "r = Inr () \<and> ct_world s = w \<and> ct_runtime s = rt \<and> rs = run_start (be_clock b) w (engine_new w bk es)"
    using assms parse db st bk run by (auto simp: boot_def boot_world_def Let_def split: sum.splits)
  moreover have "wd_live w = ?l" using apply_config_live [OF run] by (simp add: boot_world_def)
  moreover have "config_panel c = None \<longrightarrow> ?e = c" using st by auto
  ultimately show thesis using run good by (intro that [OF parse db bk]) simp_all
qed

lemma boot_inv:
  assumes "boot b path raw = Some (Inr (s, rs))"
  shows "control_inv s \<and> lv_revision (wd_live (ct_world s)) = 0"
proof (rule boot_cases [OF assms])
  fix db bk
  let ?c = "world_config (ct_world s)"
  assume run: "apply_config (ce_apply (be_control b)) ?c (boot_world db bk (wd_live (ct_world s))) runtime_new
      = Some (ct_world s, ct_runtime s, Inr ())"
    and good: "good_config ?c" "cf_rules ?c = []" and "lv_revision (wd_live (ct_world s)) = 0"
  moreover have "runtime_inv (ct_world s) (ct_runtime s) \<and> fst ` set (rt_rules (ct_runtime s)) = set (specs_of ?c)
      \<and> names_of (wd_store (ct_world s)) (wd_users (ct_world s)) = map uc_name (cf_users ?c)"
    using apply_config_run [OF boot_world_inv good(1), of "ce_apply (be_control b)" db bk "wd_live (ct_world s)"] run by auto
  ultimately show ?thesis by (simp add: control_inv_def Let_def)
qed

text \<open>C15: what is live is what runs.  From a successful start on, through every reload of the file, every edit of the
  panel and whatever the other tasks do in between, the configuration that is shown and that the next
  edit starts from is valid, exactly its enabled rules are running, its users are the users with
  quotas, and every rule serves its targets and bills the quota of its owner.\<close>

theorem live_config_is_running:
  assumes "boot b path raw = Some (Inr (s0, rs))" "control_run s0 s"
  shows "let w = ct_world s; c = world_config w; rt = ct_runtime s in
    good_config c \<and> fst ` set (rt_rules rt) = set (specs_of c)
    \<and> names_of (wd_store w) (wd_users w) = map uc_name (cf_users c)
    \<and> (\<forall>(spec, rule)\<in>set (rt_rules rt). tp_targets (rt_pool_store rt ! rr_pool rule) = sp_targets spec
         \<and> (\<exists>quota. us_get (wd_users w) (sp_user spec) = Some quota
              \<and> rr_tasks rule = rule_tasks spec (rr_tcp rule) (rr_udp rule) quota))"
proof -
  have "control_inv s" using control_run_inv [OF assms(2)] boot_inv [OF assms(1)] by blast
  then show ?thesis by (auto simp: control_inv_def runtime_inv_def rule_ok_def Let_def)
qed

section \<open>Edits\<close>

lemma write_store_failed: "write_store v st f = (f', Inl e) \<Longrightarrow> fl_store f' = fl_store f"
  by (auto simp: write_store_def split: option.splits)

lemma write_store_ok: "write_store v st f = (f', Inr ()) \<Longrightarrow> \<exists>json. ce_encode v (store_write st) = Some json \<and> fl_store f' = Some json"
  by (auto simp: write_store_def split: option.splits)

text \<open>C16: edits are never lost to each other and refused edits leave no trace.  When an edit has been accepted, every
  other edit that started from the same revision is refused as a conflict; and an edit that is refused, stale,
  invalid, not writable or not applicable, changes neither the configuration nor the running rules nor the users,
  and the panel's file is as it was, as long as putting it back does not itself fail.\<close>

theorem edits_are_not_lost:
  assumes "control_inv s" "save v edit s = Some (s', r)"
    "ce_io v ReadStore = None" "ce_io v WriteBack = None" "ce_io v Remove = None"
  shows "(\<forall>n. r = Inr n \<longrightarrow> ce_revision edit = lv_revision (wd_live (ct_world s)) \<and> n = ce_revision edit + 1
      \<and> (\<forall>v2 edit2. ce_revision edit2 = ce_revision edit \<longrightarrow> save v2 edit2 s' = Some (s', Inl Conflict)))
    \<and> (\<forall>err. r = Inl err \<longrightarrow> unchanged s s' \<and> fl_store (ct_files s') = fl_store (ct_files s) \<and> ct_file_raw s' = ct_file_raw s)"
  using assms(1)
proof (cases rule: save_cases [where edit = edit and v = v])
  case (unapplied f e)
  with assms(2-5) write_store_ok [OF unapplied(1)] show ?thesis
    by (auto simp: unchanged_def put_back_def remove_store_def split: option.splits)
next
  case (saved f s1)
  then have "r = Inr (ce_revision edit + 1)" "lv_revision (wd_live (ct_world s')) = ce_revision edit + 1"
    using assms(2) by (auto simp: Let_def)
  then show ?thesis using saved(6) by (auto simp: save_def Let_def)
qed (use assms(2) write_store_failed in \<open>auto simp: unchanged_def\<close>)

lemma store_reads_back:
  assumes "small_size (so_total_quota st)" "\<forall>u\<in>set (so_users st). small_size (uc_quota u)"
  shows "store_read (store_write st) = Some st"
  using assms by (simp add: store_read_def store_write_def size_reads_back users_read_back)

text \<open>A total above that bound can change: the kilobyte that \<open>bytesize_loses_a_kilobyte\<close> loses.\<close>

lemma large_quota_loses_a_kilobyte:
  assumes "so_total_quota st = Some ((2 ^ 53 + 1) * 2 ^ 10)" "\<forall>u\<in>set (so_users st). small_size (uc_quota u)"
  shows "store_read (store_write st) = Some (st\<lparr> so_total_quota := Some (2 ^ 53 * 2 ^ 10) \<rparr>)"
  using assms bytesize_loses_a_kilobyte
  by (simp add: store_read_def store_write_def size_read_def users_read_back)

text \<open>C17: an accepted edit survives a restart.  If the program starts again with the configuration file as it is, it
  comes back with exactly the configuration that was live after the edit, provided that the quotas of the
  edit are below 2^63 bytes, that the JSON library reads back the document it wrote, and that
  the file's own settings are those that were in force.\<close>

theorem saved_edit_survives_restart:
  assumes "control_inv s" "save v edit s = Some (s', Inr n)"
    "small_size (ce_total_quota edit)" "\<forall>u\<in>set (ce_users edit). small_size (uc_quota u)"
  defines "doc \<equiv> store_write (edited_store (ct_file_raw s) edit (world_config (ct_world s)))"
  assumes "\<forall>json. ce_encode v doc = Some json \<longrightarrow> ce_decode v2 json = Some doc" "ce_io v2 ReadStore = None"
    "parse_config (ce_yaml v2) (ce_json5 v2) (ct_file_raw s) (ct_path s) = Inr file"
    "cf_state_file file = cf_state_file (world_config (ct_world s))" "cf_api file = cf_api (world_config (ct_world s))"
    "cf_panel file = cf_panel (world_config (ct_world s))"
  shows "restore v2 file (ct_file_raw s') (ct_files s') = (ct_files s', Some (world_config (ct_world s')))"
  using assms(1)
proof (cases rule: save_cases [where edit = edit and v = v])
  case (saved f s1)
  let ?cur = "world_config (ct_world s)"
  let ?st = "edited_store (ct_file_raw s) edit ?cur"
  let ?c = "stored_config ?cur ?st"
  have s': "s' = publish ?c True s1" "good_config ?c" "cf_rules ?c = []" using saved(2) assms(2) by (simp_all add: Let_def)
  obtain json where json: "ce_encode v (store_write ?st) = Some json" "fl_store (ct_files s') = Some json"
    using write_store_ok [OF saved(1)] saved(3) s'(1) by auto
  have "store_read (store_write ?st) = Some ?st"
    by (rule store_reads_back) (use assms(3,4) in \<open>simp_all add: edited_store_def\<close>)
  then have load: "load_store v2 (ct_files s') = Some ?st"
    using assms(6,7) json by (simp add: load_store_def doc_def)
  have "cf_rules file = cf_rules ?cur" using parse_good [OF assms(8)] assms(1) by (simp add: control_inv_def Let_def)
  then have "stored_config file ?st = ?c" using assms(9-11) by (simp add: stored_config_def edited_store_def)
  moreover have "check_config ?c = Inr ?c" using finalize_again [OF s'(2,3)] by (simp add: check_config_def)
  moreover have "so_base ?st = ct_file_raw s'" using saved(4) s'(1) by (simp add: edited_store_def)
  ultimately show ?thesis using load s'(1) by (simp add: restore_def)
qed (use assms(2) in auto)

section \<open>A start and an edit\<close>

definition ct_config :: config where
  "ct_config = bob_config\<lparr> cf_panel := Some \<lparr> pn_enabled = True, pn_listen = sample_listen 9000, pn_token = ''t'',
     pn_username = '''', pn_password = '''', pn_path = ''panel.json'' \<rparr> \<rparr>"

definition ct_edit :: config_edit where
  "ct_edit = \<lparr> ce_revision = 0, ce_total_quota = Some 2048, ce_accounting = None, ce_single_user = False,
     ce_users = cf_users ct_config \<rparr>"

definition ct_env :: control_env where
  "ct_env = (let st = store_write (edited_store ''raw'' ct_edit ct_config) in
     \<lparr> ce_apply = rt_env, ce_io = (\<lambda>_. None), ce_cut = 0,
       ce_encode = (\<lambda>s. if s = st then Some ''saved'' else None),
       ce_decode = (\<lambda>json. if json = ''saved'' then Some st else None),
       ce_yaml = (\<lambda>_. Inr ct_config), ce_json5 = (\<lambda>_. Inr ct_config) \<rparr>)"

definition ct_boot :: boot_env where
  "ct_boot = \<lparr> be_control = ct_env, be_faults = no_faults,
     be_disk = \<lparr> dk_usage = NoUsage, dk_book = None, dk_entries = [] \<rparr>,
     be_files = \<lparr> fl_store = None, fl_partial = None \<rparr>, be_bind = (\<lambda>_. None), be_clock = 0 \<rparr>"

definition ct_world0 :: world where
  "ct_world0 = \<lparr> wd_db = None, wd_store = [], wd_users = user_set_empty, wd_limits = remote_limits_new book_default,
     wd_live = \<lparr> lv_config = ct_config, lv_revision = 0, lv_from_panel = False \<rparr> \<rparr>"

definition ct_next :: config where
  "ct_next = stored_config ct_config (edited_store ''raw'' ct_edit ct_config)"

lemma ct_good: "good_config ct_config" "cf_rules ct_config = []" "good_config ct_next" "cf_rules ct_next = []"
proof -
  have "validate ct_config = Inr ()" "validate ct_next = Inr ()" by code_simp+
  then show "good_config ct_config" "good_config ct_next" by (simp_all add: validate_iff)
qed (simp_all add: ct_config_def bob_config_def rt_config_def ct_next_def stored_rules)

lemma ct_applies: "switched (Option.bind (apply_config rt_env ct_config ct_world0 runtime_new)
    (\<lambda>(w, rt, r). case r of Inl _ \<Rightarrow> None | Inr _ \<Rightarrow> apply_config rt_env ct_next w rt))"
  by code_simp

lemma switched_twice:
  assumes "switched (Option.bind x (\<lambda>(w, rt, r). case r of Inl _ \<Rightarrow> None | Inr _ \<Rightarrow> f w rt))"
  obtains w rt w2 rt2 where "x = Some (w, rt, Inr ())" "f w rt = Some (w2, rt2, Inr ())"
  using assms by (auto simp: switched_def bind_eq_Some_conv split: option.splits prod.splits sum.splits)

lemma ct_env_simps:
  "ce_io ct_env = (\<lambda>_. None)" "ce_apply ct_env = rt_env" "be_control ct_boot = ct_env"
  "ce_encode ct_env (store_write (edited_store ''raw'' ct_edit ct_config)) = Some ''saved''"
  "ce_encode ct_env doc = Some json \<longrightarrow> ce_decode ct_env json = Some doc"
  "ce_revision ct_edit = 0" "be_files ct_boot = \<lparr> fl_store = None, fl_partial = None \<rparr>"
  by (simp_all add: ct_env_def ct_boot_def ct_edit_def Let_def)

lemma ct_parse: "parse_config (ce_yaml ct_env) (ce_json5 ct_env) ''raw'' ''c.json'' = Inr ct_config"
  using finalize_again [OF ct_good(1,2)] by (simp add: parse_config_def ct_env_def Let_def)

lemma ct_started:
  "\<exists>s rs s'. boot ct_boot ''c.json'' ''raw'' = Some (Inr (s, rs)) \<and> world_config (ct_world s) = ct_config
     \<and> ct_file_raw s = ''raw'' \<and> ct_path s = ''c.json'' \<and> lv_revision (wd_live (ct_world s)) = 0
     \<and> save ct_env ct_edit s = Some (s', Inr 1)"
proof -
  obtain w rt w2 rt2 where
    run: "apply_config rt_env ct_config ct_world0 runtime_new = Some (w, rt, Inr ())"
      "apply_config rt_env ct_next w rt = Some (w2, rt2, Inr ())"
    using ct_applies by (rule switched_twice)
  have live: "wd_live w = wd_live ct_world0" "wd_live w2 = wd_live w" using run apply_config_live by blast+
  let ?s = "\<lparr> ct_world = w, ct_runtime = rt, ct_files = be_files ct_boot, ct_file_raw = ''raw'',
    ct_store_path = map_option pn_path (config_panel ct_config), ct_path = ''c.json'' \<rparr>"
  have "open_state ct_boot ct_config = Inr None" by (simp add: open_state_def ct_config_def bob_config_def rt_config_def)
  moreover have "restore v ct_config raw (be_files ct_boot) = (be_files ct_boot, None)" for v raw
    by (simp add: restore_def load_store_def ct_env_simps split: option.split)
  moreover have "bind_api ct_boot ct_config = Inr ()" "bind_panel ct_boot ct_config = Inr ()"
    by (simp_all add: bind_api_def bind_panel_def ct_boot_def split: option.split)
  ultimately have "boot ct_boot ''c.json'' ''raw'' = Some (Inr (?s, run_start 0 w (engine_new w book_default [])))"
    using ct_parse run(1) by (simp add: boot_def Let_def restore_book_def ct_env_simps ct_world0_def) (simp add: ct_boot_def)
  moreover have "save ct_env ct_edit ?s = Some (publish ct_next True (?s\<lparr> ct_files := \<lparr> fl_store = Some ''saved'', fl_partial = None \<rparr>,
      ct_world := w2, ct_runtime := rt2 \<rparr>), Inr 1)"
    using finalize_again [OF ct_good(3,4)] run(2) live
    by (simp add: save_def Let_def ct_world0_def check_config_def ct_next_def [symmetric] apply_to_def write_store_def
        ct_env_simps)
  ultimately show ?thesis using live by (auto simp: ct_world0_def)
qed

theorem live_config_is_running_witness:
  "\<exists>s rs. boot ct_boot ''c.json'' ''raw'' = Some (Inr (s, rs))
     \<and> fst ` set (rt_rules (ct_runtime s)) = set (specs_of ct_config)"
proof -
  obtain s rs where s: "boot ct_boot ''c.json'' ''raw'' = Some (Inr (s, rs))" "world_config (ct_world s) = ct_config"
    using ct_started by blast
  from live_config_is_running [OF s(1) started] s show ?thesis by (auto simp: Let_def)
qed

theorem edits_are_not_lost_witness:
  "\<exists>s rs s'. boot ct_boot ''c.json'' ''raw'' = Some (Inr (s, rs)) \<and> save ct_env ct_edit s = Some (s', Inr 1)
     \<and> save ct_env ct_edit s' = Some (s', Inl Conflict)"
proof -
  obtain s rs s' where s: "boot ct_boot ''c.json'' ''raw'' = Some (Inr (s, rs))" "save ct_env ct_edit s = Some (s', Inr 1)"
    using ct_started by blast
  with edits_are_not_lost [OF boot_inv [OF s(1), THEN conjunct1] s(2)] show ?thesis by (auto simp: ct_env_simps)
qed

theorem saved_edit_survives_restart_witness:
  "\<exists>s rs s' c. boot ct_boot ''c.json'' ''raw'' = Some (Inr (s, rs)) \<and> save ct_env ct_edit s = Some (s', Inr 1)
     \<and> c = world_config (ct_world s') \<and> restore ct_env ct_config ''raw'' (ct_files s') = (ct_files s', Some c)"
proof -
  obtain s rs s' where s: "boot ct_boot ''c.json'' ''raw'' = Some (Inr (s, rs))" "save ct_env ct_edit s = Some (s', Inr 1)"
    "world_config (ct_world s) = ct_config" "ct_file_raw s = ''raw''" "ct_path s = ''c.json''"
    using ct_started by blast
  have inv: "control_inv s" using boot_inv [OF s(1)] by blast
  have small: "small_size (ce_total_quota ct_edit)" "\<forall>u\<in>set (ce_users ct_edit). small_size (uc_quota u)"
    by code_simp+
  have reads: "\<forall>json. ce_encode ct_env doc = Some json \<longrightarrow> ce_decode ct_env json = Some doc" for doc
    using ct_env_simps(5) by blast
  have io: "ce_io ct_env ReadStore = None" by (simp add: ct_env_simps)
  have parse: "parse_config (ce_yaml ct_env) (ce_json5 ct_env) (ct_file_raw s) (ct_path s) = Inr ct_config"
    using ct_parse s by simp
  from inv have "ct_file_raw s' = ''raw''"
    by (rule save_cases [where edit = ct_edit and v = ct_env]) (use s in \<open>auto simp: Let_def\<close>)
  with saved_edit_survives_restart [OF inv s(2) small reads io parse] s show ?thesis by simp
qed

end
