(* ===== verification/Accounting_Props.thy ===== *)
theory Accounting_Props
  imports Accounting
begin

text \<open>
  What a sync means for the users: the limits it hands out are the balances of the book.  The second
  half runs the engine on a small world, for the theorems here and in \<open>Accounting\<close>.
\<close>

section \<open>Handing out limits\<close>

lemma fold_on_quota:
  assumes "distinct rs" "\<forall>r\<in>set rs. r < length st"
  shows "fold (\<lambda>r st. on_quota r f st) rs st ! k = (if k \<in> set rs then f (st ! k) else st ! k)
    \<and> length (fold (\<lambda>r st. on_quota r f st) rs st) = length st"
  using assms
proof (induction rs arbitrary: st)
  case (Cons r rs)
  from Cons.IH [of "on_quota r f st"] Cons.prems show ?case by (auto simp: on_quota_nth)
qed simp

lemma set_limit_fields [simp]:
  "used (set_limit l q) = used q" "q_name (set_limit l q) = q_name q"
  "q_limit (set_limit l q) = (case l of None \<Rightarrow> NO_LIMIT | Some x \<Rightarrow> x)"
  by (simp_all add: set_limit_def Let_def)

lemma give_limit_laws:
  assumes "quota_inv q" "book_or_used b q \<noteq> NO_LIMIT"
  shows "used (give_limit b q) = used q \<and> limit_of (give_limit b q) = Some (book_or_used b q)
    \<and> quota_inv (give_limit b q)"
  using assms quota_inv_set_limit [of "Some (book_or_used b q)" q]
  by (auto simp: give_limit_def Let_def limit_of_def)

lemma give_limit_used: "used (give_limit b q) = used q"
  by (simp add: give_limit_def Let_def)

lemma members_of_names:
  assumes "users_wf (wd_store w) (wd_users w)" "distinct (map uc_name (cf_users c))"
  shows "distinct (map mb_name (members_of c w))"
proof -
  let ?get = "\<lambda>u. us_get (wd_users w) (uc_name u)"
  have "map mb_name (members_of c w) = map uc_name (filter (\<lambda>u. ?get u \<noteq> None) (cf_users c))"
  proof -
    have "q_name (wd_store w ! the (?get u)) = uc_name u" if "?get u \<noteq> None" for u
      using that us_get_iff [OF assms(1), of "uc_name u"] by (cases "?get u") auto
    then show ?thesis unfolding members_of_def map_filter_def by (auto simp: Let_def)
  qed
  with assms(2) show ?thesis by (simp add: distinct_map_filter)
qed

lemma member_of_ref:
  assumes "users_wf (wd_store w) (wd_users w)" "r \<in> set (us_ordered (wd_users w))"
    "q_name (wd_store w ! r) \<in> uc_name ` set (cf_users c)"
  shows "\<exists>m\<in>set (members_of c w). mb_name m = q_name (wd_store w ! r) \<and> mb_used m = used (wd_store w ! r)"
proof -
  obtain u where u: "u \<in> set (cf_users c)" "uc_name u = q_name (wd_store w ! r)" using assms(3) by auto
  then have "us_get (wd_users w) (uc_name u) = Some r" using us_get_iff [OF assms(1)] assms(2) by simp
  then have "r \<in> set (List.map_filter (\<lambda>u. us_get (wd_users w) (uc_name u)) (cf_users c))"
    using u(1) by (force simp: map_filter_def)
  then show ?thesis by (force simp: members_of_def Let_def)
qed

lemma commit_ok:
  assumes "commit v b es w e = (w1, e1, Inr ())"
  shows "eg_book e1 = b" "wd_store w1 = wd_store w" "wd_users w1 = wd_users w"
  using assms by (auto elim!: commit_cases)

lemma sync_ok:
  assumes "sync v w0 w e = Some (w', e', Inr ())"
  obtains remote packages b es w1 e1 ignored where "active_remote (cf_accounting (world_config w0)) = Some remote"
    "reconcile packages (members_of (world_config w0) w) (assignments_of (world_config w0)) (ev_now v) (eg_book e) = Some (b, es)"
    "commit v b es w (e\<lparr> eg_last_attempt := Some (ev_attempt v), eg_ignored := ignored \<rparr>) = (w1, e1, Inr ())"
    "w' = apply_limits (world_config w0) e1 w1" "eg_book e' = eg_book e1"
proof -
  let ?c = "world_config w0" and ?e = "e\<lparr> eg_last_attempt := Some (ev_attempt v) \<rparr>"
  obtain remote where remote: "active_remote (cf_accounting ?c) = Some remote"
    using assms by (cases "active_remote (cf_accounting ?c)") (auto simp: sync_def Let_def)
  then obtain e1 where run: "sync_with v ?c remote w0 w ?e = Some (w', e1, Inr ())" and e': "eg_book e' = eg_book e1"
    using assms by (auto simp: sync_def Let_def bind_eq_Some_conv)
  from sync_with_cases [OF run] obtain fetched :: fetched and b es w1 where
    "reconcile (ft_packages fetched) (members_of ?c w) (assignments_of ?c) (ev_now v) (eg_book e) = Some (b, es)"
    "commit v b es w (?e\<lparr> eg_ignored := ft_ignored fetched \<rparr>) = (w1, e1, Inr ())" "w' = apply_limits ?c e1 w1"
    by simp blast
  with remote e' that show thesis by blast
qed

text \<open>A limit that follows the book leaves exactly the positive part of the balance.\<close>

lemma give_limit_grants:
  assumes "quota_inv q" "bt_get (bk_balances b) (q_name q) = Some bal" "bt_get (bk_baselines b) (q_name q) = Some (used q)"
    "unat (used q) + nat (sint bal) < 2 ^ 64 - 1"
  shows "(\<exists>left. remaining (give_limit b q) = Some left \<and> unat left = nat (sint bal))
    \<and> (is_exhausted (give_limit b q) \<longleftrightarrow> sint bal \<le> 0)"
proof -
  let ?g = "if sint bal < 0 then 0 else bal"
  have lim: "book_or_used b q = saturating_add (used q) ?g" using assms(2,3) by (simp add: book_or_used_def book_limit_def)
  have grant: "unat ?g = nat (sint bal)"
    using int_unat_eq_sint [of bal] by (cases "sint bal < 0") (simp_all del: of_nat_unat)
  have sum: "unat (book_or_used b q) = unat (used q) + nat (sint bal)"
    using assms(4) grant by (simp add: lim unat_saturating_add)
  then have "book_or_used b q \<noteq> NO_LIMIT" using assms(4) by (auto simp: NO_LIMIT_def)
  note laws = give_limit_laws [OF assms(1) this]
  have "unat (saturating_sub (book_or_used b q) (used q)) = nat (sint bal)"
    using sum by (simp add: unat_saturating_sub)
  moreover have "is_exhausted (give_limit b q) \<longleftrightarrow> book_or_used b q \<le> used q"
    using laws by (simp add: quota_inv_def over_limit_def is_exhausted_def)
  ultimately show ?thesis using laws sum by (simp add: remaining_def word_le_nat_alt)
qed

text \<open>C28: after a successful sync every configured user can spend exactly its balance.  What the user has left
  is the positive part of its balance in the new book, it is cut off exactly when the balance is not
  positive, and the sync has not changed what it has used; only a limit that reaches the largest
  number is not handed out as such, because that number stands for no limit.\<close>

theorem sync_grants_balances:
  assumes "sync v w0 w e = Some (w', e', Inr ())" "book_wf (eg_book e)"
    "users_wf (wd_store w) (wd_users w)" "distinct (map uc_name (cf_users (world_config w0)))"
    "r \<in> set (us_ordered (wd_users w))" "quota_inv (wd_store w ! r)"
    "q_name (wd_store w ! r) \<in> uc_name ` set (cf_users (world_config w0))"
  shows "\<exists>bal. bt_get (bk_balances (eg_book e')) (q_name (wd_store w ! r)) = Some bal
    \<and> used (wd_store w' ! r) = used (wd_store w ! r)
    \<and> (unat (used (wd_store w ! r)) + nat (sint bal) < 2 ^ 64 - 1 \<longrightarrow>
         (\<exists>left. remaining (wd_store w' ! r) = Some left \<and> unat left = nat (sint bal))
         \<and> (is_exhausted (wd_store w' ! r) \<longleftrightarrow> sint bal \<le> 0))"
proof -
  let ?c = "world_config w0" and ?q = "wd_store w ! r"
  obtain remote packages b es w1 e1 ignored where remote: "active_remote (cf_accounting ?c) = Some remote"
    and rec: "reconcile packages (members_of ?c w) (assignments_of ?c) (ev_now v) (eg_book e) = Some (b, es)"
    and com: "commit v b es w (e\<lparr> eg_last_attempt := Some (ev_attempt v), eg_ignored := ignored \<rparr>) = (w1, e1, Inr ())"
    and w': "w' = apply_limits ?c e1 w1" "eg_book e' = eg_book e1"
    by (rule sync_ok [OF assms(1)])
  note b = commit_ok [OF com]
  note dist = members_of_names [OF assms(3,4)]
  obtain m where m: "m \<in> set (members_of ?c w)" "mb_name m = q_name ?q" "mb_used m = used ?q"
    using member_of_ref [OF assms(3,5,7)] by blast
  have mig: "bk_migrated b" and base: "bt_get (bk_baselines b) (q_name ?q) = Some (used ?q)"
    and ks: "keys (bk_balances b) = keys (bk_balances (eg_book e)) \<union> mb_name ` set (members_of ?c w)"
    by (rule reconcile_run [OF assms(2) dist, of packages "assignments_of ?c" "ev_now v"];
        use rec m in force)+
  obtain bal where bal: "bt_get (bk_balances b) (q_name ?q) = Some bal"
    using ks m keys_iff_get [of "q_name ?q" "bk_balances b"] by force
  have store: "wd_store w' ! r = give_limit b ?q"
    using w' b mig remote fold_on_quota [OF distinct_refs [OF assms(3)], of "wd_store w" "give_limit b" r] assms(3,5)
    by (auto simp: apply_limits_def users_wf_def)
  from give_limit_grants [OF assms(6) bal base] bal store give_limit_used w'(2) b(1) show ?thesis by auto
qed

section \<open>A small world\<close>

definition tiny_remote :: remote_config where
  "tiny_remote = \<lparr> rc_provider = Volcengine, rc_access_key = ''ak'', rc_secret_key = ''sk'', rc_regions = [''north''],
     rc_interval_secs = 600, rc_packages = [] \<rparr>"

definition tiny_config :: config where
  "tiny_config = \<lparr> cf_state_file = None, cf_api = None, cf_panel = None, cf_total_quota = None,
     cf_accounting = \<lparr> acc_mode = Remote, acc_metering = MeterMax, acc_remote = Some tiny_remote \<rparr>, cf_rules = [],
     cf_users = [\<lparr> uc_name = ''alice'', uc_quota = None, uc_packages = [], uc_rules = [] \<rparr>], cf_single_user = False \<rparr>"

definition tiny_store :: quota_store where
  "tiny_store = [example_quota ''alice'' 7]"

definition tiny_db :: state_db where
  "tiny_db = (let d = \<lparr> dk_usage = HourlyUsage [], dk_book = None, dk_entries = [] \<rparr>
     in \<lparr> sd_disk = d, sd_durable = d, sd_last_flushed = Map.empty \<rparr>)"

definition tiny_world :: world where
  "tiny_world = \<lparr> wd_db = Some tiny_db, wd_store = tiny_store, wd_users = user_set_new tiny_store [0],
     wd_limits = None, wd_live = \<lparr> lv_config = tiny_config, lv_revision = 0, lv_from_panel = False \<rparr> \<rparr>"

abbreviation tiny_engine :: engine where
  "tiny_engine \<equiv> engine_new tiny_world book_default []"

definition tiny_env :: "book \<Rightarrow> (billing_error + fetched) \<Rightarrow> env" where
  "tiny_env b answer = \<lparr> ev_driver = signed_driver b, ev_faults = no_faults, ev_fetch = (\<lambda>_. Some answer),
     ev_attempt = 5, ev_now = 5, ev_clock = 100 \<rparr>"

definition tiny_answer :: fetched where
  "tiny_answer = \<lparr> ft_packages = [example_package ''p'' ''north''], ft_ignored = [] \<rparr>"

lemma tiny_users: "users_wf tiny_store (user_set_new tiny_store [0])"
  by (rule user_set_new_wf) (simp_all add: tiny_store_def)

lemma tiny_members: "members_of tiny_config tiny_world = [\<lparr> mb_name = ''alice'', mb_used = 7, mb_offline_remaining = None \<rparr>]"
  by (simp add: members_of_def tiny_config_def tiny_world_def user_set_new_def us_get_def tiny_store_def
      map_filter_simps Let_def example_quota_def example_usage_def saved_default_def bill_def remaining_def limit_of_def)

lemma tiny_balance:
  "map_option (\<lambda>(b, es). bt_get (bk_balances b) ''alice'') (reconcile (ft_packages tiny_answer)
     [\<lparr> mb_name = ''alice'', mb_used = 7, mb_offline_remaining = None \<rparr>] (assignments_of tiny_config) 5 book_default) = Some (Some 40)"
  by code_simp

lemma tiny_sync:
  obtains b w' e' where "sync (tiny_env b (Inr tiny_answer)) tiny_world tiny_world tiny_engine = Some (w', e', Inr ())"
    "bk_migrated (eg_book e')" "bt_get (bk_balances (eg_book e')) ''alice'' = Some 40"
proof -
  let ?ms = "members_of tiny_config tiny_world"
  have "distinct (map mb_name ?ms)" by (simp add: tiny_members)
  then obtain b es where rec: "reconcile (ft_packages tiny_answer) ?ms (assignments_of tiny_config) 5 book_default = Some (b, es)"
    and mig: "bk_migrated b"
    by (rule reconcile_run [OF book_wf_default, of _ "ft_packages tiny_answer" "assignments_of tiny_config" 5]) blast
  let ?v = "tiny_env b (Inr tiny_answer)"
  let ?e = "tiny_engine\<lparr> eg_last_attempt := Some 5, eg_ignored := [] \<rparr>"
  obtain w1 e1 where com: "commit ?v b es tiny_world ?e = (w1, e1, Inr ())"
    by (simp add: commit_def tiny_world_def save_book_def tiny_env_def signed_driver_def)
  have book: "eg_book tiny_engine = book_default" by (simp add: engine_new_def)
  have eff: "list_ex effective (ft_packages tiny_answer)"
    by (simp add: tiny_answer_def example_package_def effective_def)
  have cfg: "world_config tiny_world = tiny_config" "active_remote (cf_accounting tiny_config) = Some tiny_remote"
    by (simp_all add: tiny_world_def tiny_config_def active_remote_def)
  have ign: "ft_ignored tiny_answer = []" by (simp add: tiny_answer_def)
  have v: "ev_fetch ?v tiny_remote = Some (Inr tiny_answer)" "ev_now ?v = 5" "ev_attempt ?v = 5" by (simp_all add: tiny_env_def)
  have "sync_with ?v tiny_config tiny_remote tiny_world tiny_world (tiny_engine\<lparr> eg_last_attempt := Some 5 \<rparr>)
      = Some (apply_limits tiny_config e1 w1, e1, Inr ())"
    using rec com eff by (simp add: sync_with_def book tiny_members Let_def ign v)
  then obtain w' e' where run: "sync ?v tiny_world tiny_world tiny_engine = Some (w', e', Inr ())" "eg_book e' = eg_book e1"
    by (simp add: sync_def cfg Let_def v)
  moreover have "bt_get (bk_balances b) ''alice'' = Some 40" using tiny_balance rec by (simp add: tiny_members)
  ultimately show thesis using commit_ok [OF com] mig that by auto
qed

theorem restart_reads_the_engine_witness:
  "\<exists>b w' s'. engine_run (signed_driver b) tiny_world (run_start 0 tiny_world tiny_engine) w' s'
     \<and> bk_migrated (eg_book (rs_engine s'))
     \<and> restore_book (signed_driver b) no_faults (wd_db w') = Inr (eg_book (rs_engine s'), eg_entries (rs_engine s'))"
proof -
  obtain b w' e' where s: "sync (tiny_env b (Inr tiny_answer)) tiny_world tiny_world tiny_engine = Some (w', e', Inr ())"
    and mig: "bk_migrated (eg_book e')"
    by (rule tiny_sync)
  let ?v = "tiny_env b (Inr tiny_answer)" and ?s = "run_start 0 tiny_world tiny_engine"
  let ?s' = "?s\<lparr> rs_engine := e', rs_next := next_sync (ev_clock ?v) w' (Inr ()) \<rparr>"
  have "engine_turn ?v Due tiny_world tiny_world ?s = Some (w', ?s', None, False)"
    using s by (simp add: engine_turn_def sync_turn_def run_start_def)
  then have run: "engine_run (signed_driver b) tiny_world ?s w' ?s'"
    by (rule engine_run.turned [OF engine_run.begun, rotated 2])
      (simp_all add: tiny_env_def same_ledger_def option.rel_refl)
  have db: "wd_db tiny_world = Some tiny_db" "dk_entries (sd_disk tiny_db) = map entry_to_row []"
    by (simp_all add: tiny_world_def tiny_db_def Let_def)
  have "restore_book (signed_driver b) no_faults (wd_db tiny_world) = Inr (book_default, [])"
    using recent_entries_last [OF db(2), of RECENT_ENTRIES]
    by (simp add: db(1) restore_book_def load_book_def tiny_db_def Let_def)
  note same = restart_reads_the_engine [OF signed_driver_ok db this run]
  show ?thesis by (rule exI [of _ b], rule exI [of _ w'], rule exI [of _ ?s']) (use same run mig in simp)
qed

theorem refused_operation_changes_nothing_witness:
  "\<exists>w' s'. engine_turn (tiny_env book_default (Inl TooManyPages)) (Received CmdSync) tiny_world tiny_world
       (run_start 0 tiny_world tiny_engine) = Some (w', s', Some (Inl (FetchFailed TooManyPages)), False)
     \<and> w' = tiny_world \<and> eg_book (rs_engine s') = book_default"
proof -
  have cfg: "world_config tiny_world = tiny_config" "active_remote (cf_accounting tiny_config) = Some tiny_remote"
    by (simp_all add: tiny_world_def tiny_config_def active_remote_def)
  let ?s = "run_start 0 tiny_world tiny_engine" and ?v = "tiny_env book_default (Inl TooManyPages)"
  obtain w' s' where "engine_turn ?v (Received CmdSync) tiny_world tiny_world ?s
      = Some (w', s', Some (Inl (FetchFailed TooManyPages)), False)"
    by (simp add: engine_turn_def sync_turn_def sync_def sync_with_def cfg tiny_members Let_def)
      (simp add: tiny_env_def)
  with refused_operation_changes_nothing [OF this] show ?thesis
    by (intro exI [of _ w'] exI [of _ s']) (simp add: run_start_def engine_new_def)
qed

theorem sync_grants_balances_witness:
  "\<exists>b w' e' left. sync (tiny_env b (Inr tiny_answer)) tiny_world tiny_world tiny_engine = Some (w', e', Inr ())
     \<and> remaining (wd_store w' ! 0) = Some left \<and> unat left = 40 \<and> \<not> is_exhausted (wd_store w' ! 0)"
proof -
  obtain b w' e' where s: "sync (tiny_env b (Inr tiny_answer)) tiny_world tiny_world tiny_engine = Some (w', e', Inr ())"
    and bal: "bt_get (bk_balances (eg_book e')) ''alice'' = Some 40"
    by (rule tiny_sync)
  have book: "book_wf (eg_book tiny_engine)" using book_wf_default by (simp add: engine_new_def)
  have q: "wd_store tiny_world ! 0 = example_quota ''alice'' 7" by (simp add: tiny_world_def tiny_store_def)
  have inv: "quota_inv (wd_store tiny_world ! 0)" unfolding q example_quota_def by (rule quota_inv_new) simp
  have users: "users_wf (wd_store tiny_world) (wd_users tiny_world)" using tiny_users by (simp add: tiny_world_def)
  have cfg: "distinct (map uc_name (cf_users (world_config tiny_world)))"
    "0 \<in> set (us_ordered (wd_users tiny_world))"
    "q_name (wd_store tiny_world ! 0) \<in> uc_name ` set (cf_users (world_config tiny_world))"
    unfolding q by (simp_all add: tiny_world_def tiny_config_def user_set_new_def)
  have used: "used (example_quota ''alice'' 7) = 7" by (simp add: example_quota_def example_usage_def saved_default_def bill_def)
  from sync_grants_balances [OF s book users cfg(1,2) inv cfg(3)]
  have "(\<exists>left. remaining (wd_store w' ! 0) = Some left \<and> unat left = 40) \<and> \<not> is_exhausted (wd_store w' ! 0)"
    unfolding q using bal used by simp
  with s show ?thesis by blast
qed

end
