(* ===== verification/World_Props.thy ===== *)
theory World_Props
  imports Control_Props Accounting_Props
begin

text \<open>
  What each part of the program does to what the others hold: a change of the configuration to pools, accounts and
  the database, a turn of the engine to the users, a start to everything.  Each of them also answers, whatever
  the provider and the files are like.
\<close>

section \<open>Pools through a change of the configuration\<close>

lemma start_rule_pools:
  assumes "start_rule p quota rt = Some rt1" "pr_spec p \<notin> fst ` set (rt_rules rt)"
  obtains rule pool where "rt_rules rt1 = rt_rules rt @ [(pr_spec p, rule)]" "rr_pool rule = length (rt_pool_store rt)"
    "rt_pool_store rt1 = rt_pool_store rt @ [pool]" "pool_inv pool"
  using assms by (auto simp: start_rule_def Let_def bind_eq_Some_conv update_fresh dest!: pool_new_inv)

lemma start_rules_pools:
  assumes "start_rules ps users rt = Some rt1" "distinct (map fst (rt_rules rt) @ map pr_spec ps)"
  shows "\<exists>new extra. rt_rules rt1 = rt_rules rt @ new \<and> rt_pool_store rt1 = rt_pool_store rt @ extra \<and> list_all pool_inv extra
    \<and> map (rr_pool \<circ> snd) new = [length (rt_pool_store rt)..<length (rt_pool_store rt) + length extra]"
  using assms
proof (induction ps arbitrary: rt)
  case (Cons p ps)
  obtain quota rt2 where one: "start_rule p quota rt = Some rt2" and rest: "start_rules ps users rt2 = Some rt1"
    using Cons.prems(1) by (auto simp: bind_eq_Some_conv)
  have "pr_spec p \<notin> fst ` set (rt_rules rt)" using Cons.prems(2) by auto
  from start_rule_pools [OF one this] obtain rule pool where rt2: "rt_rules rt2 = rt_rules rt @ [(pr_spec p, rule)]"
    "rr_pool rule = length (rt_pool_store rt)" "rt_pool_store rt2 = rt_pool_store rt @ [pool]" "pool_inv pool" by blast
  have "distinct (map fst (rt_rules rt2) @ map pr_spec ps)" using Cons.prems(2) rt2(1) by auto
  from Cons.IH [OF rest this] obtain new extra where "rt_rules rt1 = rt_rules rt2 @ new"
    "rt_pool_store rt1 = rt_pool_store rt2 @ extra" "list_all pool_inv extra"
    "map (rr_pool \<circ> snd) new = [length (rt_pool_store rt2)..<length (rt_pool_store rt2) + length extra]" by blast
  with rt2 show ?case
    by (intro exI [of _ "(pr_spec p, rule) # new"] exI [of _ "pool # extra"]) (simp add: upt_conv_Cons comp_def del: upt_Suc)
qed simp

lemma apply_config_pools:
  assumes "runtime_inv w rt" "good_config c" "apply_config v c w rt = Some (w', rt', Inr ())"
  obtains extra where "rt_pool_store rt' = rt_pool_store rt @ extra" "list_all pool_inv extra"
    "map (rr_pool \<circ> snd) (filter (\<lambda>(_, rule). length (rt_pool_store rt) \<le> rr_pool rule) (rt_rules rt'))
       = [length (rt_pool_store rt)..<length (rt_pool_store rt) + length extra]"
proof -
  let ?n = "length (rt_pool_store rt)"
  obtain tcp udp added usage where prep: "prepare_rules v (fst ` set (rt_rules rt)) (specs_of c) tcp udp = Inr added"
    and com: "commit_apply v c added usage w rt = Some (w', rt')"
    by (rule apply_config_ok [OF assms(3)])
  let ?kept = "rt\<lparr> rt_rules := filter (\<lambda>(spec, _). spec \<in> set (specs_of c)) (rt_rules rt) \<rparr>"
  obtain users rt1 where rt1: "start_rules added users ?kept = Some rt1"
    "rt_rules rt' = rt_rules rt1" "rt_pool_store rt' = rt_pool_store rt1"
    using com by (auto simp: commit_apply_def Let_def bind_eq_Some_conv)
  have "map pr_spec added = filter (\<lambda>s. s \<notin> fst ` set (rt_rules rt)) (specs_of c)"
    using prepare_rules_specs [OF prep] by simp
  moreover have "distinct (map pr_spec added)" using calculation distinct_specs [OF assms(2)] by simp
  moreover have "set (map pr_spec added) \<inter> fst ` set (rt_rules rt) = {}" using calculation(1) by auto
  moreover have "set (map fst (rt_rules ?kept)) \<subseteq> fst ` set (rt_rules rt)" "distinct (map fst (rt_rules ?kept))"
    using assms(1) by (auto simp: runtime_inv_def distinct_map_filter)
  ultimately have "distinct (map fst (rt_rules ?kept) @ map pr_spec added)"
    unfolding distinct_append by blast
  from start_rules_pools [OF rt1(1) this] obtain new extra where new: "rt_rules rt1 = rt_rules ?kept @ new"
    "rt_pool_store rt1 = rt_pool_store rt @ extra" "list_all pool_inv extra"
    "map (rr_pool \<circ> snd) new = [?n..<?n + length extra]" by auto
  have "rr_pool rule < ?n" if "(spec, rule) \<in> set (rt_rules ?kept)" for spec rule
    using that assms(1) by (auto simp: runtime_inv_def Runtime_Props.rule_ok_def)
  then have "filter (\<lambda>(_, rule). ?n \<le> rr_pool rule) (rt_rules ?kept) = []" by (fastforce simp: filter_empty_conv)
  moreover have "\<forall>x\<in>set new. ?n \<le> rr_pool (snd x)"
  proof
    fix x assume "x \<in> set new"
    then have "(rr_pool \<circ> snd) x \<in> set (map (rr_pool \<circ> snd) new)" by simp
    then show "?n \<le> rr_pool (snd x)" unfolding new(4) by simp
  qed
  then have "filter (\<lambda>(_, rule). ?n \<le> rr_pool rule) new = new" by (auto simp: filter_id_conv)
  ultimately show thesis using new rt1 that by simp
qed

section \<open>Accounts and the database through a change\<close>

lemma apply_config_accounts:
  assumes "runtime_inv w rt" "good_config c" "apply_config v c w rt = Some (w', rt', Inr ())"
  shows "length (wd_store w) \<le> length (wd_store w')
    \<and> (\<forall>r<length (wd_store w). snapshot (wd_store w' ! r) = snapshot (wd_store w ! r))"
proof -
  have wf: "users_wf (wd_store w) (wd_users w)" using assms(1) by (simp add: runtime_inv_def)
  have dist: "distinct (map uc_name (cf_users c))" using assms(2) by (simp add: good_config_def)
  obtain tcp udp added usage where prep: "prepare_rules v (fst ` set (rt_rules rt)) (specs_of c) tcp udp = Inr added"
    and com: "commit_apply v c added usage w rt = Some (w', rt')"
    by (rule apply_config_ok [OF assms(3)])
  from commit_apply_run [OF assms(1,2) prep, of usage] com obtain st rs where
    "next_users v c (remote_snapshot c w) usage (wd_users w) (cf_users c) (wd_store w) = Some (st, rs)" "wd_store w' = st"
    by auto
  with next_users_run [OF wf dist, of c v "remote_snapshot c w" usage] resolve_quotas_total show ?thesis by auto
qed

definition db_ok :: "driver \<Rightarrow> world \<Rightarrow> bool" where
  "db_ok dr w \<longleftrightarrow> (\<forall>db. wd_db w = Some db \<longrightarrow> db_inv dr db)"

lemma users_distinct: "users_wf st us \<Longrightarrow> distinct (map q_name (map ((!) st) (filter P (us_ordered us))))"
  by (simp add: users_wf_def names_of_def comp_def distinct_map_filter)

lemma flush_gone_keeps:
  assumes "driver_ok (ae_driver v)" "users_wf (wd_store w) (wd_users w)" "db_ok (ae_driver v) w"
  shows "db_ok (ae_driver v) (flush_gone v users w) \<and> same_ledger w (flush_gone v users w)"
proof (cases "wd_db w")
  case None
  then show ?thesis by (simp add: flush_gone_def Let_def db_ok_def same_ledger_def)
next
  case (Some db)
  let ?qs = "map ((!) (wd_store w)) (filter (\<lambda>r. us_get users (q_name (wd_store w ! r)) = None) (us_ordered (wd_users w)))"
  obtain db' r where f: "flush (ae_driver v) (ae_flush_faults v) ?qs db = (db', r)" by fastforce
  have "db_inv (ae_driver v) db" using assms(3) Some by (simp add: db_ok_def)
  from flush_cases [OF assms(1) this users_distinct [OF assms(2)] f] Some f assms(3) show ?thesis
    by (auto simp: flush_gone_def Let_def db_ok_def same_ledger_def)
qed

lemma apply_config_db:
  assumes "runtime_inv w rt" "good_config c" "apply_config v c w rt = Some (w', rt', Inr ())"
    "driver_ok (ae_driver v)" "db_ok (ae_driver v) w"
  shows "db_ok (ae_driver v) w' \<and> same_ledger w w'"
proof (rule apply_config_users [OF assms(1-3)])
  fix st rs usage
  assume st: "wd_store w' = st" "wd_users w' = user_set_new st rs"
    "wd_db w' = wd_db (flush_gone v (user_set_new st rs) (w\<lparr> wd_store := st \<rparr>))" "users_wf st (wd_users w)"
  have "db_ok (ae_driver v) (w\<lparr> wd_store := st \<rparr>)" using assms(5) by (simp add: db_ok_def)
  with flush_gone_keeps [OF assms(4), of "w\<lparr> wd_store := st \<rparr>" "user_set_new st rs"] st(4)
  have "db_ok (ae_driver v) (flush_gone v (user_set_new st rs) (w\<lparr> wd_store := st \<rparr>))"
    "same_ledger w (flush_gone v (user_set_new st rs) (w\<lparr> wd_store := st \<rparr>))"
    by (simp_all add: same_ledger_def)
  then show ?thesis unfolding db_ok_def same_ledger_def st(3) by blast
qed

section \<open>What a turn of the main loop does\<close>

lemma apply_to_ok:
  assumes "apply_to v c s = Some (s1, Inr ())"
  shows "\<exists>w rt. apply_config (ce_apply v) c (ct_world s) (ct_runtime s) = Some (w, rt, Inr ())
    \<and> ct_world s1 = w \<and> ct_runtime s1 = rt"
  using assms by (auto simp: apply_to_def bind_eq_Some_conv)

definition switched_to :: "apply_env \<Rightarrow> control \<Rightarrow> control \<Rightarrow> bool" where
  "switched_to v s s' \<longleftrightarrow> (\<exists>c w. good_config c \<and> apply_config v c (ct_world s) (ct_runtime s) = Some (w, ct_runtime s', Inr ())
     \<and> ct_world s' = w\<lparr> wd_live := wd_live (ct_world s') \<rparr>)"

lemma switched_toI:
  assumes "good_config c" "apply_to v c s = Some (s1, Inr ())" "ct_runtime s' = ct_runtime s1"
    "ct_world s' = (ct_world s1)\<lparr> wd_live := wd_live (ct_world s') \<rparr>" "ct_world s0 = ct_world s" "ct_runtime s0 = ct_runtime s"
  shows "switched_to (ce_apply v) s0 s'"
  using apply_to_ok [OF assms(2)] assms unfolding switched_to_def by (intro exI [of _ c] exI [of _ "ct_world s1"]) auto

lemma save_applies:
  assumes "control_inv s" "save v edit s = Some (s', r)"
  shows "unchanged s s' \<or> switched_to (ce_apply v) s s'"
proof -
  let ?cur = "world_config (ct_world s)"
  let ?st = "edited_store (ct_file_raw s) edit ?cur"
  have inv: "runtime_inv (ct_world s) (ct_runtime s)" using assms(1) by (simp add: control_inv_def Let_def)
  show ?thesis
  proof (cases "ce_revision edit = lv_revision (wd_live (ct_world s))")
    case False
    with assms(2) show ?thesis by (simp add: save_def Let_def unchanged_def)
  next
    case rev: True
    show ?thesis
    proof (cases "check_config (stored_config ?cur ?st)")
      case (Inl e)
      with assms(2) rev show ?thesis by (simp add: save_def Let_def unchanged_def)
    next
      case (Inr c)
      then have good: "good_config c" using finalize_good unfolding check_config_def by blast
      obtain f r' where w: "write_store v ?st (ct_files s) = (f, r')" by fastforce
      show ?thesis
      proof (cases r')
        case (Inl e)
        with assms(2) rev Inr w show ?thesis by (auto simp: save_def Let_def unchanged_def)
      next
        case ok: (Inr u)
        have "runtime_inv (ct_world (s\<lparr> ct_files := f \<rparr>)) (ct_runtime (s\<lparr> ct_files := f \<rparr>))" using inv by simp
        from this good show ?thesis
        proof (cases rule: apply_to_cases [where v = v])
          case (refused e)
          with assms(2) rev Inr w ok show ?thesis by (auto simp: save_def Let_def unchanged_def)
        next
          case (applied wd rt)
          then have "ct_runtime s' = rt" "ct_world s' = wd\<lparr> wd_live := wd_live (ct_world s') \<rparr>"
            using assms(2) rev Inr w ok by (auto simp: save_def Let_def publish_def)
          then have "switched_to (ce_apply v) s s'" using switched_toI [OF good applied(1), of s' s] by simp
          then show ?thesis ..
        qed
      qed
    qed
  qed
qed

lemma reload_applies:
  assumes "control_inv s" "control_turn v (FileChanged raw) s = Some (s', r)"
  shows "unchanged s s' \<or> switched_to (ce_apply v) s s'"
proof (cases "parse_config (ce_yaml v) (ce_json5 v) raw (ct_path s)")
  case (Inl e)
  with assms(2) show ?thesis by (auto simp: control_turn_def reload_def unchanged_def)
next
  case (Inr c)
  let ?s = "s\<lparr> ct_file_raw := raw \<rparr>"
  have good: "good_config c" using parse_good [OF Inr] by blast
  have "runtime_inv (ct_world ?s) (ct_runtime ?s)" using assms(1) by (simp add: control_inv_def Let_def)
  from this good show ?thesis
  proof (cases rule: apply_to_cases [where v = v])
    case (refused e)
    with assms(2) Inr show ?thesis by (auto simp: control_turn_def reload_def unchanged_def)
  next
    case (applied w rt)
    then have "ct_runtime s' = rt" "ct_world s' = w\<lparr> wd_live := wd_live (ct_world s') \<rparr>"
      using assms(2) Inr by (auto simp: control_turn_def reload_def Let_def publish_def)
    then have "switched_to (ce_apply v) s s'" using switched_toI [OF good applied(1), of s' s] by simp
    then show ?thesis ..
  qed
qed

lemma control_turn_applies:
  assumes "control_inv s" "control_turn v ev s = Some (s', r)"
  shows "unchanged s s' \<or> switched_to (ce_apply v) s s'"
proof (cases ev)
  case (FileChanged raw)
  with reload_applies [OF assms(1)] assms(2) show ?thesis by blast
next
  case (SaveRequested edit)
  with assms(2) save_applies [OF assms(1), of v edit s'] show ?thesis
    by (auto simp: control_turn_def unchanged_def bind_eq_Some_conv split: if_splits)
qed

section \<open>What a turn of the engine does\<close>

lemma counted_snapshot: "counted q = unat (sv_upload (snapshot q)) + unat (sv_download (snapshot q))"
  by (simp add: counted_def snapshot_def)

lemma give_limit_keeps: "q_name (give_limit b q) = q_name q" "snapshot (give_limit b q) = snapshot q"
  by (simp_all add: give_limit_def Let_def)

text \<open>Accounts of the same name and counters.\<close>

definition keeps_accounts :: "quota_store \<Rightarrow> quota_store \<Rightarrow> bool" where
  "keeps_accounts st st' \<longleftrightarrow> map q_name st' = map q_name st \<and> map snapshot st' = map snapshot st"

lemma keeps_accounts_refl [simp]: "keeps_accounts st st"
  by (simp add: keeps_accounts_def)

lemma keeps_accounts_nth:
  "keeps_accounts st st' \<Longrightarrow> length st' = length st \<and> (\<forall>r<length st. q_name (st' ! r) = q_name (st ! r) \<and> snapshot (st' ! r) = snapshot (st ! r))"
  using map_eq_nth [of q_name st' st] map_eq_nth [of snapshot st' st] by (simp add: keeps_accounts_def)

lemma keeps_accounts_on_quota:
  assumes "q_name (f (st ! r)) = q_name (st ! r)" "snapshot (f (st ! r)) = snapshot (st ! r)"
  shows "keeps_accounts st (on_quota r f st)"
proof (cases "r < length st")
  case True
  then show ?thesis
    using list_update_id [of "map q_name st" r] list_update_id [of "map snapshot st" r]
    by (simp add: keeps_accounts_def on_quota_def map_update assms)
qed (simp add: keeps_accounts_def on_quota_def list_update_beyond)

lemma apply_limits_accounts: "keeps_accounts (wd_store w) (wd_store (apply_limits c e w))"
proof -
  have "keeps_accounts st (fold (\<lambda>r st. on_quota r (give_limit b) st) rs st)" for b rs st
  proof (induction rs arbitrary: st)
    case (Cons r rs)
    have "keeps_accounts st (on_quota r (give_limit b) st)" by (rule keeps_accounts_on_quota) (simp_all add: give_limit_keeps)
    with Cons.IH [of "on_quota r (give_limit b) st"] show ?case by (simp add: keeps_accounts_def)
  qed simp
  then show ?thesis by (simp add: apply_limits_def Let_def)
qed

lemma engine_turn_world:
  assumes "engine_turn v ev w0 w s = Some (w', s', reply, stop)" "db_ok dr w"
  shows "wd_users w' = wd_users w \<and> wd_live w' = wd_live w \<and> keeps_accounts (wd_store w) (wd_store w') \<and> db_ok dr w'"
  using assms(1)
proof (cases rule: engine_turn_cases)
  case idle
  with assms(2) show ?thesis by (simp add: untouched_def)
next
  case (commits b es)
  then obtain w1 e0 e1 c where c: "commit v b es w e0 = (w1, e1, Inr ())" "w' = apply_limits c e1 w1"
    by (auto simp: committed_def)
  have "wd_users w1 = wd_users w \<and> wd_live w1 = wd_live w \<and> wd_store w1 = wd_store w \<and> db_ok dr w1"
    using c(1) assms(2) by (elim commit_cases) (auto simp: db_ok_def split: option.splits dest: save_book_db_inv)
  with c(2) apply_limits_accounts [of w1 c e1] show ?thesis by (simp add: db_ok_def)
next
  case (relimits c e1)
  with assms(2) apply_limits_accounts [of w c e1] show ?thesis by (simp add: db_ok_def)
qed

section \<open>Every turn answers\<close>

lemma committed_book: "committed v b es w e w' e' \<Longrightarrow> eg_book e' = b"
  by (auto simp: committed_def elim!: commit_cases)

lemma settle_runs:
  assumes "outcome = Some (b, r)" "book_inv b" "book_inv (eg_book e)"
  shows "\<exists>w' e' r'. settle_command v outcome w e = Some (w', e', r') \<and> book_inv (eg_book e')"
proof -
  have "settle_command v outcome w e \<noteq> None"
    using assms(1) by (auto simp: settle_command_def Let_def split: sum.split prod.split)
  then obtain w' e' r' where run: "settle_command v outcome w e = Some (w', e', r')" by auto
  from settle_cases [OF run] assms have "book_inv (eg_book e')"
    by (auto simp: untouched_def dest: committed_book)
  with run show ?thesis by blast
qed

lemma sync_with_runs:
  assumes "book_inv (eg_book e)" "\<forall>remote. ev_fetch v remote \<noteq> None" "distinct (map mb_name (members_of c w))"
  shows "\<exists>w' e' r. sync_with v c remote w0 w e = Some (w', e', r) \<and> book_inv (eg_book e')"
proof -
  have wf: "book_wf (eg_book e)" using assms(1) by (simp add: book_inv_def)
  obtain answer where a: "ev_fetch v remote = Some answer" using assms(2) by blast
  have total: "\<exists>b es. reconcile packages (members_of c w) (assignments_of c) (ev_now v) (eg_book e) = Some (b, es)" for packages
    by (rule reconcile_run [OF wf assms(3)]) blast
  have "sync_with v c remote w0 w e \<noteq> None"
  proof (cases answer)
    case (Inr fetched)
    with a total [of "ft_packages fetched"] show ?thesis
      by (auto simp: sync_with_def Let_def split: prod.split sum.split)
  qed (use a in \<open>auto simp: sync_with_def\<close>)
  then obtain w' e' r where run: "sync_with v c remote w0 w e = Some (w', e', r)" by auto
  from sync_with_cases [OF run] have "book_inv (eg_book e')"
    using assms(1) book_step_sync(1) [OF assms(1) _ assms(3)] by (auto simp: untouched_def dest: committed_book)
  with run show ?thesis by blast
qed

lemma sync_turn_runs:
  assumes "book_inv (eg_book (rs_engine s))" "\<forall>remote. ev_fetch v remote \<noteq> None"
    "distinct (map mb_name (members_of (world_config w0) w))"
  shows "\<exists>w' s' r. sync_turn v w0 w s = Some (w', s', r) \<and> book_inv (eg_book (rs_engine s'))"
proof -
  let ?e = "(rs_engine s)\<lparr> eg_last_attempt := Some (ev_attempt v) \<rparr>"
  have "\<exists>w' e' r. sync v w0 w (rs_engine s) = Some (w', e', r) \<and> book_inv (eg_book e')"
  proof (cases "active_remote (cf_accounting (world_config w0))")
    case None
    with assms(1) show ?thesis by (simp add: sync_def Let_def)
  next
    case (Some remote)
    have "book_inv (eg_book ?e)" using assms(1) by simp
    from sync_with_runs [OF this assms(2,3), of remote w0] Some show ?thesis by (auto simp: sync_def Let_def)
  qed
  then show ?thesis by (auto simp: sync_turn_def)
qed

lemma engine_turn_runs:
  assumes "book_inv (eg_book (rs_engine s))" "\<forall>remote. ev_fetch v remote \<noteq> None"
    "distinct (map mb_name (members_of (world_config w0) w))"
  shows "\<exists>w' s' reply stop. engine_turn v ev w0 w s = Some (w', s', reply, stop) \<and> book_inv (eg_book (rs_engine s'))"
proof -
  note sync = sync_turn_runs [OF assms]
  have wf: "book_wf (eg_book (rs_engine s))" using assms(1) by (simp add: book_inv_def)
  have transfer: "\<exists>w' e r. engine_transfer v source target amt w (rs_engine s) = Some (w', e, r) \<and> book_inv (eg_book e)"
    for source target amt
  proof -
    obtain b r where o: "book_transfer (members_of (world_config w) w) source target amt (ev_now v) (eg_book (rs_engine s)) = Some (b, r)"
      using book_transfer_total [OF wf] by fast
    from settle_runs [OF o book_step_transfer(1) [OF assms(1) o] assms(1)] show ?thesis by (simp add: engine_transfer_def)
  qed
  have allocate: "\<exists>w' e r. engine_allocate v target amt w (rs_engine s) = Some (w', e, r) \<and> book_inv (eg_book e)" for target amt
  proof -
    obtain b r where o: "book_allocate (members_of (world_config w) w) target amt (ev_now v) (eg_book (rs_engine s)) = Some (b, r)"
      using book_allocate_total [OF wf] by fast
    from settle_runs [OF o book_step_allocate(1) [OF assms(1) o] assms(1)] show ?thesis by (simp add: engine_allocate_def)
  qed
  show ?thesis
  proof (cases ev)
    case Due
    with sync show ?thesis by (auto simp: engine_turn_def)
  next
    case LiveChanged
    with assms(1) show ?thesis by (auto simp: engine_turn_def live_turn_def Let_def intro!: exI [of _ False])
  next
    case (Received cmd)
    show ?thesis
    proof (cases cmd)
      case CmdSync
      with Received sync show ?thesis by (auto simp: engine_turn_def)
    next
      case (CmdTransfer source target amt)
      with Received transfer [of source target amt] show ?thesis by (auto simp: engine_turn_def)
    next
      case (CmdAllocate target amt)
      with Received allocate [of target amt] show ?thesis by (auto simp: engine_turn_def)
    qed
  qed (use assms(1) in \<open>auto simp: engine_turn_def\<close>)
qed

lemma apply_to_total: "control_inv s \<Longrightarrow> good_config c \<Longrightarrow> \<exists>s' r. apply_to v c s = Some (s', r)"
  by (rule apply_to_cases [of s c v]) (auto simp: control_inv_def Let_def)

lemma control_turn_runs:
  assumes "control_inv s"
  shows "\<exists>s' r. control_turn v ev s = Some (s', r)"
proof (cases ev)
  case (FileChanged raw)
  have inv: "control_inv (s\<lparr> ct_file_raw := raw \<rparr>)" using control_inv_unchanged [OF assms] by (simp add: unchanged_def)
  show ?thesis
  proof (cases "parse_config (ce_yaml v) (ce_json5 v) raw (ct_path s)")
    case (Inl e)
    with FileChanged show ?thesis by (simp add: control_turn_def reload_def)
  next
    case (Inr c)
    with apply_to_total [OF inv, of c v] parse_good [OF Inr] FileChanged show ?thesis
      by (auto simp: control_turn_def reload_def)
  qed
next
  case (SaveRequested edit)
  have "\<exists>s' r. save v edit s = Some (s', r)"
    using assms by (rule save_cases [where edit = edit and v = v]) (auto simp: Let_def)
  with SaveRequested show ?thesis by (auto simp: control_turn_def)
qed

section \<open>Starting\<close>

lemma take_socket_succeeds: "\<exists>x. take_socket wants spare (Inr s) = Inr x"
  by (simp add: take_socket_def split: option.split)

lemma prepare_rules_succeeds:
  assumes "\<forall>addr. \<exists>s. ae_bind_tcp v addr = Inr s" "\<forall>addr. \<exists>s. ae_bind_udp v addr = Inr s"
  shows "\<exists>ps. prepare_rules v known specs tcp udp = Inr ps"
proof (induction specs arbitrary: tcp udp)
  case (Cons spec specs)
  let ?addr = "sp_listen spec"
  obtain s t where "ae_bind_tcp v ?addr = Inr s" "ae_bind_udp v ?addr = Inr t" using assms by blast
  then obtain x y where "take_socket (proto_tcp (sp_protocol spec)) (tcp ?addr) (ae_bind_tcp v ?addr) = Inr x"
    "take_socket (proto_udp (sp_protocol spec)) (udp ?addr) (ae_bind_udp v ?addr) = Inr y"
    using take_socket_succeeds by metis
  moreover obtain ps where "prepare_rules v known specs (tcp(?addr := None)) (udp(?addr := None)) = Inr ps" using Cons.IH by blast
  ultimately show ?case using Cons.IH [of tcp udp] by (cases "spec \<in> known") (simp_all add: Let_def)
qed simp

lemma load_saved_succeeds:
  "ae_load_faults v = no_faults \<Longrightarrow> db_ok (ae_driver v) w \<Longrightarrow> \<exists>usage. load_saved v c w = Inr usage"
  by (auto simp: load_saved_def db_ok_def load_view split: option.split)

lemma apply_config_succeeds:
  assumes "runtime_inv w rt" "good_config c" "ae_load_faults v = no_faults" "db_ok (ae_driver v) w"
    "\<forall>addr. \<exists>s. ae_bind_tcp v addr = Inr s" "\<forall>addr. \<exists>s. ae_bind_udp v addr = Inr s"
  shows "\<exists>w' rt'. apply_config v c w rt = Some (w', rt', Inr ())"
proof -
  obtain tcp udp where sp: "spare_sockets (removed_rules (specs_of c) rt) Map.empty Map.empty = (tcp, udp)" by fastforce
  obtain ps where prep: "prepare_rules v (fst ` set (rt_rules rt)) (specs_of c) tcp udp = Inr ps"
    using prepare_rules_succeeds [OF assms(5,6)] by blast
  obtain usage where ld: "load_saved v c w = Inr usage" using load_saved_succeeds [OF assms(3,4)] by blast
  from commit_apply_run [OF assms(1,2) prep, of usage] sp prep ld show ?thesis
    by (auto simp: apply_config_def Let_def)
qed

lemma boot_config:
  assumes "boot b path raw = Some (Inr (s, rs))"
    "parse_config (ce_yaml (be_control b)) (ce_json5 (be_control b)) raw path = Inr c" "config_panel c = None"
  shows "world_config (ct_world s) = c"
  by (rule boot_cases [OF assms(1)]) (use assms(2,3) in auto)

lemma boot_succeeds:
  assumes "parse_config (ce_yaml (be_control b)) (ce_json5 (be_control b)) raw path = Inr cfg"
    "open_state b cfg = Inr db" "restore_book (ae_driver (ce_apply (be_control b))) (be_faults b) db = Inr (bk, es)"
    "ae_load_faults (ce_apply (be_control b)) = no_faults" "\<forall>d. db = Some d \<longrightarrow> db_inv (ae_driver (ce_apply (be_control b))) d"
    "\<forall>addr. be_bind b addr = None" "\<forall>addr. \<exists>s. ae_bind_tcp (ce_apply (be_control b)) addr = Inr s"
    "\<forall>addr. \<exists>s. ae_bind_udp (ce_apply (be_control b)) addr = Inr s"
  shows "\<exists>s rs. boot b path raw = Some (Inr (s, rs))"
proof -
  let ?v = "be_control b"
  obtain f stored where st: "(if map_option pn_path (config_panel cfg) = None then (be_files b, None) else restore ?v cfg raw (be_files b)) = (f, stored)"
    by fastforce
  let ?e = "case stored of None \<Rightarrow> cfg | Some e \<Rightarrow> e"
  let ?l = "\<lparr> lv_config = ?e, lv_revision = 0, lv_from_panel = (stored \<noteq> None) \<rparr>"
  have good: "good_config ?e"
    using parse_good [OF assms(1)] st restore_good [of ?v cfg raw "be_files b" f] by (auto split: option.splits if_splits)
  have "db_ok (ae_driver (ce_apply ?v)) (boot_world db bk ?l)" using assms(5) by (simp add: db_ok_def boot_world_def)
  from apply_config_succeeds [OF boot_world_inv good assms(4) this assms(7,8)] obtain w rt where
    "apply_config (ce_apply ?v) ?e (boot_world db bk ?l) runtime_new = Some (w, rt, Inr ())" by blast
  moreover have "bind_api b cfg = Inr ()" "bind_panel b cfg = Inr ()"
    using assms(6) by (simp_all add: bind_api_def bind_panel_def split: option.split)
  ultimately show ?thesis using assms(1-3) st by (auto simp: boot_def boot_world_def Let_def)
qed

text \<open>A database file that can be read: its rows, after an upgrade if it is an old one, its entries and its book.\<close>

definition disk_ok :: "driver \<Rightarrow> disk \<Rightarrow> bool" where
  "disk_ok dr d \<longleftrightarrow> (\<exists>rows. add_columns (create_usage (dk_usage d)) = HourlyUsage rows \<and> rows_ok dr rows)
     \<and> (\<exists>es. dk_entries d = map entry_to_row es)
     \<and> (\<forall>raw b. dk_book d = Some raw \<longrightarrow> dr_decode dr raw = Some b \<longrightarrow> book_inv b)"

lemma open_db_ok:
  assumes "open_db fail d = (d', Inr db)" "disk_ok dr d"
  shows "db_inv dr db \<and> dk_entries (sd_disk db) = dk_entries d \<and> dk_book (sd_disk db) = dk_book d"
  using assms
  by (auto simp: open_db_def migrate_usage_def disk_ok_def db_inv_def has_settled_def create_usage_def add_columns_def Let_def
      split: sum.splits if_splits usage_table.splits)

lemma open_state_ok:
  assumes "open_state b c = Inr (Some db)" "disk_ok dr (be_disk b)"
  shows "db_inv dr db \<and> (\<exists>es. dk_entries (sd_disk db) = map entry_to_row es)
    \<and> (\<forall>raw bk. dk_book (sd_disk db) = Some raw \<longrightarrow> dr_decode dr raw = Some bk \<longrightarrow> book_inv bk)"
proof -
  obtain d' where "open_db (be_faults b) (be_disk b) = (d', Inr db)"
    using assms(1) by (cases "open_db (be_faults b) (be_disk b)") (auto simp: open_state_def split: option.splits if_splits sum.splits)
  from open_db_ok [OF this assms(2)] assms(2) show ?thesis by (auto simp: disk_ok_def)
qed

lemma restore_book_any: "restore_book dr fail db = Inr x \<Longrightarrow> restore_book dr no_faults db = Inr x"
  by (auto simp: restore_book_def load_book_def recent_entries_def split: option.splits sum.splits)

lemma restore_book_inv:
  assumes "restore_book dr fail db = Inr (bk, es)"
    "\<forall>d raw b. db = Some d \<longrightarrow> dk_book (sd_disk d) = Some raw \<longrightarrow> dr_decode dr raw = Some b \<longrightarrow> book_inv b"
  shows "book_inv bk"
  using assms by (auto simp: restore_book_def load_book_def split: option.splits sum.splits)

lemma engine_new_book [simp]: "eg_book (engine_new w bk es) = bk" "eg_entries (engine_new w bk es) = es"
  by (simp_all add: engine_new_def)

text \<open>The state that a successful \<open>boot\<close> leaves.\<close>

lemma boot_keeps:
  assumes "boot b path raw = Some (Inr (c, rs))" "driver_ok dr" "disk_ok dr (be_disk b)" "ae_driver (ce_apply (be_control b)) = dr"
  shows "db_ok dr (ct_world c) \<and> Accounting.saved dr (ct_world c) (rs_engine rs) \<and> book_inv (eg_book (rs_engine rs))"
proof (rule boot_cases [OF assms(1)])
  fix cfg db bk es
  let ?w0 = "boot_world db bk (wd_live (ct_world c))" and ?c = "world_config (ct_world c)"
  assume db: "open_state b cfg = Inr db" and bk: "restore_book (ae_driver (ce_apply (be_control b))) (be_faults b) db = Inr (bk, es)"
    and run: "apply_config (ce_apply (be_control b)) ?c ?w0 runtime_new = Some (ct_world c, ct_runtime c, Inr ())"
    and good: "good_config ?c" and rs: "rs = run_start (be_clock b) (ct_world c) (engine_new (ct_world c) bk es)"
  have open0: "db_inv dr d" "\<exists>es. dk_entries (sd_disk d) = map entry_to_row es"
    "\<forall>raw b. dk_book (sd_disk d) = Some raw \<longrightarrow> dr_decode dr raw = Some b \<longrightarrow> book_inv b" if "db = Some d" for d
    using open_state_ok [of b cfg d dr] db assms(3) that by auto
  have w0: "db_ok dr ?w0" using open0(1) by (simp add: db_ok_def boot_world_def)
  have keep: "db_ok dr (ct_world c)" "same_ledger ?w0 (ct_world c)"
    using apply_config_db [OF boot_world_inv good run] assms(2,4) w0 by auto
  have "Accounting.saved dr ?w0 (engine_new (ct_world c) bk es)"
  proof (cases db)
    case None
    then show ?thesis by (simp add: Accounting.saved_def boot_world_def)
  next
    case (Some d)
    obtain old where "dk_entries (sd_disk d) = map entry_to_row old" using open0(2) [OF Some] by blast
    with restored_saved [of dr d bk es old ?w0] restore_book_any [OF bk] Some assms(4)
    have "Accounting.saved dr ?w0 (engine_new ?w0 bk es)" by (simp add: boot_world_def)
    then show ?thesis using saved_frame [of ?w0 ?w0 "engine_new (ct_world c) bk es" "engine_new ?w0 bk es" dr] by simp
  qed
  then have "Accounting.saved dr (ct_world c) (rs_engine rs)"
    using saved_same_ledger [OF keep(2)] by (simp add: rs run_start_def)
  moreover have "book_inv bk" using restore_book_inv [OF bk] open0(3) assms(4) by blast
  ultimately show ?thesis using keep(1) by (simp add: rs run_start_def)
qed

lemma boot_pools:
  assumes "boot b path raw = Some (Inr (c, rs))"
  shows "\<exists>extra. rt_pool_store (ct_runtime c) = extra \<and> list_all pool_inv extra
    \<and> map (rr_pool \<circ> snd) (rt_rules (ct_runtime c)) = [0..<length extra]"
proof (rule boot_cases [OF assms])
  fix db bk
  assume run: "apply_config (ce_apply (be_control b)) (world_config (ct_world c)) (boot_world db bk (wd_live (ct_world c))) runtime_new
      = Some (ct_world c, ct_runtime c, Inr ())" and good: "good_config (world_config (ct_world c))"
  from apply_config_pools [OF boot_world_inv good run] show ?thesis by (auto simp: runtime_new_def)
qed

definition saved_total :: "direction \<Rightarrow> saved_usage \<Rightarrow> u64" where
  "saved_total d s = (case d of Upload \<Rightarrow> sv_upload s | Download \<Rightarrow> sv_download s)"

lemma total_snapshot: "total_of d q = saved_total d (snapshot q)"
  by (cases d) (simp_all add: total_of_def saved_total_def snapshot_def)

lemma total_new: "saved_total d (snapshot (new_metered_at nm l s m h)) = saved_total d s"
  by (cases d) (simp_all add: saved_total_def snapshot_def new_metered_at_def Let_def)

text \<open>A user that the database knows starts with the totals and the bill that it holds.\<close>

lemma booted_user:
  assumes "apply_config v c (boot_world (Some db) bk l) runtime_new = Some (w, rt, Inr ())" "good_config c"
    "ae_load_faults v = no_faults" "db_inv (ae_driver v) db" "nm \<in> uc_name ` set (cf_users c)"
    "usage_of (ae_driver v) db nm = Some s"
  shows "\<exists>r. us_get (wd_users w) nm = Some r \<and> metering_of (wd_store w ! r) = acc_metering (cf_accounting c)
    \<and> (\<forall>d. total_of d (wd_store w ! r) = saved_total d s)
    \<and> used (wd_store w ! r) = sv_settled s + bill (acc_metering (cf_accounting c)) (sv_hour_upload s) (sv_hour_download s)"
proof (rule apply_config_users [OF boot_world_inv assms(2,1)])
  let ?w0 = "boot_world (Some db) bk l"
  fix st rs usage
  assume st: "wd_store w = st" "wd_users w = user_set_new st rs" and ld: "load_saved v c ?w0 = Inr usage"
    and fol: "list_all2 (follows v c (remote_snapshot c ?w0) usage (wd_users ?w0) (length (wd_store ?w0)) st) (cf_users c) rs"
    and dist: "distinct (map uc_name (cf_users c))"
  obtain u where u: "u \<in> set (cf_users c)" "uc_name u = nm" using assms(5) by auto
  have none: "us_get (wd_users ?w0) x = None" for x by (simp add: boot_world_def user_set_empty_def us_get_def)
  have "usage = usage_of (ae_driver v) db"
    using ld u(1) load_view [OF assms(4)] assms(3) none
    by (auto simp: load_saved_def list_ex_iff boot_world_def split: if_splits)
  then have s: "usage nm = Some s" using assms(6) by simp
  obtain r where r: "us_get (wd_users w) nm = Some r"
    and cr: "create_user v c (remote_snapshot c ?w0) usage nm = Some (st ! r)"
    using next_set(3) [OF fol dist u(1)] u(2) none by (auto simp: st follows_def)
  have total: "resolve_quotas c nm \<noteq> None" using resolve_quotas_total [OF u(1)] u(2) by simp
  have "metering_of (st ! r) = acc_metering (cf_accounting c)"
    "snapshot (st ! r) = snapshot (new_metered_at nm None s (acc_metering (cf_accounting c)) (ae_hour v))"
    by (rule create_user_total [OF total, of v "remote_snapshot c ?w0" usage]; use cr s in simp)+
  then show ?thesis
    using r create_user_used [OF total cr] s by (simp add: st(1) total_snapshot total_new)
qed

end
