(* ===== verification/Program_Props.thy ===== *)
theory Program_Props
  imports Program Traffic_Props World_Props
begin

text \<open>
  What holds of the process as a whole, in every interleaving of its tasks: it keeps its invariant, which joins
  those of the parts, no turn of it panics, and what it has billed is what it starts with the next time.
\<close>

section \<open>The invariant of the process\<close>

definition program_inv :: "driver \<Rightarrow> program \<Rightarrow> bool" where
  "program_inv dr p \<longleftrightarrow> control_inv (pg_control p) \<and> tasks_ok (node_of p)
     \<and> map ru_pool (pg_rules p) = rt_pool_store (ct_runtime (pg_control p))
     \<and> db_ok dr (pg_world p) \<and> Accounting.saved dr (pg_world p) (rs_engine (pg_engine p))
     \<and> book_inv (eg_book (rs_engine (pg_engine p)))
     \<and> (\<forall>u<length (wd_store (pg_world p)). node_paid u (node_of p) \<le> counted (wd_store (pg_world p) ! u))"

text \<open>What the engine, the flush task and the API do: the world changes, but not its users and what they are billed.\<close>

lemma world_turn_keeps:
  assumes "program_inv dr p" "wd_users w = wd_users (pg_world p)" "wd_live w = wd_live (pg_world p)"
    "map q_name (wd_store w) = map q_name (wd_store (pg_world p))" "map counted (wd_store w) = map counted (wd_store (pg_world p))"
    "db_ok dr w" "Accounting.saved dr w (rs_engine (pg_engine p'))" "book_inv (eg_book (rs_engine (pg_engine p')))"
    "pg_control p' = (pg_control p)\<lparr> ct_world := w \<rparr>" "pg_rules p' = pg_rules p" "pg_idle p' = pg_idle p"
  shows "program_inv dr p'"
proof -
  have "elsewhere (pg_control p) (pg_control p')" using assms by (simp add: elsewhere_def)
  with assms(1) have "control_inv (pg_control p')" using control_inv_elsewhere by (auto simp: program_inv_def)
  moreover note counts = map_eq_nth [OF assms(5)]
  moreover have "tasks_ok (node_of p')" "node_paid u (node_of p') = node_paid u (node_of p)" for u
    using assms counts by (simp_all add: program_inv_def tasks_ok_def node_of_def node_paid_def)
  ultimately show ?thesis using assms by (simp add: program_inv_def)
qed

lemma flush_turn_ledger:
  assumes "driver_ok dr" "db_inv dr db" "distinct (map q_name users)"
  shows "dk_book (sd_disk (flush_turn dr fail wk users db)) = dk_book (sd_disk db)
    \<and> dk_entries (sd_disk (flush_turn dr fail wk users db)) = dk_entries (sd_disk db)"
proof -
  obtain db1 r where f: "flush dr fail users db = (db1, r)" by fastforce
  from flush_cases [OF assms f] checkpoint_frame [of fail db1] show ?thesis
    by (simp add: flush_turn_def f split: sum.splits)
qed

lemma distinct_quotas: "users_wf (wd_store w) (wd_users w) \<Longrightarrow> distinct (map q_name (user_quotas w))"
  using users_distinct [of "wd_store w" "wd_users w" "\<lambda>_. True"] by (simp add: user_quotas_def)

lemma program_users: "program_inv dr p \<Longrightarrow> users_wf (wd_store (pg_world p)) (wd_users (pg_world p))"
  by (simp add: program_inv_def control_inv_def runtime_inv_def Let_def)

lemma flush_world_keeps:
  assumes "driver_ok dr" "program_inv dr p"
  shows "program_inv dr (with_world (flush_world dr fail wk (pg_world p)) p)"
proof (rule world_turn_keeps [OF assms(2)])
  let ?w = "pg_world p" and ?w' = "flush_world dr fail wk (pg_world p)"
  have names: "distinct (map q_name (user_quotas ?w))" using distinct_quotas [OF program_users [OF assms(2)]] .
  have inv: "db_inv dr db" if "wd_db ?w = Some db" for db using that assms(2) by (simp add: program_inv_def db_ok_def)
  show "db_ok dr ?w'"
    using flush_turn_inv [OF assms(1) inv names] by (auto simp: db_ok_def flush_world_def)
  have "same_ledger ?w ?w'"
    using flush_turn_ledger [OF assms(1) inv names]
    by (cases "wd_db ?w") (simp_all add: same_ledger_def flush_world_def)
  then show "Accounting.saved dr ?w' (rs_engine (pg_engine (with_world ?w' p)))"
    using assms(2) saved_same_ledger by (auto simp: program_inv_def with_world_def)
qed (use assms(2) in \<open>simp_all add: flush_world_def with_world_def program_inv_def\<close>)

lemma roll_over_keeps: "q_name (roll_over_at h q) = q_name q" "counted (roll_over_at h q) = counted q"
  by (simp_all add: roll_over_at_def settle_to_def counted_def Let_def)

lemma account_read_keeps:
  assumes "program_inv dr p" "w' = (pg_world p)\<lparr> wd_store := on_quota r (roll_over_at h) (wd_store (pg_world p)) \<rparr>"
  shows "program_inv dr (with_world w' p)"
proof (rule world_turn_keeps [OF assms(1)])
  let ?st = "wd_store (pg_world p)"
  show "map q_name (wd_store w') = map q_name ?st" "map counted (wd_store w') = map counted ?st"
    using roll_over_keeps list_update_id [of "map q_name ?st" r] list_update_id [of "map counted ?st" r]
    by (cases "r < length ?st"; simp add: assms(2) on_quota_def map_update list_update_beyond)+
  show "Accounting.saved dr w' (rs_engine (pg_engine (with_world w' p)))"
    using assms saved_frame [of w' "pg_world p"] by (simp add: program_inv_def with_world_def)
qed (use assms in \<open>simp_all add: with_world_def program_inv_def db_ok_def\<close>)

lemma engine_task_keeps:
  assumes "driver_ok (ev_driver v)" "program_inv (ev_driver v) p"
    "engine_turn v e w0 (pg_world p) (pg_engine p) = Some (w', rs, reply, stop)" "book_inv (eg_book (rs_engine rs))"
  shows "program_inv (ev_driver v) ((with_world w' p)\<lparr> pg_engine := rs, pg_engine_on := on \<rparr>)"
proof (rule world_turn_keeps [OF assms(2)])
  have db: "db_ok (ev_driver v) (pg_world p)" and sv: "Accounting.saved (ev_driver v) (pg_world p) (rs_engine (pg_engine p))"
    using assms(2) by (simp_all add: program_inv_def)
  note turn = engine_turn_world [OF assms(3) db]
  then have "map snapshot (wd_store w') = map snapshot (wd_store (pg_world p))" by (simp add: keeps_accounts_def)
  then have "map (\<lambda>s. unat (sv_upload s) + unat (sv_download s)) (map snapshot (wd_store w'))
      = map (\<lambda>s. unat (sv_upload s) + unat (sv_download s)) (map snapshot (wd_store (pg_world p)))" by (rule arg_cong)
  then show "map counted (wd_store w') = map counted (wd_store (pg_world p))" by (simp add: comp_def counted_snapshot [abs_def])
  show "Accounting.saved (ev_driver v) w' (rs_engine (pg_engine ((with_world w' p)\<lparr> pg_engine := rs, pg_engine_on := on \<rparr>)))"
    using engine_turn_keeps_saved [OF assms(1) sv assms(3)] by simp
  show "wd_users w' = wd_users (pg_world p)" "wd_live w' = wd_live (pg_world p)" "db_ok (ev_driver v) w'"
    "map q_name (wd_store w') = map q_name (wd_store (pg_world p))"
    using turn by (simp_all add: keeps_accounts_def)
qed (use assms(4) in \<open>simp_all add: with_world_def\<close>)

section \<open>What the forwarding tasks do\<close>

definition modest :: "program \<Rightarrow> bool" where
  "modest p \<longleftrightarrow> (\<forall>q\<in>set (wd_store (pg_world p)). unat (q_total_upload q) < 2 ^ 63 \<and> unat (q_total_download q) < 2 ^ 63)"

lemma modest_room: "modest p \<Longrightarrow> u < length (wd_store (pg_world p)) \<Longrightarrow> b \<le> 2 ^ 63 \<Longrightarrow> room_for b (wd_store (pg_world p) ! u)"
proof -
  assume "modest p" "u < length (wd_store (pg_world p))" and b: "b \<le> 2 ^ 63"
  then have "unat (total_of d (wd_store (pg_world p) ! u)) < 2 ^ 63" for d by (cases d) (simp_all add: modest_def total_of_def)
  then have "unat (total_of d (wd_store (pg_world p) ! u)) + b < 2 ^ 63 + 2 ^ 63" for d using b by (rule add_less_le_mono)
  then show ?thesis by (simp add: room_for_def)
qed

lemma node_of_parts [simp]:
  "nd_quotas (node_of p) = wd_store (pg_world p)" "nd_idle (node_of p) = pg_idle p" "nd_rules (node_of p) = pg_rules p"
  by (simp_all add: node_of_def)

lemma with_node_parts [simp]:
  "wd_store (pg_world (with_node n p)) = nd_quotas n" "pg_idle (with_node n p) = nd_idle n" "pg_rules (with_node n p) = nd_rules n"
  "wd_db (pg_world (with_node n p)) = wd_db (pg_world p)" "wd_users (pg_world (with_node n p)) = wd_users (pg_world p)"
  "wd_live (pg_world (with_node n p)) = wd_live (pg_world p)"
  "rt_pool_store (ct_runtime (pg_control (with_node n p))) = map ru_pool (nd_rules n)"
  "rt_rules (ct_runtime (pg_control (with_node n p))) = rt_rules (ct_runtime (pg_control p))"
  "pg_engine (with_node n p) = pg_engine p"
  by (simp_all add: with_node_def Let_def)

lemma node_of_with_node: "node_of (with_node n p) = n"
  by (simp add: node_of_def)

lemma forward_keeps:
  assumes "program_inv dr p" "modest p" "rule_honest e" "rule_cost e \<le> 2 ^ 63"
  shows "\<exists>n. node_turn (RuleTurn i w e) (node_of p) = Some n \<and> program_inv dr (with_node n p)"
proof -
  let ?n = "node_of p"
  have tasks: "tasks_ok ?n" and pools: "map ru_pool (pg_rules p) = rt_pool_store (ct_runtime (pg_control p))"
    using assms(1) by (simp_all add: program_inv_def)
  have "\<exists>n. node_turn (RuleTurn i w e) ?n = Some n \<and> tasks_ok n \<and> accounts_step (rule_cost e) True ?n n
      \<and> map (tp_targets \<circ> ru_pool) (nd_rules n) = map (tp_targets \<circ> ru_pool) (nd_rules ?n)
      \<and> list_all2 quota_run (nd_quotas ?n) (nd_quotas n)"
  proof (cases "i < length (nd_rules ?n) \<and> w < length (nd_idle ?n)")
    case True
    with rule_turn_ok [OF tasks, of i w e] assms(3) show ?thesis by auto
  next
    case False
    then have "node_turn (RuleTurn i w e) ?n = Some ?n" by (auto simp: node_turn_def not_less)
    moreover have "accounts_step (rule_cost e) True ?n ?n" by (rule accounts_step_same) simp_all
    ultimately show ?thesis using tasks by (simp add: list_all2_conv_all_nth quota_run.still)
  qed
  then obtain n where n: "node_turn (RuleTurn i w e) ?n = Some n" "tasks_ok n" "accounts_step (rule_cost e) True ?n n"
    "map (tp_targets \<circ> ru_pool) (nd_rules n) = map (tp_targets \<circ> ru_pool) (pg_rules p)"
    "list_all2 quota_run (wd_store (pg_world p)) (nd_quotas n)" by auto
  have "map tp_targets (map ru_pool (nd_rules n)) = map tp_targets (rt_pool_store (ct_runtime (pg_control p)))"
    using n(4) by (simp add: pools [symmetric])
  moreover have "map q_name (nd_quotas n) = map q_name (wd_store (pg_world p))"
    using n(5) quota_run_name by (auto simp: list_all2_conv_all_nth intro: nth_equalityI)
  ultimately have "elsewhere (pg_control p) (pg_control (with_node n p))" by (simp add: elsewhere_def)
  with assms(1) have "control_inv (pg_control (with_node n p))" using control_inv_elsewhere by (auto simp: program_inv_def)
  moreover have "Accounting.saved dr (pg_world (with_node n p)) (rs_engine (pg_engine p))"
    using assms(1) saved_frame [of "pg_world (with_node n p)" "pg_world p"] by (simp add: program_inv_def)
  moreover have "node_paid u n \<le> counted (nd_quotas n ! u)" if "u < length (nd_quotas n)" for u
  proof -
    have u: "u < length (nd_quotas ?n)" using that n(5) by (simp add: list_all2_lengthD)
    with modest_room [OF assms(2) _ assms(4), of u] have "room_for (rule_cost e) (nd_quotas ?n ! u)" by simp
    moreover have "node_paid u ?n \<le> counted (nd_quotas ?n ! u)" using assms(1) u by (simp add: program_inv_def)
    ultimately show ?thesis using accounts_stepD(1) [OF n(3) u] by linarith
  qed
  ultimately show ?thesis
    using n(1,2) assms(1) by (intro exI [of _ n]) (simp add: program_inv_def node_of_with_node db_ok_def)
qed

section \<open>What the main loop does to the tasks\<close>

lemma map_retire:
  assumes "\<And>ru. f (ru\<lparr> ru_stop := True \<rparr>) = f ru"
  shows "map f (map (retire rt) (enumerate k rules)) = map f rules"
  using assms by (induction rules arbitrary: k) (simp_all add: retire_def Let_def)

lemma fresh_endpoints_unconnected: "\<forall>ep\<in>set (fresh_endpoints ss). ep_peer ep = None"
  by (auto simp: fresh_endpoints_def)

definition paid_for :: "nat \<Rightarrow> rule_io \<Rightarrow> nat" where
  "paid_for u ru = (if ru_quota ru = u then rule_paid ru else 0)"

lemma node_paid_alt: "node_paid u n = sum_list (map (paid_for u) (nd_rules n))"
  by (simp add: node_paid_def paid_for_def [abs_def])

lemma stop_keeps [simp]: "paid_for u (ru\<lparr> ru_stop := True \<rparr>) = paid_for u ru" "rule_io_ok n (ru\<lparr> ru_stop := True \<rparr>) = rule_io_ok n ru"
  by (simp_all add: paid_for_def rule_paid_def rule_io_ok_def)

lemma respawn_keeps:
  assumes "control_inv c" "list_all (rule_io_ok n) rules" "n \<le> length (wd_store (ct_world c))"
    "rt_pool_store (ct_runtime c) = map ru_pool rules @ extra" "list_all pool_inv extra"
    "map (rr_pool \<circ> snd) (filter (\<lambda>(_, rule). length rules \<le> rr_pool rule) (rt_rules (ct_runtime c)))
       = [length rules..<length rules + length extra]"
  obtains rules' where "respawn sockets c rules = Some rules'" "map ru_pool rules' = rt_pool_store (ct_runtime c)"
    "list_all (rule_io_ok (length (wd_store (ct_world c)))) rules'"
    "\<And>u. sum_list (map (paid_for u) rules') = sum_list (map (paid_for u) rules)"
proof -
  let ?w = "ct_world c" and ?rt = "ct_runtime c" and ?n = "length rules"
  let ?fresh = "filter (\<lambda>(_, rule). ?n \<le> rr_pool rule) (rt_rules ?rt)"
  define g where "g = (\<lambda>x. the (spawn_rule sockets c x))"
  have pool_at: "rt_pool_store ?rt ! rr_pool (snd x) \<in> set extra" if "x \<in> set ?fresh" for x
  proof -
    have "(rr_pool \<circ> snd) x \<in> set (map (rr_pool \<circ> snd) ?fresh)" using that by (metis image_eqI list.set_map)
    then have "?n \<le> rr_pool (snd x)" "rr_pool (snd x) < ?n + length extra" unfolding assms(6) by simp_all
    then show ?thesis by (simp add: assms(4) nth_append)
  qed
  have g: "spawn_rule sockets c x = Some (g x) \<and> ru_pool (g x) = rt_pool_store ?rt ! rr_pool (snd x)
      \<and> rule_io_ok (length (wd_store ?w)) (g x) \<and> rule_paid (g x) = 0" if "x \<in> set ?fresh" for x
  proof -
    obtain spec rule where x: "x = (spec, rule)" by fastforce
    have "Runtime_Props.rule_ok (wd_users ?w) (rt_pool_store ?rt) spec rule" and wf: "users_wf (wd_store ?w) (wd_users ?w)"
      using that assms(1) x by (auto simp: control_inv_def runtime_inv_def Let_def)
    then obtain u where u: "us_get (wd_users ?w) (sp_user spec) = Some u" by (auto simp: Runtime_Props.rule_ok_def)
    then have less: "u < length (wd_store ?w)" using us_get_iff [OF wf] wf by (auto simp: users_wf_def)
    have inv: "pool_inv (rt_pool_store ?rt ! rr_pool rule)" using pool_at [OF that] assms(5) x by (simp add: list_all_iff)
    have eps: "\<forall>ep\<in>set (if rr_udp rule = None then [] else fresh_endpoints (sockets (rr_pool rule))). ep_peer ep = None"
      using fresh_endpoints_unconnected by simp
    show ?thesis
      using u forward_rule_ok [OF inv eps less] by (simp add: g_def x spawn_rule_def Let_def) (simp add: forward_rule_def)
  qed
  let ?old = "map (retire ?rt) (enumerate 0 rules)" and ?new = "map g ?fresh"
  have "those (map (spawn_rule sockets c) ?fresh) = Some ?new" using g by (intro those_map) blast
  then have run: "respawn sockets c rules = Some (?old @ ?new)" by (simp add: respawn_def Let_def)
  have "map ru_pool ?new = map (\<lambda>x. rt_pool_store ?rt ! rr_pool (snd x)) ?fresh"
    unfolding list.map_comp comp_def by (rule map_cong [OF refl]) (use g in blast)
  also have "\<dots> = map ((!) (rt_pool_store ?rt)) (map (rr_pool \<circ> snd) ?fresh)" by (simp add: comp_def)
  also have "\<dots> = extra" unfolding assms(4,6) using map_nth_appended [of "map ru_pool rules" extra] by simp
  finally have pools: "map ru_pool (?old @ ?new) = rt_pool_store ?rt"
    using map_retire [of ru_pool ?rt 0 rules] by (simp add: assms(4))
  have mono: "rule_io_ok (length (wd_store ?w)) ru" if "rule_io_ok n ru" for ru
    using that assms(3) by (auto simp: rule_io_ok_def)
  have "map (rule_io_ok n) ?old = map (rule_io_ok n) rules" by (rule map_retire) simp
  then have "list_all (rule_io_ok n) ?old" using assms(2) by (simp add: list_all_length list_eq_iff_nth_eq)
  then have "list_all (rule_io_ok (length (wd_store ?w))) ?old" using mono by (rule list.pred_mono_strong) blast
  moreover have "list_all (rule_io_ok (length (wd_store ?w))) ?new" 
    unfolding list_all_iff set_map using g by blast
  ultimately have "list_all (rule_io_ok (length (wd_store ?w))) (?old @ ?new)" unfolding list_all_append ..
  moreover have "sum_list (map (paid_for u) (?old @ ?new)) = sum_list (map (paid_for u) rules)" for u
  proof -
    have "sum_list (map (paid_for u) ?new) = 0" using g by (auto simp: sum_list_eq_0_iff paid_for_def)
    moreover have "map (paid_for u) ?old = map (paid_for u) rules" by (rule map_retire) simp
    ultimately show ?thesis by (simp del: map_map)
  qed
  ultimately show thesis using that [OF run pools] by blast
qed

lemma paid_for_old: "list_all (rule_io_ok n) rules \<Longrightarrow> n \<le> u \<Longrightarrow> sum_list (map (paid_for u) rules) = 0"
  by (auto simp: sum_list_eq_0_iff paid_for_def list_all_iff rule_io_ok_def)

definition fair_event :: "driver \<Rightarrow> program_event \<Rightarrow> bool" where
  "fair_event dr ev \<longleftrightarrow> (case ev of
      MainLoop v _ _ \<Rightarrow> ae_driver (ce_apply v) = dr
    | EngineTask v _ w0 \<Rightarrow> ev_driver v = dr \<and> (\<forall>remote. ev_fetch v remote \<noteq> None) \<and> good_config (world_config w0)
    | Forward _ _ e \<Rightarrow> rule_honest e \<and> rule_cost e \<le> 2 ^ 63
    | _ \<Rightarrow> True)"

lemma pools_of_rules: "control_inv c \<Longrightarrow> x \<in> set (rt_rules (ct_runtime c)) \<Longrightarrow> rr_pool (snd x) < length (rt_pool_store (ct_runtime c))"
  by (auto simp: control_inv_def runtime_inv_def Runtime_Props.rule_ok_def Let_def)

lemma respawned_keeps:
  assumes "program_inv dr p" "control_inv c" "db_ok dr (ct_world c)" "same_ledger (pg_world p) (ct_world c)"
    "rt_pool_store (ct_runtime c) = rt_pool_store (ct_runtime (pg_control p)) @ extra" "list_all pool_inv extra"
    "map (rr_pool \<circ> snd) (filter (\<lambda>(_, rule). length (pg_rules p) \<le> rr_pool rule) (rt_rules (ct_runtime c)))
       = [length (pg_rules p)..<length (pg_rules p) + length extra]"
    "length (wd_store (pg_world p)) \<le> length (wd_store (ct_world c))"
    "\<forall>r<length (wd_store (pg_world p)). snapshot (wd_store (ct_world c) ! r) = snapshot (wd_store (pg_world p) ! r)"
  shows "\<exists>rules. respawn sockets c (pg_rules p) = Some rules \<and> program_inv dr (p\<lparr> pg_control := c, pg_rules := rules \<rparr>)"
proof -
  let ?n = "length (wd_store (pg_world p))"
  have old: "list_all (rule_io_ok ?n) (pg_rules p)" "list_all idle_empty (pg_idle p)"
    "rt_pool_store (ct_runtime c) = map ru_pool (pg_rules p) @ extra"
    using assms(1,5) by (simp_all add: program_inv_def tasks_ok_def)
  obtain rules where rules: "respawn sockets c (pg_rules p) = Some rules" "map ru_pool rules = rt_pool_store (ct_runtime c)"
    "list_all (rule_io_ok (length (wd_store (ct_world c)))) rules"
    and paid: "\<And>u. sum_list (map (paid_for u) rules) = sum_list (map (paid_for u) (pg_rules p))"
    using respawn_keeps [OF assms(2) old(1) assms(8) old(3) assms(6,7)] by blast
  let ?p = "p\<lparr> pg_control := c, pg_rules := rules \<rparr>"
  have "node_paid u (node_of ?p) \<le> counted (wd_store (ct_world c) ! u)" for u
  proof (cases "u < ?n")
    case True
    then have "node_paid u (node_of p) \<le> counted (wd_store (pg_world p) ! u)" using assms(1) by (simp add: program_inv_def)
    with True assms(9) paid show ?thesis by (simp add: node_paid_alt counted_snapshot)
  next
    case False
    then have "sum_list (map (paid_for u) rules) = 0" using paid_for_old [OF old(1), of u] paid by (simp only: not_less)
    moreover have "node_paid u (node_of ?p) = sum_list (map (paid_for u) rules)" by (simp add: node_paid_alt)
    ultimately show ?thesis by (simp only: le0)
  qed
  moreover have "Accounting.saved dr (ct_world c) (rs_engine (pg_engine p))" "book_inv (eg_book (rs_engine (pg_engine p)))"
    using saved_same_ledger [OF assms(4)] assms(1) by (simp_all add: program_inv_def)
  ultimately have "program_inv dr ?p"
    using assms(2,3) rules(2,3) old(2) by (simp add: program_inv_def tasks_ok_def)
  with rules(1) show ?thesis by blast
qed

lemma main_turn_keeps:
  assumes "driver_ok dr" "program_inv dr p" "ae_driver (ce_apply v) = dr" "control_turn v e (pg_control p) = Some (c, r)"
  shows "\<exists>rules. respawn sockets c (pg_rules p) = Some rules \<and> program_inv dr (p\<lparr> pg_control := c, pg_rules := rules \<rparr>)"
proof -
  have inv: "control_inv (pg_control p)" and db: "db_ok dr (pg_world p)"
    and len: "length (rt_pool_store (ct_runtime (pg_control p))) = length (pg_rules p)"
    using assms(2) unfolding program_inv_def by (simp_all, metis length_map)
  note inv' = control_turn_inv [OF inv assms(4), THEN conjunct1]
  from control_turn_applies [OF inv assms(4)] show ?thesis
  proof
    assume un: "unchanged (pg_control p) c"
    have none: "filter (\<lambda>(_, rule). length (pg_rules p) \<le> rr_pool rule) (rt_rules (ct_runtime c)) = []"
      using pools_of_rules [OF inv] un len by (fastforce simp: filter_empty_conv unchanged_def)
    have "same_ledger (pg_world p) (ct_world c)" using un by (simp add: same_ledger_def unchanged_def option.rel_refl)
    moreover have "db_ok dr (ct_world c)" using un db by (simp add: unchanged_def)
    moreover have "rt_pool_store (ct_runtime c) = rt_pool_store (ct_runtime (pg_control p)) @ []"
      "length (wd_store (pg_world p)) \<le> length (wd_store (ct_world c))"
      "\<forall>r<length (wd_store (pg_world p)). snapshot (wd_store (ct_world c) ! r) = snapshot (wd_store (pg_world p) ! r)"
      using un by (simp_all add: unchanged_def)
    moreover have "map (rr_pool \<circ> snd) (filter (\<lambda>(_, rule). length (pg_rules p) \<le> rr_pool rule) (rt_rules (ct_runtime c)))
        = [length (pg_rules p)..<length (pg_rules p) + length ([] :: target_pool list)]"
      unfolding none by simp
    ultimately show ?thesis using respawned_keeps [OF assms(2) inv', of "[]" sockets] by simp
  next
    assume "switched_to (ce_apply v) (pg_control p) c"
    then obtain cf w where good: "good_config cf"
      and run: "apply_config (ce_apply v) cf (pg_world p) (ct_runtime (pg_control p)) = Some (w, ct_runtime c, Inr ())"
      and w: "ct_world c = w\<lparr> wd_live := wd_live (ct_world c) \<rparr>"
      by (auto simp: switched_to_def)
    have rinv: "runtime_inv (pg_world p) (ct_runtime (pg_control p))" using inv by (simp add: control_inv_def Let_def)
    have parts: "wd_db (ct_world c) = wd_db w" "wd_store (ct_world c) = wd_store w" by (subst w, simp)+
    obtain extra where pools: "rt_pool_store (ct_runtime c) = rt_pool_store (ct_runtime (pg_control p)) @ extra" "list_all pool_inv extra"
      "map (rr_pool \<circ> snd) (filter (\<lambda>(_, rule). length (pg_rules p) \<le> rr_pool rule) (rt_rules (ct_runtime c)))
         = [length (pg_rules p)..<length (pg_rules p) + length extra]"
      using apply_config_pools [OF rinv good run] by (auto simp: len)
    have "db_ok dr w \<and> same_ledger (pg_world p) w"
      using apply_config_db [OF rinv good run] assms(1,3) db by simp
    then have "db_ok dr (ct_world c)" "same_ledger (pg_world p) (ct_world c)"
      by (simp_all add: db_ok_def same_ledger_def parts)
    with respawned_keeps [OF assms(2) inv' _ _ pools] apply_config_accounts [OF rinv good run] show ?thesis
      by (simp add: parts)
  qed
qed

lemma main_turn_runs:
  assumes "driver_ok dr" "program_inv dr p" "ae_driver (ce_apply v) = dr"
  shows "\<exists>p'. main_turn v sockets e p = Some p' \<and> program_inv dr p'"
proof -
  have "control_inv (pg_control p)" using assms(2) by (simp add: program_inv_def)
  from control_turn_runs [OF this, of v e] obtain c r where c: "control_turn v e (pg_control p) = Some (c, r)" by blast
  from main_turn_keeps [OF assms(1,2,3) c, of sockets] c show ?thesis by (auto simp: main_turn_def)
qed

lemma engine_task_runs:
  assumes "driver_ok (ev_driver v)" "program_inv (ev_driver v) p" "\<forall>remote. ev_fetch v remote \<noteq> None" "good_config (world_config w0)"
  shows "\<exists>w' rs reply stop. engine_turn v e w0 (pg_world p) (pg_engine p) = Some (w', rs, reply, stop)
    \<and> program_inv (ev_driver v) ((with_world w' p)\<lparr> pg_engine := rs, pg_engine_on := \<not> stop \<rparr>)"
proof -
  have "book_inv (eg_book (rs_engine (pg_engine p)))" using assms(2) by (simp add: program_inv_def)
  moreover have "distinct (map mb_name (members_of (world_config w0) (pg_world p)))"
    using members_of_names [OF program_users [OF assms(2)]] assms(4) by (simp add: good_config_def)
  ultimately obtain w' rs reply stop where run: "engine_turn v e w0 (pg_world p) (pg_engine p) = Some (w', rs, reply, stop)"
    "book_inv (eg_book (rs_engine rs))"
    using engine_turn_runs assms(3) by blast
  from engine_task_keeps [OF assms(1,2) run] run(1) show ?thesis by blast
qed

lemma program_turn_runs:
  assumes "driver_ok dr" "program_inv dr p" "modest p" "fair_event dr ev"
  shows "\<exists>p'. program_turn dr ev p = Some p' \<and> program_inv dr p'"
proof (cases ev)
  case (MainLoop v sockets e)
  then have "ae_driver (ce_apply v) = dr" using assms(4) by (simp add: fair_event_def)
  from main_turn_runs [OF assms(1,2) this] MainLoop assms(2) show ?thesis
    by (cases e) (auto simp: program_turn_def)
next
  case (EngineTask v e w0)
  then have "ev_driver v = dr" "\<forall>remote. ev_fetch v remote \<noteq> None" "good_config (world_config w0)"
    using assms(4) by (simp_all add: fair_event_def)
  with engine_task_runs [of v p w0 e] EngineTask assms(1,2) show ?thesis by (auto simp: program_turn_def)
next
  case (FlushTask fail hour)
  with assms(1,2) flush_world_keeps show ?thesis by (simp add: program_turn_def)
next
  case (Forward i w e)
  then have "rule_honest e" "rule_cost e \<le> 2 ^ 63" using assms(4) by (simp_all add: fair_event_def)
  from forward_keeps [OF assms(2,3) this, of i w] Forward show ?thesis by (auto simp: program_turn_def)
next
  case (AccountRead r hour)
  with assms(2) account_read_keeps show ?thesis by (simp add: program_turn_def Let_def)
qed

text \<open>Any number of turns, as long as no total comes near the end of its range.\<close>

inductive program_run :: "driver \<Rightarrow> program \<Rightarrow> program \<Rightarrow> bool" for dr where
  begun: "program_run dr p p"
| turned: "program_run dr p p1 \<Longrightarrow> modest p1 \<Longrightarrow> fair_event dr ev \<Longrightarrow> program_turn dr ev p1 = Some p2 \<Longrightarrow> program_run dr p p2"

lemma program_run_inv: "program_run dr p p' \<Longrightarrow> driver_ok dr \<Longrightarrow> program_inv dr p \<Longrightarrow> program_inv dr p'"
proof (induction rule: program_run.induct)
  case (turned p p1 ev p2)
  with program_turn_runs [of dr p1 ev] show ?case by auto
qed simp

lemma boot_rules:
  assumes "boot b path raw = Some (Inr (c, rs))"
  shows "\<exists>rules. respawn sockets c [] = Some rules \<and> map ru_pool rules = rt_pool_store (ct_runtime c)
    \<and> list_all (rule_io_ok (length (wd_store (ct_world c)))) rules \<and> (\<forall>u. sum_list (map (paid_for u) rules) = 0)"
proof -
  obtain extra where pools: "rt_pool_store (ct_runtime c) = map ru_pool ([] :: rule_io list) @ extra" "list_all pool_inv extra"
    "map (rr_pool \<circ> snd) (filter (\<lambda>(_, rule). length ([] :: rule_io list) \<le> rr_pool rule) (rt_rules (ct_runtime c)))
       = [length ([] :: rule_io list)..<length ([] :: rule_io list) + length extra]"
    using boot_pools [OF assms] by (auto simp: case_prod_unfold)
  have "control_inv c" using boot_inv [OF assms] by blast
  then show ?thesis by (rule respawn_keeps [OF _ _ _ pools, of 0 sockets]) auto
qed

lemma program_start_cases:
  assumes "program_start m a = Some (Inr p)"
  obtains raw where "mc_read m (ag_config a) = Inr raw" "boot (mc_boot m) (ag_config a) raw = Some (Inr (pg_control p, pg_engine p))"
    "respawn (mc_sockets m) (pg_control p) [] = Some (pg_rules p)" "pg_idle p = replicate (mc_threads m) []"
proof -
  have dir: "Option.bind (ag_dir a) (mc_chdir m) = None" using assms by (cases "Option.bind (ag_dir a) (mc_chdir m)") (auto simp: program_start_def)
  obtain raw where raw: "mc_read m (ag_config a) = Inr raw"
    using assms dir by (auto simp: program_start_def Let_def split: sum.splits)
  obtain c rs where boot: "boot (mc_boot m) (ag_config a) raw = Some (Inr (c, rs))"
  proof (cases "boot (mc_boot m) (ag_config a) raw")
    case None
    with assms dir raw show thesis by (simp add: program_start_def Let_def)
  next
    case (Some r)
    with assms dir raw that show thesis by (cases r) (auto simp: program_start_def Let_def)
  qed
  obtain rules where re: "respawn (mc_sockets m) c [] = Some rules"
    using assms dir raw boot by (auto simp: program_start_def Let_def bind_eq_Some_conv)
  have "pg_control p = c" "pg_engine p = rs" "pg_rules p = rules" "pg_idle p = replicate (mc_threads m) []"
    using assms dir raw boot re by (auto simp: program_start_def Let_def)
  with raw boot re show thesis by (intro that) simp_all
qed

lemma program_start_inv:
  assumes "program_start m a = Some (Inr p)" "driver_ok dr" "disk_ok dr (be_disk (mc_boot m))"
    "ae_driver (ce_apply (be_control (mc_boot m))) = dr"
  shows "program_inv dr p"
proof (rule program_start_cases [OF assms(1)])
  fix raw
  assume boot: "boot (mc_boot m) (ag_config a) raw = Some (Inr (pg_control p, pg_engine p))"
    and re: "respawn (mc_sockets m) (pg_control p) [] = Some (pg_rules p)" and idle: "pg_idle p = replicate (mc_threads m) []"
  have "list_all idle_empty (pg_idle p)" by (simp add: idle idle_empty_def list_all_iff)
  with boot_rules [OF boot, of "mc_sockets m"] re boot_inv [OF boot] boot_keeps [OF boot assms(2-4)] show ?thesis
    unfolding program_inv_def by (simp add: tasks_ok_def node_paid_alt del: sum_list_eq_0_iff)
qed

section \<open>The end and the next start\<close>

text \<open>A machine that can start again on the database \<open>d\<close>: the files are there and read, and the sockets are free.\<close>

definition ready :: "driver \<Rightarrow> disk \<Rightarrow> machine \<Rightarrow> args \<Rightarrow> bool" where
  "ready dr d m a \<longleftrightarrow> (let b = mc_boot m; v = be_control b in
     Option.bind (ag_dir a) (mc_chdir m) = None
     \<and> (\<exists>raw c sf. mc_read m (ag_config a) = Inr raw \<and> parse_config (ce_yaml v) (ce_json5 v) raw (ag_config a) = Inr c
          \<and> cf_state_file c = Some sf \<and> sf_enabled sf)
     \<and> be_disk b = d \<and> be_faults b = no_faults \<and> ae_driver (ce_apply v) = dr \<and> ae_load_faults (ce_apply v) = no_faults
     \<and> (\<forall>addr. be_bind b addr = None \<and> (\<exists>s. ae_bind_tcp (ce_apply v) addr = Inr s) \<and> (\<exists>s. ae_bind_udp (ce_apply v) addr = Inr s)))"

text \<open>It does, with the book, the entries and the usage of that database.\<close>

lemma ready_starts:
  assumes "ready dr d m a" "open_db no_faults d = (d, Inr db)" "db_inv dr db" "driver_ok dr"
    "restore_book dr no_faults (Some db) = Inr (bk, es)"
  obtains p l where "program_start m a = Some (Inr p)" "eg_book (rs_engine (pg_engine p)) = bk"
    "eg_entries (rs_engine (pg_engine p)) = es" "good_config (world_config (pg_world p))"
    "apply_config (ce_apply (be_control (mc_boot m))) (world_config (pg_world p)) (boot_world (Some db) bk l) runtime_new
       = Some (pg_world p, ct_runtime (pg_control p), Inr ())"
proof -
  let ?b = "mc_boot m"
  let ?v = "be_control ?b"
  obtain raw c sf where m: "Option.bind (ag_dir a) (mc_chdir m) = None" "mc_read m (ag_config a) = Inr raw"
    "parse_config (ce_yaml ?v) (ce_json5 ?v) raw (ag_config a) = Inr c" "cf_state_file c = Some sf" "sf_enabled sf"
    "be_disk ?b = d" "be_faults ?b = no_faults" "ae_driver (ce_apply ?v) = dr" "ae_load_faults (ce_apply ?v) = no_faults"
    "\<forall>addr. be_bind ?b addr = None" "\<forall>addr. \<exists>s. ae_bind_tcp (ce_apply ?v) addr = Inr s"
    "\<forall>addr. \<exists>s. ae_bind_udp (ce_apply ?v) addr = Inr s"
    using assms(1) unfolding ready_def Let_def by blast
  have db: "open_state ?b c = Inr (Some db)" using m(4-7) assms(2) by (simp add: open_state_def)
  have bk: "restore_book (ae_driver (ce_apply ?v)) (be_faults ?b) (Some db) = Inr (bk, es)" using m(7,8) assms(5) by simp
  have inv: "\<forall>d. Some db = Some d \<longrightarrow> db_inv (ae_driver (ce_apply ?v)) d" using m(8) assms(3) by simp
  obtain ct rs where boot: "boot ?b (ag_config a) raw = Some (Inr (ct, rs))"
    using boot_succeeds [OF m(3) db bk m(9) inv m(10-12)] by blast
  obtain rules where re: "respawn (mc_sockets m) ct [] = Some rules" using boot_rules [OF boot] by blast
  define p where "p = \<lparr> pg_control = ct, pg_engine = rs, pg_engine_on = True, pg_rules = rules,
    pg_idle = replicate (mc_threads m) [], pg_watching = \<not> ag_no_reload a,
    pg_nofile = raise_nofile_limit (mc_getrlimit m) (mc_setrlimit m) (mc_nofile m) \<rparr>"
  have start: "program_start m a = Some (Inr p)" using m(1,2) boot re by (simp add: program_start_def p_def Let_def)
  show thesis
  proof (rule boot_cases [OF boot])
    fix cfg db1 bk1 es1
    assume "parse_config (ce_yaml ?v) (ce_json5 ?v) raw (ag_config a) = Inr cfg" "open_state ?b cfg = Inr db1"
      "restore_book (ae_driver (ce_apply ?v)) (be_faults ?b) db1 = Inr (bk1, es1)"
      and run: "apply_config (ce_apply ?v) (world_config (ct_world ct)) (boot_world db1 bk1 (wd_live (ct_world ct))) runtime_new
        = Some (ct_world ct, ct_runtime ct, Inr ())" "good_config (world_config (ct_world ct))"
      "rs = run_start (be_clock ?b) (ct_world ct) (engine_new (ct_world ct) bk1 es1)"
    then have "db1 = Some db" "bk1 = bk" "es1 = es" using m(3) db bk by auto
    with run show thesis by (intro that [OF start, of "wd_live (ct_world ct)"]) (simp_all add: p_def run_start_def)
  qed
qed

text \<open>C2: the process never stops on its own.  From a successful start on, in every interleaving of reloads, edits of
  the panel, turns of the accounting engine, flushes, requests and the tasks of all rules, whatever the network, the
  disk and the provider answer, the next turn does not panic.  After it the live configuration is valid and is what runs,
  and a crash at that moment loses nothing that the engine has done: the file is readable, and the book and the entries
  that a restart reads from it are those in memory.\<close>

theorem process_makes_progress:
  assumes "driver_ok dr" "disk_ok dr (be_disk (mc_boot m))" "ae_driver (ce_apply (be_control (mc_boot m))) = dr"
    "program_start m a = Some (Inr p0)" "program_run dr p0 p" "modest p" "fair_event dr ev"
  shows "\<exists>p'. program_turn dr ev p = Some p'
    \<and> (let w = pg_world p'; c = world_config w; e = rs_engine (pg_engine p') in
        good_config c \<and> fst ` set (rt_rules (ct_runtime (pg_control p'))) = set (specs_of c)
        \<and> names_of (wd_store w) (wd_users w) = map uc_name (cf_users c)
        \<and> (\<forall>db. wd_db w = Some db \<longrightarrow> restore_book dr no_faults (Some db) = Inr (eg_book e, eg_entries e)
             \<and> (\<exists>usage. load dr no_faults db = Inr usage)))"
proof -
  have "program_inv dr p" using program_run_inv [OF assms(5,1)] program_start_inv [OF assms(4,1,2,3)] by blast
  from program_turn_runs [OF assms(1) this assms(6,7)] obtain p' where p': "program_turn dr ev p = Some p'" "program_inv dr p'"
    by blast
  have "restore_book dr no_faults (Some db) = Inr (eg_book (rs_engine (pg_engine p')), eg_entries (rs_engine (pg_engine p')))
      \<and> load dr no_faults db = Inr (usage_of dr db)" if "wd_db (pg_world p') = Some db" for db
    using that p'(2) saved_restores [of dr "pg_world p'" "rs_engine (pg_engine p')" db] load_view [of dr db]
    by (simp add: program_inv_def db_ok_def)
  with p' show ?thesis by (auto simp: program_inv_def control_inv_def Let_def)
qed

text \<open>What the last flush leaves on the disk opens again, with the ledger of the engine and the counters of all users.\<close>

lemma shut_down_reopens:
  assumes "driver_ok dr" "program_inv dr p" "\<forall>q\<in>set (user_quotas (pg_world p)). write_row dr (snapshot q) \<noteq> None"
    "shut_down dr no_faults p = Some d"
  shows "\<exists>db. db_inv dr db \<and> open_db no_faults d = (d, Inr db)
    \<and> restore_book dr no_faults (Some db) = Inr (eg_book (rs_engine (pg_engine p)), eg_entries (rs_engine (pg_engine p)))
    \<and> (\<forall>q\<in>set (user_quotas (pg_world p)). usage_of dr db (q_name q) = Some (snapshot q))"
proof -
  let ?w = "pg_world p" and ?e = "rs_engine (pg_engine p)"
  obtain db where db: "wd_db ?w = Some db" "d = sd_durable (flush_turn dr no_faults Shutdown (user_quotas ?w) db)"
    using assms(4) by (auto simp: shut_down_def flush_world_def)
  have dbi: "db_inv dr db" using assms(2) db(1) by (simp add: program_inv_def db_ok_def)
  have names: "distinct (map q_name (user_quotas ?w))" using distinct_quotas [OF program_users [OF assms(2)]] .
  let ?db1 = "flush_turn dr no_faults Shutdown (user_quotas ?w) db"
  note flushed = final_flush [OF assms(1) dbi names assms(3)]
  have d: "d = sd_disk ?db1" using db(2) flushed(2) by simp
  from db_inv_reopened [OF flushed(1)] obtain db2 where
    db2: "db_inv dr db2" "usage_of dr db2 = usage_of dr ?db1" "open_db no_faults d = (d, Inr db2)" "sd_disk db2 = d"
    by (auto simp: d)
  have "same_ledger ?w (?w\<lparr> wd_db := Some db2 \<rparr>)" using db(1) db2(4) flushed(4,5) by (simp add: same_ledger_def d)
  then have "Accounting.saved dr (?w\<lparr> wd_db := Some db2 \<rparr>) ?e"
    using saved_same_ledger assms(2) by (auto simp: program_inv_def)
  from saved_restores [OF this, of db2] have "restore_book dr no_faults (Some db2) = Inr (eg_book ?e, eg_entries ?e)" by simp
  moreover have "usage_of dr db2 (q_name q) = Some (snapshot q)" if "q \<in> set (user_quotas ?w)" for q
    using snapshots_of [OF names that] by (simp add: db2(2) flushed(3) map_add_Some_iff)
  ultimately show ?thesis using db2(1,3) by blast
qed

text \<open>C1: the bill survives the power failure.  Whatever the process did since it was started, once its last flush is
  through, any machine that can start it again on what is then on the disk does start it: with the book and the entries
  of the engine, and every user that is still configured has exactly the totals it had, which count every byte
  that was forwarded for it, and, unless the metering was changed, the same bill.\<close>

theorem restart_keeps_every_bill:
  assumes "driver_ok dr" "disk_ok dr (be_disk (mc_boot m))" "ae_driver (ce_apply (be_control (mc_boot m))) = dr"
    "program_start m a = Some (Inr p0)" "program_run dr p0 p"
    "\<forall>q\<in>set (user_quotas (pg_world p)). write_row dr (snapshot q) \<noteq> None"
    "shut_down dr no_faults p = Some d" "ready dr d m' a'"
  shows "\<exists>p'. program_start m' a' = Some (Inr p')
    \<and> eg_book (rs_engine (pg_engine p')) = eg_book (rs_engine (pg_engine p))
    \<and> eg_entries (rs_engine (pg_engine p')) = eg_entries (rs_engine (pg_engine p))
    \<and> (\<forall>r\<in>set (us_ordered (wd_users (pg_world p))).
        let q = wd_store (pg_world p) ! r; c = world_config (pg_world p') in
          forwarded r (node_of p) \<le> counted q
          \<and> (q_name q \<in> uc_name ` set (cf_users c) \<longrightarrow>
              (\<exists>r'. us_get (wd_users (pg_world p')) (q_name q) = Some r'
                 \<and> (\<forall>dir. total_of dir (wd_store (pg_world p') ! r') = total_of dir q)
                 \<and> (acc_metering (cf_accounting c) = metering_of q \<longrightarrow> used (wd_store (pg_world p') ! r') = used q))))"
proof -
  let ?w = "pg_world p" and ?e = "rs_engine (pg_engine p)"
  have inv: "program_inv dr p" using program_run_inv [OF assms(5,1)] program_start_inv [OF assms(4,1,2,3)] by blast
  obtain db2 where db2: "db_inv dr db2" "open_db no_faults d = (d, Inr db2)"
    and book: "restore_book dr no_faults (Some db2) = Inr (eg_book ?e, eg_entries ?e)"
    and saved: "\<forall>q\<in>set (user_quotas ?w). usage_of dr db2 (q_name q) = Some (snapshot q)"
    using shut_down_reopens [OF assms(1) inv assms(6,7)] by blast
  from ready_starts [OF assms(8) db2(2,1) assms(1) book] obtain p' l where
    start: "program_start m' a' = Some (Inr p')" "eg_book (rs_engine (pg_engine p')) = eg_book ?e"
      "eg_entries (rs_engine (pg_engine p')) = eg_entries ?e" "good_config (world_config (pg_world p'))"
    and run: "apply_config (ce_apply (be_control (mc_boot m'))) (world_config (pg_world p')) (boot_world (Some db2) (eg_book ?e) l) runtime_new
       = Some (pg_world p', ct_runtime (pg_control p'), Inr ())" by blast
  have v: "ae_load_faults (ce_apply (be_control (mc_boot m'))) = no_faults" "ae_driver (ce_apply (be_control (mc_boot m'))) = dr"
    using assms(8) by (simp_all add: ready_def Let_def)
  have "forwarded r (node_of p) \<le> counted (wd_store ?w ! r)
      \<and> (q_name (wd_store ?w ! r) \<in> uc_name ` set (cf_users (world_config (pg_world p'))) \<longrightarrow>
          (\<exists>r'. us_get (wd_users (pg_world p')) (q_name (wd_store ?w ! r)) = Some r'
             \<and> (\<forall>dir. total_of dir (wd_store (pg_world p') ! r') = total_of dir (wd_store ?w ! r))
             \<and> (acc_metering (cf_accounting (world_config (pg_world p'))) = metering_of (wd_store ?w ! r)
                  \<longrightarrow> used (wd_store (pg_world p') ! r') = used (wd_store ?w ! r))))"
    if r: "r \<in> set (us_ordered (wd_users ?w))" for r
  proof (intro conjI impI)
    let ?q = "wd_store ?w ! r"
    have "r < length (wd_store ?w)" using program_users [OF inv] r by (simp add: users_wf_def)
    then show "forwarded r (node_of p) \<le> counted ?q"
      using forwarded_paid [of "node_of p" r] inv by (fastforce simp: program_inv_def)
    assume named: "q_name ?q \<in> uc_name ` set (cf_users (world_config (pg_world p')))"
    have "?q \<in> set (user_quotas ?w)" using r by (simp add: user_quotas_def)
    then have "usage_of dr db2 (q_name ?q) = Some (snapshot ?q)"
      using saved by blast
    from booted_user [OF run start(4) v(1) _ named, unfolded v(2), OF db2(1) this] show "\<exists>r'. us_get (wd_users (pg_world p')) (q_name ?q) = Some r'
        \<and> (\<forall>dir. total_of dir (wd_store (pg_world p') ! r') = total_of dir ?q)
        \<and> (acc_metering (cf_accounting (world_config (pg_world p'))) = metering_of ?q \<longrightarrow> used (wd_store (pg_world p') ! r') = used ?q)"
      by (auto simp: total_snapshot [of _ ?q] used_snapshot [of ?q])
  qed
  with start show ?thesis by (auto simp: Let_def)
qed

section \<open>A day of the process\<close>

definition day_config :: config where
  "day_config = bob_config\<lparr> cf_state_file := Some \<lparr> sf_enabled = True, sf_path = ''state.db'', sf_flush_secs = 30 \<rparr> \<rparr>"

definition day_control :: control_env where
  "day_control = \<lparr> ce_apply = rt_env, ce_io = (\<lambda>_. None), ce_cut = 0, ce_encode = (\<lambda>_. None), ce_decode = (\<lambda>_. None),
     ce_yaml = (\<lambda>_. Inr day_config), ce_json5 = (\<lambda>_. Inr day_config) \<rparr>"

definition day_machine :: "disk \<Rightarrow> machine" where
  "day_machine d = \<lparr> mc_chdir = (\<lambda>_. None), mc_getrlimit = True, mc_setrlimit = True,
     mc_nofile = \<lparr> rl_cur = 1024, rl_max = 65536 \<rparr>, mc_read = (\<lambda>_. Inr ''raw''),
     mc_boot = \<lparr> be_control = day_control, be_faults = no_faults, be_disk = d,
       be_files = \<lparr> fl_store = None, fl_partial = None \<rparr>, be_bind = (\<lambda>_. None), be_clock = 0 \<rparr>,
     mc_sockets = (\<lambda>_. [7]), mc_threads = 1 \<rparr>"

definition day_args :: args where
  "day_args = \<lparr> ag_config = ''c.json'', ag_dir = None, ag_no_reload = True \<rparr>"

definition new_disk :: disk where
  "new_disk = \<lparr> dk_usage = NoUsage, dk_book = None, dk_entries = [] \<rparr>"

text \<open>Bob's client sends three bytes while a flush fails, and the account is read in the next hour.\<close>

definition day_events :: "program_event list" where
  "day_events =
     [Forward 0 0 (TcpAccept Accepted), Forward 0 0 (TcpTurn 0 (ConnDial (\<lambda>_. Inr ()) 9)),
      Forward 0 0 (TcpTurn 0 (ConnCopy Upload (HalfRead (Some 65536) (ReadBytes [1, 2, 3]) 0 5))),
      FlushTask (\<lambda>_. Some ''disk full'') False,
      Forward 0 0 (TcpTurn 0 (ConnCopy Upload (HalfWrite (Sent 3)))), AccountRead 0 6]"

fun steady :: "driver \<Rightarrow> program_event list \<Rightarrow> program \<Rightarrow> bool" where
  "steady dr [] p \<longleftrightarrow> True"
| "steady dr (ev # evs) p \<longleftrightarrow> modest p \<and> (case program_turn dr ev p of None \<Rightarrow> False | Some p1 \<Rightarrow> steady dr evs p1)"

definition day_view :: "program \<Rightarrow> nat \<times> (string \<times> u64 \<times> metering) list \<times> nat list \<times> bool \<times> bool \<times> bool" where
  "day_view p = (forwarded 0 (node_of p), map (\<lambda>q. (q_name q, used q, metering_of q)) (wd_store (pg_world p)),
     us_ordered (wd_users (pg_world p)), modest p, \<not> Option.is_none (wd_db (pg_world p)),
     list_all (\<lambda>q. \<not> Option.is_none (write_row (signed_driver book_default) (snapshot q))) (user_quotas (pg_world p)))"

lemma steady_run:
  assumes "steady dr evs p" "list_all (fair_event dr) evs" "program_turns dr evs p = Some p'" "program_run dr p0 p"
  shows "program_run dr p0 p'"
  using assms
proof (induction evs arbitrary: p)
  case (Cons ev evs)
  then obtain p1 where p1: "program_turn dr ev p = Some p1" "modest p" "steady dr evs p1" "fair_event dr ev"
    by (auto split: option.splits)
  from program_run.turned [OF Cons.prems(4) p1(2,4,1)] Cons p1 show ?case by simp
qed simp

lemma day_disk: "disk_ok dr new_disk"
  by (simp add: disk_ok_def new_disk_def create_usage_def add_columns_def rows_ok_def)

lemma day_fair: "list_all (fair_event (signed_driver book_default)) day_events"
  by (simp add: day_events_def fair_event_def rule_honest_def rule_cost_def conn_cost_def half_bytes_def)

lemma day_parse: "parse_config (ce_yaml (be_control (mc_boot (day_machine d)))) (ce_json5 (be_control (mc_boot (day_machine d)))) raw path
    = Inr day_config"
proof -
  have "validate day_config = Inr ()" by code_simp
  then have good: "good_config day_config" by (simp add: validate_iff)
  have "cf_rules day_config = []" by (simp add: day_config_def bob_config_def rt_config_def)
  from finalize_again [OF good this] show ?thesis
    by (simp add: parse_config_def day_machine_def day_control_def Let_def)
qed

lemma day_ready: "ready (signed_driver book_default) d (day_machine d) day_args"
  using day_parse
  by (simp add: ready_def Let_def) (simp add: day_machine_def day_args_def day_control_def rt_env_def day_config_def)

lemma day_started:
  assumes "program_start (day_machine d) day_args = Some (Inr p)"
  shows "world_config (pg_world p) = day_config"
proof (rule program_start_cases [OF assms])
  fix raw
  assume "boot (mc_boot (day_machine d)) (ag_config day_args) raw = Some (Inr (pg_control p, pg_engine p))"
  then show ?thesis
    by (rule boot_config [OF _ day_parse]) (simp add: day_config_def bob_config_def rt_config_def config_panel_def)
qed

lemma day_runs: "(case program_start (day_machine new_disk) day_args of
      Some (Inr p) \<Rightarrow> Some (steady (signed_driver book_default) day_events p,
        map_option day_view (program_turns (signed_driver book_default) day_events p))
    | _ \<Rightarrow> None) = Some (True, Some (3, [(''bob'', 3, MeterMax)], [0], True, True, True))"
  by code_simp

lemma day_parts:
  obtains p0 p d where "program_start (day_machine new_disk) day_args = Some (Inr p0)"
    "program_turns (signed_driver book_default) day_events p0 = Some p" "shut_down (signed_driver book_default) no_faults p = Some d"
    "program_run (signed_driver book_default) p0 p"
    "day_view p = (3, [(''bob'', 3, MeterMax)], [0], True, True, True)"
proof -
  obtain p0 p where day: "program_start (day_machine new_disk) day_args = Some (Inr p0)"
    "steady (signed_driver book_default) day_events p0" "program_turns (signed_driver book_default) day_events p0 = Some p"
    "day_view p = (3, [(''bob'', 3, MeterMax)], [0], True, True, True)"
    using day_runs by (auto split: option.splits sum.splits)
  obtain d where "shut_down (signed_driver book_default) no_faults p = Some d"
    using day(4) by (auto simp: day_view_def shut_down_def flush_world_def Option.is_none_def)
  with steady_run [OF day(2) day_fair day(3) program_run.begun] day show thesis by (intro that)
qed

lemma day_driver: "ae_driver (ce_apply (be_control (mc_boot (day_machine d)))) = signed_driver book_default"
  "be_disk (mc_boot (day_machine d)) = d"
  by (simp_all add: day_machine_def day_control_def rt_env_def)

theorem process_makes_progress_witness:
  "\<exists>p0 p p'. program_start (day_machine new_disk) day_args = Some (Inr p0)
     \<and> program_turns (signed_driver book_default) day_events p0 = Some p
     \<and> program_turn (signed_driver book_default) (AccountRead 0 7) p = Some p' \<and> good_config (world_config (pg_world p'))"
proof (rule day_parts)
  fix p0 p
  assume day: "program_start (day_machine new_disk) day_args = Some (Inr p0)"
    "program_turns (signed_driver book_default) day_events p0 = Some p" "program_run (signed_driver book_default) p0 p"
    "day_view p = (3, [(''bob'', 3, MeterMax)], [0], True, True, True)"
  have ev: "fair_event (signed_driver book_default) (AccountRead 0 7)" by (simp add: fair_event_def)
  have "modest p" using day(4) by (simp add: day_view_def)
  from process_makes_progress [OF signed_driver_ok _ day_driver(1) day(1,3) this ev] day(1,2) day_disk show ?thesis
    by (auto simp: day_driver(2) Let_def)
qed

theorem restart_keeps_every_bill_witness:
  "\<exists>p0 p d p1 r. program_start (day_machine new_disk) day_args = Some (Inr p0)
     \<and> program_turns (signed_driver book_default) day_events p0 = Some p
     \<and> shut_down (signed_driver book_default) no_faults p = Some d
     \<and> program_start (day_machine d) day_args = Some (Inr p1)
     \<and> us_get (wd_users (pg_world p1)) ''bob'' = Some r \<and> used (wd_store (pg_world p1) ! r) = 3"
proof (rule day_parts)
  let ?dr = "signed_driver book_default"
  fix p0 p d
  assume day: "program_start (day_machine new_disk) day_args = Some (Inr p0)" "program_turns ?dr day_events p0 = Some p"
    "shut_down ?dr no_faults p = Some d" "program_run ?dr p0 p"
    and view: "day_view p = (3, [(''bob'', 3, MeterMax)], [0], True, True, True)"
  have stored: "\<forall>q\<in>set (user_quotas (pg_world p)). write_row ?dr (snapshot q) \<noteq> None"
    using view by (auto simp: day_view_def list_all_iff Option.is_none_def)
  obtain q where q: "wd_store (pg_world p) = [q]" "q_name q = ''bob''" "used q = 3" "metering_of q = MeterMax"
    "us_ordered (wd_users (pg_world p)) = [0]"
    using view by (auto simp: day_view_def map_eq_Cons_conv)
  have bob: "uc_name ` set (cf_users day_config) = {''bob''}" "acc_metering (cf_accounting day_config) = MeterMax"
    by (simp_all add: day_config_def bob_config_def rt_config_def rt_user_def accounting_default_def)
  from restart_keeps_every_bill [OF signed_driver_ok _ day_driver(1) day(1,4) stored day(3) day_ready] day_disk q
  obtain p1 where p1: "program_start (day_machine d) day_args = Some (Inr p1)"
    and used: "''bob'' \<in> uc_name ` set (cf_users (world_config (pg_world p1)))
      \<longrightarrow> (\<exists>r. us_get (wd_users (pg_world p1)) ''bob'' = Some r
        \<and> (acc_metering (cf_accounting (world_config (pg_world p1))) = MeterMax \<longrightarrow> used (wd_store (pg_world p1) ! r) = 3))"
    by (auto simp: day_driver(2) Let_def)
  with day_started [OF p1] bob day show ?thesis by auto
qed

end
