(* ===== verification/Spec2Isabelle.thy ===== *)
theory Spec2Isabelle
  imports Program_Props
begin

text \<open>
  Verification of ports-box, a TCP and UDP port forwarder with a traffic quota per user.  All sources
  named here are under \<open>src/src/\<close>.

  The program.  A configuration (\<open>config.rs\<close>) lists users, their forwarding rules and quotas.  \<open>main.rs\<close>
  starts everything and then serves two inputs in turn: a changed configuration file, and edits that the
  web panel (\<open>panel.rs\<close>) sends.  Both end in \<open>Runtime::apply\<close> (\<open>runtime.rs\<close>), which binds sockets, makes or
  updates one \<open>UserQuota\<close> per user (\<open>quota.rs\<close>) and one \<open>TargetPool\<close> per rule (\<open>pool.rs\<close>), and spawns the
  forwarding tasks (\<open>tcp.rs\<close> with \<open>pipe.rs\<close>, \<open>udp.rs\<close>), which resolve targets by \<open>dns.rs\<close>.  The quotas are
  flushed to a database (\<open>state.rs\<close>).  With remote accounting, an engine (\<open>accounting.rs\<close>) fetches the
  provider's traffic packages (\<open>provider.rs\<close>, \<open>volcengine.rs\<close>), keeps a ledger of who owns how much of them
  (\<open>ledger.rs\<close>), saves it, and sets the users' limits by it.  \<open>api.rs\<close> shows usage.

  The theories, in the order of their imports:
  \<^item> \<open>Prelude\<close>: words of 64 bits with the wrapping and saturating operations, lists, and the lemmas all share.
    \<open>u64\<close> and \<open>i64\<close> are both \<open>64 word\<close>; the latter is read with \<open>sint\<close>.
  \<^item> \<open>Ordered_Map\<close>: \<open>BTreeMap\<close> as a sorted association list, and the interface of maps as a locale.
  \<^item> \<open>Split\<close>: \<open>split_by\<close> and \<open>split_evenly\<close> of \<open>ledger.rs\<close>, the largest-remainder apportionment.
  \<^item> \<open>Provider\<close>, \<open>Ledger\<close>, \<open>Ledger_Laws\<close>, \<open>Ledger_Props\<close>: the book.  \<open>reconcile\<close> is the composition of the passes of
    \<open>Book::reconcile\<close>; each pass has its laws in \<open>Ledger_Laws\<close>, from which \<open>Ledger_Props\<close> derives the account of every
    user's balance by entries and charges, the migration in proportion, what moves the unallocated traffic, absence of
    panics, crediting at most once, and what transfer and allocate do.
  \<^item> \<open>Sockets\<close>: socket addresses, the standard library's address parser, and \<open>dns.rs\<close>.
  \<^item> \<open>Sizes\<close>, \<open>Config\<close>: byte sizes with the \<open>f64\<close> they are read and shown through; the data of \<open>config.rs\<close>, its
    validation, finalization and quota shares, with a declarative specification that the validation meets.
  \<^item> \<open>Quota\<close>: a \<open>UserQuota\<close> as a record whose operations are atomic steps; billing by the hour, exhaustion, snapshots.
  \<^item> \<open>Pool\<close>: health and the active target, probes, re-arming, and the connection loop over the locale \<open>failover\<close>,
    which \<open>tcp_connect_active\<close> and \<open>udp_connect_active\<close> instantiate.
  \<^item> \<open>Tcp\<close>: accepting, connecting, pooled pipes and the counted copy loop.
  \<^item> \<open>Udp\<close>, \<open>Udp_Props\<close>: sending with segmentation offload, binding the shards, and a shard as a state machine of its
    receiving loop and the tasks it spawns (\<open>shard_turn\<close>), with its reachable states (\<open>shard_run\<close>) and the
    packets that came and went on the way (\<open>shard_history\<close>).
  \<^item> \<open>Traffic\<close>, \<open>Copy_Props\<close>, \<open>Traffic_Props\<close>: all forwarding tasks side by side.  A connection of \<open>tcp.rs\<close> (\<open>handle\<close>) is a
    state machine that stops at every \<open>await\<close>; a rule (\<open>rule_io\<close>) has connections and shards over one pool, and the
    \<open>node\<close> has all rules over the users' quotas and the idle pipes of the threads.  \<open>Copy_Props\<close> has the invariant of a
    direction and its equivalence with the copy loop of \<open>Tcp\<close>; in \<open>Traffic_Props\<close> the locale \<open>shared_task\<close> is what a
    task promises to its neighbours: what it forwards it has counted, and what it counts or keeps waiting was
    delivered to it.  Connections and shards meet it, and the node's theorems follow.
  \<^item> \<open>User_Set\<close>, \<open>Api\<close>: the set of users, and the HTTP API's answers and authorization.
  \<^item> \<open>State_Db\<close>: the database file as a value, opening and migrating it, loading, flushing what changed, the ledger's
    rows, the checkpoint and the flush task.  A state has the file and its durable image; every
    call of the driver can fail, as the argument \<open>faults\<close> says.
  \<^item> \<open>Billing_Api\<close>: the request signature, the decoding of a page, and the paging loop of \<open>volcengine.rs\<close>.
  \<^item> \<open>Accounting\<close>, \<open>Accounting_Props\<close>: the engine and its loop.  The \<open>world\<close> record holds what tasks share: the database,
    the quotas, the user set, the limits and the live configuration.
  \<^item> \<open>Runtime\<close>, \<open>Runtime_Props\<close>: \<open>Runtime::apply\<close> with the sockets it takes over, and what a reload keeps.
  \<^item> \<open>Panel\<close>: sessions, the gate and the login, the handlers and what they show; which requests a session's
    opening rests on, for the login and for the token (\<open>vouched\<close>).
  \<^item> \<open>Documents\<close>: what users and rules are written as and read back from, field by field, with the byte sizes of \<open>Sizes\<close>.
  \<^item> \<open>Control\<close>, \<open>Control_Props\<close>: starting, the main loop, and the panel's store on disk; the invariant of the control side.
  \<^item> \<open>World_Props\<close>: what \<open>apply\<close>, the engine and a start do to the pools, the accounts and the database, and
    that each of them answers.
  \<^item> \<open>Program\<close>, \<open>Program_Props\<close>: the process.  \<open>program_start\<close> is \<open>main\<close> and the start of \<open>run\<close>; a \<open>program\<close> is the control
    side, the engine and the tasks of all rules over one set of quotas and pools; \<open>program_turn\<close> lets one of
    the main loop, the engine, the flush task, the API and the forwarding tasks take its turn; \<open>shut_down\<close> is
    the last flush.  \<open>program_inv\<close> joins the invariants of the parts, and \<open>program_run\<close> are the states reached.

  Conventions.  Machine integers are words and wrap as in a release build.  A panic is \<open>None\<close>, an error is \<open>Inl\<close>.
  A \<open>HashMap\<close> is a partial map, or an association list where its length or order matters.  Shared objects
  (\<open>Arc\<close>) live in a list of the state and are named by their index.  Answers of the operating system, of
  libraries and of remote services are arguments; what a theorem needs of them is one of its hypotheses, and
  its witness gives a concrete instance.  A task that waits is a value of the state, and a turn is what it
  does until it waits again.

  Bounds and fuel.  No definition runs on fuel of its own: the paging loop has the fifty rounds of the code, the
  connection loops have as many rounds as the pool has targets, which \<open>connects_to_first_reachable\<close>
  shows to be enough, and every other recursion is structural or has a measure.  The event loops
  are functions of one event or relations over any number of them.

  What the lemmas show.  Money: the ledger neither creates nor loses traffic, and limits follow balances.  Billing: nothing
  is forwarded before it is counted, whatever the order in which the connections and shards of a user's rules take
  their turns, streams arrive intact, and counters, restarts and reloads agree.  Durability: flushes
  refine writing everything, and the engine's memory is what a restart reads.  Control: the live
  configuration is what runs, edits do not overwrite each other, and the panel is closed without its credentials.
  The process: no interleaving of its tasks panics (\<open>process_makes_progress\<close>), and what it has billed is what it
  starts with after its end (\<open>restart_keeps_every_bill\<close>), as long as every total of bytes is below \<open>2 ^ 63\<close> when a
  task takes its turn (\<open>modest\<close>), which keeps the 64 bit counters from wrapping, and the system answers as
  documented (\<open>fair_event\<close>): a read returns no more than it was asked for, and the provider's decoder does not panic.

  Not modelled.  The YAML and JSON5 readers, the text of a JSON document and the serialized form of the book are parameters; the
  document of the panel's store is modelled, its accounting section and addresses as they are.  The
  HTTP server, logging, the syntax of the command line, the delivery of signals, socket options and the page of the panel
  are left out.  The memory ordering of the quota's atomics is not modelled: its operations are atomic.  A loop
  that connects to a target, the sending of one UDP buffer, a call of the database, \<open>Runtime::apply\<close>, and the engine's
  saving of a book together with the limits it then sets, are each a single turn.

  Left open.  Fairness between tasks, and with it that a connection is eventually served, is not stated.  What the
  forwarding tasks count after the last flush has read the quotas and before the process is gone is not saved by
  the code, and \<open>shut_down\<close> does not follow it.
\<close>

end
